(* ===== verification/Prelude.thy ===== *)
theory Prelude imports Main "HOL-Library.Word" "HOL-Library.AList" begin

text \<open>
  Shared vocabulary of the development: the named collections the component
  theories feed, the types that stand for Go's own (a Go \<open>string\<close> and a Go
  \<open>[]byte\<close> are both sequences of bytes, and Isabelle's \<open>char\<close> has exactly
  256 values), and the generic facts about lists, options and association lists
  that several components use.
\<close>

section \<open>Collections of facts\<close>

named_theorems go_defs \<open>definitions of the modelled Go helpers, for unfolding\<close>
named_theorems inv_intros \<open>introduction rules of the component invariants\<close>

section \<open>Types\<close>

type_synonym bytes = string
type_synonym u64 = "64 word"

text \<open>The result of a Go function that returns a value and an error.\<close>

type_synonym ('e, 'a) result = "'e + 'a"

section \<open>Keep-first duplicate removal\<close>

text \<open>
  The library's \<open>remdups\<close> keeps the last occurrence of an element; the code of
  this repository always keeps the first.
\<close>

fun dedup_into :: "'a list \<Rightarrow> 'a list \<Rightarrow> 'a list" where
  "dedup_into acc [] = acc"
| "dedup_into acc (x # xs) =
     (if x \<in> set acc then dedup_into acc xs else dedup_into (acc @ [x]) xs)"

lemma set_dedup_into [simp]: "set (dedup_into acc xs) = set acc \<union> set xs"
  by (induction acc xs rule: dedup_into.induct) auto

lemma distinct_dedup_into [intro]: "distinct acc \<Longrightarrow> distinct (dedup_into acc xs)"
  by (induction acc xs rule: dedup_into.induct) auto

lemma dedup_into_distinct:
  "distinct xs \<Longrightarrow> set acc \<inter> set xs = {} \<Longrightarrow> dedup_into acc xs = acc @ xs"
  by (induction acc xs rule: dedup_into.induct) auto

lemma dedup_into_skip: "set xs \<subseteq> set acc \<Longrightarrow> dedup_into acc (xs @ ys) = dedup_into acc ys"
  by (induction xs arbitrary: acc) auto

lemma dedup_into_append: "dedup_into acc (xs @ ys) = dedup_into (dedup_into acc xs) ys"
  by (induction acc xs rule: dedup_into.induct) auto

text \<open>Removing duplicates of \<open>f\<close>-images commutes with first removing duplicates.\<close>

lemma dedup_map_dedup:
  "dedup_into bcc (map f (dedup_into acc xs)) = dedup_into bcc (map f (acc @ xs))"
proof (induction xs arbitrary: acc)
  case Nil
  then show ?case by simp
next
  case (Cons x xs)
  show ?case
  proof (cases "x \<in> set acc")
    case True
    then have "f x \<in> set (dedup_into bcc (map f acc))" by simp
    with True Cons.IH show ?thesis by (simp add: dedup_into_append)
  next
    case False
    with Cons.IH [of "acc @ [x]"] show ?thesis by simp
  qed
qed

lemma dedup_map_nil: "dedup_into [] (map f (dedup_into [] xs)) = dedup_into [] (map f xs)"
  using dedup_map_dedup [of "[]" f "[]" xs] by simp

section \<open>Sorted lists\<close>

lemma dedup_sorted_key:
  assumes "sorted (map k xs)"
  shows "sorted (map k (dedup_into [] xs))"
proof -
  have "sorted (map k (dedup_into acc xs))"
    if "sorted (map k (acc @ xs))" for acc using that
    by (induction acc xs rule: dedup_into.induct) (auto simp: sorted_append)
  from this [of "[]"] assms show ?thesis by simp
qed

text \<open>Two duplicate-free lists sorted by an injective key are equal when their elements are.\<close>

lemma sorted_key_unique:
  assumes "sorted (map k xs)" "sorted (map k ys)" "distinct xs" "distinct ys"
    and "set xs = set ys" "inj_on k (set xs)"
  shows "xs = ys"
proof -
  have "map k xs = map k ys"
    using assms by (intro sorted_distinct_set_unique) (auto simp: distinct_map)
  then show ?thesis
    using assms(5,6) by (metis inj_on_map_eq_map list.set_map sup.idem)
qed

section \<open>Association lists\<close>

lemma map_of_size [termination_simp]:
  "map_of cs w = Some c \<Longrightarrow> f c < Suc (size_list (size_prod (\<lambda>_. 0) f) cs)"
  by (induction cs) (auto split: if_splits)

lemma set_alist_update:
  "distinct (map fst al) \<Longrightarrow>
   set (AList.update k v al) = insert (k, v) {p \<in> set al. fst p \<noteq> k}"
  by (induction al) force+

lemma distinct_snd_unique: "distinct (map snd xs) \<Longrightarrow> (a, i) \<in> set xs \<Longrightarrow> (b, i) \<in> set xs \<Longrightarrow> a = b"
  by (induction xs) force+

section \<open>Small facts\<close>

text \<open>A loop keeps what its body keeps.\<close>

lemma fold_keeps: "P s \<Longrightarrow> (\<And>x s. x \<in> set xs \<Longrightarrow> P s \<Longrightarrow> P (f x s)) \<Longrightarrow> P (fold f xs s)"
  by (induction xs arbitrary: s) simp_all

lemma u64_of_nat: "n < 2 ^ 64 \<Longrightarrow> unat (of_nat n :: u64) = n"
  by (simp add: unat_of_nat)

lemma ex_le_Suc: "(\<exists>i \<le> Suc n. P i) \<longleftrightarrow> P 0 \<or> (\<exists>i \<le> n. P (Suc i))"
  by (metis Suc_le_mono le0 not0_implies_Suc)

lemma cons_image_iff [simp]:
  "(w # p, e) \<in> (\<lambda>(q, x). (k # q, x)) ` S \<longleftrightarrow> w = k \<and> (p, e) \<in> S"
  by force

end
