(* ===== verification/GoStrings.thy ===== *)
theory GoStrings imports Prelude begin

text \<open>
  The part of Go's standard library the sources call on strings: \<open>strings.Split\<close>,
  \<open>HasPrefix\<close>, \<open>LastIndexByte\<close>, \<open>ContainsAny\<close>, \<open>TrimSpace\<close>, \<open>ToLower\<close> and
  \<open>EqualFold\<close> against ASCII words, \<open>utf8.Valid\<close>, \<open>strconv.ParseInt\<close>,
  \<open>ParseUint\<close> and \<open>FormatInt\<close>. A Go string is a byte sequence, so every function
  here works on bytes; where Go works on runes the UTF-8 decoding is written out.
\<close>

section \<open>Splitting and searching\<close>

text \<open>\<open>strings.Split(s, sep)\<close> for a one-byte separator: never empty, one element more than
  there are separators.\<close>

fun split_on :: "char \<Rightarrow> string \<Rightarrow> string list" where
  "split_on c [] = [[]]"
| "split_on c (x # xs) =
     (if x = c then [] # split_on c xs
      else (case split_on c xs of [] \<Rightarrow> [[x]] | w # ws \<Rightarrow> (x # w) # ws))"

text \<open>\<open>strings.Join(ws, sep)\<close> for a one-byte separator.\<close>

fun join_with :: "char \<Rightarrow> string list \<Rightarrow> string" where
  "join_with c [] = []"
| "join_with c [w] = w"
| "join_with c (w # v # ws) = w @ c # join_with c (v # ws)"

abbreviation dot :: char where "dot \<equiv> CHR ''.''"

abbreviation split_dots :: "string \<Rightarrow> string list" where "split_dots \<equiv> split_on dot"

definition has_prefix :: "string \<Rightarrow> string \<Rightarrow> bool" where
  "has_prefix s p \<longleftrightarrow> take (length p) s = p"

text \<open>\<open>strings.LastIndexByte(s, c)\<close>: the last position of \<open>c\<close>, or -1.\<close>

fun last_index_byte :: "string \<Rightarrow> char \<Rightarrow> int" where
  "last_index_byte [] c = -1"
| "last_index_byte (x # xs) c =
     (let i = last_index_byte xs c
      in if 0 \<le> i then i + 1 else if x = c then 0 else -1)"

definition contains_any :: "string \<Rightarrow> string \<Rightarrow> bool" where
  "contains_any s cs \<longleftrightarrow> list_ex (\<lambda>c. c \<in> set cs) s"

section \<open>UTF-8\<close>

abbreviation byte_val :: "char \<Rightarrow> nat" where "byte_val c \<equiv> of_char c"

definition cont_byte :: "nat \<Rightarrow> bool" where
  "cont_byte b \<longleftrightarrow> 128 \<le> b \<and> b \<le> 191"

definition rune_error :: nat where "rune_error = 65533"

text \<open>
  \<open>utf8.DecodeRune\<close> on byte values: the rune and the number of bytes it takes.
  A malformed sequence yields \<open>RuneError\<close> with size 1, the empty one with size 0.
\<close>

fun decode_rune :: "nat list \<Rightarrow> nat \<times> nat" where
  "decode_rune [] = (rune_error, 0)"
| "decode_rune (b0 # bs) =
     (if b0 < 128 then (b0, 1)
      else if 194 \<le> b0 \<and> b0 \<le> 223 then
        (case bs of b1 # _ \<Rightarrow>
           if cont_byte b1 then ((b0 mod 32) * 64 + b1 mod 64, 2) else (rune_error, 1)
         | [] \<Rightarrow> (rune_error, 1))
      else if 224 \<le> b0 \<and> b0 \<le> 239 then
        (case bs of b1 # b2 # _ \<Rightarrow>
           if cont_byte b1 \<and> (b0 = 224 \<longrightarrow> 160 \<le> b1) \<and> (b0 = 237 \<longrightarrow> b1 \<le> 159) \<and> cont_byte b2
           then ((b0 mod 16) * 4096 + (b1 mod 64) * 64 + b2 mod 64, 3) else (rune_error, 1)
         | _ \<Rightarrow> (rune_error, 1))
      else if 240 \<le> b0 \<and> b0 \<le> 244 then
        (case bs of b1 # b2 # b3 # _ \<Rightarrow>
           if cont_byte b1 \<and> (b0 = 240 \<longrightarrow> 144 \<le> b1) \<and> (b0 = 244 \<longrightarrow> b1 \<le> 143) \<and>
              cont_byte b2 \<and> cont_byte b3
           then ((b0 mod 8) * 262144 + (b1 mod 64) * 4096 + (b2 mod 64) * 64 + b3 mod 64, 4)
           else (rune_error, 1)
         | _ \<Rightarrow> (rune_error, 1))
      else (rune_error, 1))"

lemma decode_rune_size_pos: "bs \<noteq> [] \<Longrightarrow> 0 < snd (decode_rune bs)"
  by (cases bs) (auto split: list.splits)

lemma decode_rune_size_le: "snd (decode_rune bs) \<le> length bs"
  by (cases bs) (auto split: list.splits)

text \<open>\<open>utf8.Valid\<close>: no position decodes as an error of width 1.\<close>

function utf8_valid_bytes :: "nat list \<Rightarrow> bool" where
  "utf8_valid_bytes bs =
     (if bs = [] then True
      else if decode_rune bs = (rune_error, 1) then False
      else utf8_valid_bytes (drop (snd (decode_rune bs)) bs))"
  by pat_completeness auto
termination
  by (relation "measure length") (auto simp: decode_rune_size_pos diff_less)

declare utf8_valid_bytes.simps [simp del]

definition utf8_valid :: "bytes \<Rightarrow> bool" where
  "utf8_valid s = utf8_valid_bytes (map byte_val s)"

lemma utf8_valid_Nil [simp]: "utf8_valid []"
  by (simp add: utf8_valid_def utf8_valid_bytes.simps)

lemma utf8_valid_ascii:
  "list_all (\<lambda>c. byte_val c < 128) s \<Longrightarrow> utf8_valid s"
  unfolding utf8_valid_def
  by (induction s) (simp_all add: utf8_valid_bytes.simps [of "_ # _"] utf8_valid_bytes.simps [of "[]"]
      rune_error_def)

section \<open>White space\<close>

text \<open>\<open>unicode.IsSpace\<close>.\<close>

definition is_space :: "nat \<Rightarrow> bool" where
  "is_space r \<longleftrightarrow> 9 \<le> r \<and> r \<le> 13 \<or> r = 32 \<or> r = 133 \<or> r = 160 \<or> r = 5760 \<or>
     8192 \<le> r \<and> r \<le> 8202 \<or> r = 8232 \<or> r = 8233 \<or> r = 8239 \<or> r = 8287 \<or> r = 12288"

function trim_left :: "string \<Rightarrow> string" where
  "trim_left s =
     (if s = [] then []
      else let (r, n) = decode_rune (map byte_val s)
           in if is_space r then trim_left (drop n s) else s)"
  by pat_completeness auto
termination
proof (relation "measure length", goal_cases)
  case 1
  show ?case by simp
next
  case (2 s p r n)
  have "map byte_val s \<noteq> []" using 2 by simp
  from decode_rune_size_pos [OF this] have "0 < n" using 2 by (metis snd_conv)
  then show ?case using 2 by simp
qed

declare trim_left.simps [simp del]

text \<open>\<open>utf8.RuneStart\<close>: not a continuation byte.\<close>

definition rune_start :: "nat \<Rightarrow> bool" where "rune_start b \<longleftrightarrow> \<not> cont_byte b"

text \<open>
  \<open>utf8.DecodeLastRune\<close>: look back over at most four bytes for the start of a
  sequence that ends exactly at the end of the string.
\<close>

definition decode_last_rune :: "nat list \<Rightarrow> nat \<times> nat" where
  "decode_last_rune bs =
     (if bs = [] then (rune_error, 0)
      else if last bs < 128 then (last bs, 1)
      else (case find (\<lambda>k. k \<le> length bs \<and> rune_start (bs ! (length bs - k))) [2, 3, 4] of
              None \<Rightarrow> (rune_error, 1)
            | Some k \<Rightarrow>
                let (r, n) = decode_rune (drop (length bs - k) bs)
                in if n = k then (r, n) else (rune_error, 1)))"

lemma decode_last_rune_pos: "bs \<noteq> [] \<Longrightarrow> 0 < snd (decode_last_rune bs)"
  by (auto simp: decode_last_rune_def split: option.splits prod.splits if_splits)

function trim_right :: "string \<Rightarrow> string" where
  "trim_right s =
     (if s = [] then []
      else let (r, n) = decode_last_rune (map byte_val s)
           in if is_space r then trim_right (take (length s - n) s) else s)"
  by pat_completeness auto
termination
proof (relation "measure length", goal_cases)
  case 1
  show ?case by simp
next
  case (2 s p r n)
  have "map byte_val s \<noteq> []" using 2 by simp
  from decode_last_rune_pos [OF this] have "0 < n" using 2 by (metis snd_conv)
  then show ?case using 2 by simp
qed

declare trim_right.simps [simp del]

definition trim_space :: "string \<Rightarrow> string" where
  "trim_space s = trim_right (trim_left s)"

section \<open>Letter case\<close>

text \<open>
  \<open>strings.ToLower\<close> on ASCII letters. The sources compare the result only with ASCII
  words; the two non-ASCII runes whose lower case is ASCII (U+0130 gives i, U+212A gives k)
  occur in none of the words compared in the modelled code, so for those comparisons
  lowering the ASCII letters alone decides the same way. \<open>strings.EqualFold\<close> is
  compared with the word ``true'' only, none of whose letters folds outside ASCII.
\<close>

definition to_lower_char :: "char \<Rightarrow> char" where
  "to_lower_char c =
     (let n = byte_val c in if 65 \<le> n \<and> n \<le> 90 then char_of (n + 32) else c)"

definition to_lower :: "string \<Rightarrow> string" where
  "to_lower s = map to_lower_char s"

definition equal_fold :: "string \<Rightarrow> string \<Rightarrow> bool" where
  "equal_fold s t \<longleftrightarrow> to_lower s = to_lower t"

section \<open>Numbers\<close>

definition is_digit :: "char \<Rightarrow> bool" where
  "is_digit c \<longleftrightarrow> 48 \<le> byte_val c \<and> byte_val c \<le> 57"

definition digits_val :: "string \<Rightarrow> nat" where
  "digits_val s = foldl (\<lambda>n c. n * 10 + (byte_val c - 48)) 0 s"

text \<open>\<open>strconv.ParseUint(s, 10, 64)\<close>; \<open>None\<close> is any error (syntax or range).\<close>

definition parse_uint :: "string \<Rightarrow> nat option" where
  "parse_uint s =
     (if s = [] \<or> \<not> list_all is_digit s then None
      else if digits_val s < 2 ^ 64 then Some (digits_val s) else None)"

text \<open>\<open>strconv.ParseInt(s, 10, 64)\<close>: an optional sign, digits, and the int64 range.\<close>

definition parse_int :: "string \<Rightarrow> int option" where
  "parse_int s =
     (case s of [] \<Rightarrow> None
      | c # cs \<Rightarrow>
          let neg = (c = CHR ''-'');
              digs = (if c = CHR ''-'' \<or> c = CHR ''+'' then cs else s)
          in (case parse_uint digs of None \<Rightarrow> None
              | Some n \<Rightarrow>
                  if \<not> neg \<and> n \<ge> 2 ^ 63 then None
                  else if neg \<and> n > 2 ^ 63 then None
                  else Some (if neg then - int n else int n)))"

text \<open>\<open>strconv.Itoa\<close> and \<open>FormatInt(n, 10)\<close>.\<close>

fun nat_digits :: "nat \<Rightarrow> string" where
  "nat_digits n = (if n < 10 then [char_of (48 + n)]
                   else nat_digits (n div 10) @ [char_of (48 + n mod 10)])"

declare nat_digits.simps [simp del]

definition format_int :: "int \<Rightarrow> string" where
  "format_int i = (if i < 0 then CHR ''-'' # nat_digits (nat (- i)) else nat_digits (nat i))"

section \<open>Durations\<close>

text \<open>
  \<open>time.Duration.String\<close>: \<open>fmt_frac\<close> writes \<open>prec\<close> digits of the fraction without its
  trailing zeros in front of what is already written, and returns what is left of the value.
\<close>

type_synonym duration = int

fun fmt_frac :: "nat \<Rightarrow> nat \<Rightarrow> bool \<Rightarrow> string \<Rightarrow> string \<times> nat" where
  "fmt_frac 0 v printing buf = (if printing then CHR ''.'' # buf else buf, v)"
| "fmt_frac (Suc prec) v printing buf =
     (let digit = v mod 10; p = printing \<or> digit \<noteq> 0
      in fmt_frac prec (v div 10) p (if p then char_of (48 + digit) # buf else buf))"

definition duration_string :: "duration \<Rightarrow> string" where
  "duration_string d =
     (let u = nat \<bar>d\<bar>;
          sign = (if d < 0 then ''-'' else '''');
          small = (\<lambda>prec unit. let (buf, v) = fmt_frac prec u False unit in sign @ nat_digits v @ buf)
      in if u = 0 then ''0s''
         else if u < 1000 then small 0 ''ns''
         else if u < 1000000 then small 3 [CHR 0xC2, CHR 0xB5, CHR ''s'']
         else if u < 1000000000 then small 6 ''ms''
         else
           let (buf, secs) = fmt_frac 9 u False ''s'';
               b1 = nat_digits (secs mod 60) @ buf; mins = secs div 60
           in if mins = 0 then sign @ b1
              else let b2 = nat_digits (mins mod 60) @ ''m'' @ b1; hours = mins div 60
                   in if hours = 0 then sign @ b2 else sign @ nat_digits hours @ ''h'' @ b2)"

section \<open>Printing and parsing numbers\<close>

lemma digit_char: "d < 10 \<Longrightarrow> byte_val (char_of (48 + d)) = 48 + d"
  by simp

lemma nat_digits_digits: "list_all is_digit (nat_digits n)"
proof (induction n rule: nat_digits.induct)
  case (1 n)
  have "n mod 10 \<le> 9" by presburger
  with 1 show ?case by (subst nat_digits.simps) (simp add: is_digit_def [of "char_of _"])
qed

lemma nat_digits_nonempty [simp]: "nat_digits n \<noteq> []"
  by (subst nat_digits.simps) simp

lemma digits_val_snoc: "digits_val (s @ [c]) = digits_val s * 10 + (byte_val c - 48)"
  by (simp add: digits_val_def)

lemma digits_val_nat_digits: "digits_val (nat_digits n) = n"
proof (induction n rule: nat_digits.induct)
  case (1 n)
  show ?case
  proof (cases "n < 10")
    case True
    then show ?thesis by (simp add: nat_digits.simps [of n] digits_val_def)
  next
    case False
    then show ?thesis using 1 by (simp add: nat_digits.simps [of n] digits_val_snoc)
  qed
qed

lemma parse_uint_nat_digits: "n < 2 ^ 64 \<Longrightarrow> parse_uint (nat_digits n) = Some n"
  by (simp add: parse_uint_def nat_digits_digits digits_val_nat_digits)

lemma nat_digits_hd: "is_digit (hd (nat_digits n))"
  using nat_digits_digits [of n] nat_digits_nonempty [of n] by (cases "nat_digits n") simp_all

lemma nat_digits_last: "is_digit (last (nat_digits n))"
  using nat_digits_digits [of n] nat_digits_nonempty [of n] by (metis last_in_set list_all_iff)

lemma parse_int_format_int:
  assumes "- (2 ^ 63) \<le> i" "i < 2 ^ 63"
  shows "parse_int (format_int i) = Some i"
proof (cases "i < 0")
  case True
  then show ?thesis using assms parse_uint_nat_digits [of "nat (- i)"]
    by (simp add: parse_int_def format_int_def Let_def nat_less_iff)
next
  case False
  have "hd (nat_digits (nat i)) \<noteq> CHR ''-''" "hd (nat_digits (nat i)) \<noteq> CHR ''+''"
    using nat_digits_hd [of "nat i"] by (auto simp: is_digit_def)
  then show ?thesis
    using False assms parse_uint_nat_digits [of "nat i"] nat_digits_nonempty [of "nat i"]
    by (cases "nat_digits (nat i)") (simp_all add: parse_int_def format_int_def Let_def nat_less_iff)
qed

lemma parse_int_range: "parse_int s = Some i \<Longrightarrow> - (2 ^ 63) \<le> i \<and> i < 2 ^ 63"
  by (auto simp: parse_int_def Let_def split: list.splits option.splits if_splits)

text \<open>Trimming leaves a string alone whose first and last bytes are printable ASCII.\<close>

lemma trim_space_ascii:
  assumes "s \<noteq> []" "byte_val (hd s) < 128" "\<not> is_space (byte_val (hd s))"
    and "byte_val (last s) < 128" "\<not> is_space (byte_val (last s))"
  shows "trim_space s = s"
proof -
  have "trim_left s = s"
    using assms(1-3) by (cases s) (simp_all add: trim_left.simps [of "_ # _"])
  moreover have "trim_right s = s"
    using assms(1,4,5) by (subst trim_right.simps) (simp add: decode_last_rune_def last_map)
  ultimately show ?thesis by (simp add: trim_space_def)
qed

lemma digit_not_space: "is_digit c \<Longrightarrow> byte_val c < 128 \<and> \<not> is_space (byte_val c)"
  by (auto simp: is_digit_def is_space_def)

lemma trim_space_format_int: "trim_space (format_int i) = format_int i"
  using digit_not_space [OF nat_digits_hd] digit_not_space [OF nat_digits_last]
  by (intro trim_space_ascii) (simp_all add: format_int_def is_space_def)

lemma split_on_nonempty [simp]: "split_on c s \<noteq> []"
  by (induction s) (auto split: list.split)

lemma split_on_append: "split_on c (s @ c # t) = split_on c s @ split_on c t"
proof (induction s)
  case (Cons x xs)
  then show ?case by (cases "split_on c xs") auto
qed simp

lemma split_on_word: "c \<notin> set s \<Longrightarrow> split_on c s = [s]"
  by (induction s) auto

lemma join_split: "join_with c (split_on c s) = s"
proof (induction s)
  case (Cons x xs)
  obtain w ws where split: "split_on c xs = w # ws" by (cases "split_on c xs") auto
  with Cons have "join_with c (w # ws) = xs" by simp
  with split show ?case by (cases ws) auto
qed simp

lemma split_on_inj: "split_on c s = split_on c t \<longleftrightarrow> s = t"
  by (metis join_split)

lemma split_on_words: "w \<in> set (split_on c s) \<Longrightarrow> c \<notin> set w"
proof (induction s arbitrary: w)
  case (Cons x xs)
  obtain v vs where split: "split_on c xs = v # vs" by (cases "split_on c xs") auto
  with Cons.IH have "c \<notin> set v" "\<forall>w \<in> set vs. c \<notin> set w" by simp_all
  with Cons.prems split Cons.IH show ?case by (cases "x = c") auto
qed simp

end
