(* ===== verification/Topic.thy ===== *)
theory Topic imports GoStrings begin

text \<open>
  The topic trie of \<open>internal/topic/trie.go\<close>, which decides inside a subscriber which
  handlers a delivery is for, and the reference matcher \<open>topicMatch\<close> of
  \<open>internal/fakebroker/broker.go\<close>, the routing rule of an AMQP topic exchange.
  The main result is that the trie implements the specification ``every value whose
  pattern matches, once each, in the order of registration''.

  A trie node is a value here and a pointer in Go: \<open>Add\<close> walks down from the root and
  mutates the last node, so the model rebuilds the path. The map of children is an
  association list; the registration counter keeps its width of 64 bits.
\<close>

section \<open>Model\<close>

datatype 'a node = Node
  (children: "(string \<times> 'a node) list")
  (star: "'a node option")
  (hash: "'a node option")
  (vals: "('a \<times> u64) list")

record 'a trie =
  t_root :: "'a node"
  t_seq :: u64

definition empty_node :: "'a node" where
  "empty_node = Node [] None None []"

definition New :: "'a trie" where
  "New = \<lparr>t_root = empty_node, t_seq = 0\<rparr>"

text \<open>\<open>node.child\<close>: the child a word leads to, a fresh node when there is none.\<close>

definition child :: "'a node \<Rightarrow> string \<Rightarrow> 'a node" where
  "child n word =
     (if word = ''*'' then (case star n of None \<Rightarrow> empty_node | Some c \<Rightarrow> c)
      else if word = ''#'' then (case hash n of None \<Rightarrow> empty_node | Some c \<Rightarrow> c)
      else (case map_of (children n) word of None \<Rightarrow> empty_node | Some c \<Rightarrow> c))"

text \<open>The pointer \<open>child\<close> returns is stored in the parent; this stores the changed child.\<close>

definition set_child :: "'a node \<Rightarrow> string \<Rightarrow> 'a node \<Rightarrow> 'a node" where
  "set_child n word c =
     (if word = ''*'' then Node (children n) (Some c) (hash n) (vals n)
      else if word = ''#'' then Node (children n) (star n) (Some c) (vals n)
      else Node (AList.update word c (children n)) (star n) (hash n) (vals n))"

fun add_walk :: "string list \<Rightarrow> ('a \<times> u64) \<Rightarrow> 'a node \<Rightarrow> 'a node" where
  "add_walk [] e n = Node (children n) (star n) (hash n) (vals n @ [e])"
| "add_walk (w # ws) e n = set_child n w (add_walk ws e (child n w))"

definition Add :: "'a trie \<Rightarrow> string \<Rightarrow> 'a \<Rightarrow> 'a trie" where
  "Add t pattern v =
     t\<lparr>t_seq := t_seq t + 1,
       t_root := add_walk (split_dots pattern) (v, t_seq t + 1) (t_root t)\<rparr>"

text \<open>\<open>node.collect\<close>, with the slice it appends to as the result list.\<close>

fun collect :: "'a node \<Rightarrow> string list \<Rightarrow> ('a \<times> u64) list" where
  "collect (Node cs st hs vs) words =
     (case words of
        [] \<Rightarrow> vs @ (case hs of None \<Rightarrow> [] | Some h \<Rightarrow> collect h [])
      | w # ws \<Rightarrow>
          (case map_of cs w of None \<Rightarrow> [] | Some c \<Rightarrow> collect c ws) @
          (case st of None \<Rightarrow> [] | Some s \<Rightarrow> collect s ws) @
          (case hs of None \<Rightarrow> []
           | Some h \<Rightarrow> concat (map (\<lambda>i. collect h (drop i words)) [0..<Suc (length words)])))"

declare collect.simps [simp del]

definition Match :: "'a trie \<Rightarrow> string \<Rightarrow> 'a list \<Rightarrow> 'a list" where
  "Match t topic dst =
     (let found = collect (t_root t) (split_dots topic)
      in if found = [] then dst
         else dst @ dedup_into [] (map fst (sort_key snd found)))"

text \<open>\<open>topicMatch\<close> of the broker: the words of a pattern against the words of a key.\<close>

fun topicMatch :: "string list \<Rightarrow> string list \<Rightarrow> bool" where
  "topicMatch [] t = (t = [])"
| "topicMatch (p # ps) [] = (if p = ''#'' then topicMatch ps [] else False)"
| "topicMatch (p # ps) (w # ws) =
     (if p = ''#'' then topicMatch ps (w # ws) \<or> topicMatch (p # ps) ws
      else if p = ''*'' \<or> p = w then topicMatch ps ws else False)"

section \<open>Specification\<close>

text \<open>Registrations in order; a lookup keeps each value once, where it first matches.\<close>

definition topic_spec :: "(string \<times> 'a) list \<Rightarrow> string \<Rightarrow> 'a list" where
  "topic_spec regs topic =
     dedup_into [] (map snd (filter (\<lambda>(p, v). topicMatch (split_dots p) (split_dots topic)) regs))"

fun add_all :: "'a trie \<Rightarrow> (string \<times> 'a) list \<Rightarrow> 'a trie" where
  "add_all t [] = t"
| "add_all t ((p, v) # rs) = add_all (Add t p v) rs"

section \<open>What a trie holds\<close>

text \<open>Every registered entry with the words of its pattern.\<close>

fun entries :: "'a node \<Rightarrow> (string list \<times> ('a \<times> u64)) list" where
  "entries (Node cs st hs vs) =
     map (Pair []) vs @
     concat (map (\<lambda>(k, c). map (\<lambda>(p, e). (k # p, e)) (entries c)) cs) @
     (case st of None \<Rightarrow> [] | Some s \<Rightarrow> map (\<lambda>(p, e). (''*'' # p, e)) (entries s)) @
     (case hs of None \<Rightarrow> [] | Some h \<Rightarrow> map (\<lambda>(p, e). (''#'' # p, e)) (entries h))"

text \<open>Well-formedness: distinct child words, and no child is filed under a wildcard.\<close>

fun wf_node :: "'a node \<Rightarrow> bool" where
  "wf_node (Node cs st hs vs) \<longleftrightarrow>
     distinct (map fst cs) \<and> ''*'' \<notin> fst ` set cs \<and> ''#'' \<notin> fst ` set cs \<and>
     list_all (\<lambda>(k, c). wf_node c) cs \<and>
     (case st of None \<Rightarrow> True | Some s \<Rightarrow> wf_node s) \<and>
     (case hs of None \<Rightarrow> True | Some h \<Rightarrow> wf_node h)"

lemma wf_empty_node [simp]: "wf_node empty_node"
  by (simp add: empty_node_def)

lemma entries_empty_node [simp]: "entries empty_node = []"
  by (simp add: empty_node_def)

lemma wf_child: "wf_node n \<Longrightarrow> wf_node (child n w)"
  by (cases n) (auto simp: child_def list_all_iff split: option.splits dest!: map_of_SomeD)

lemma wf_set_child: "wf_node n \<Longrightarrow> wf_node c \<Longrightarrow> wf_node (set_child n w c)"
  by (cases n)
     (auto simp: set_child_def list_all_iff dom_update set_alist_update distinct_update)

lemma child_set_child:
  "child (set_child n w c) v = (if v = w then c else child n v)"
  by (cases n) (auto simp: child_def set_child_def update_conv')

lemma vals_set_child [simp]: "vals (set_child n w c) = vals n"
  by (simp add: set_child_def)

lemma wf_add_walk: "wf_node n \<Longrightarrow> wf_node (add_walk ws e n)"
proof (induction ws arbitrary: n)
  case Nil
  then show ?case by (cases n) simp
next
  case (Cons w ws)
  then show ?case by (simp add: wf_set_child wf_child)
qed

text \<open>The entries below a node, by the first word of their pattern.\<close>

lemma entries_Nil_iff: "([], e) \<in> set (entries n) \<longleftrightarrow> e \<in> set (vals n)"
  by (cases n) (auto split: option.splits)

lemma entries_Cons_iff:
  assumes "wf_node n"
  shows "(w # p, e) \<in> set (entries n) \<longleftrightarrow> (p, e) \<in> set (entries (child n w))"
proof (cases n)
  case (Node cs st hs vs)
  have d: "distinct (map fst cs)" and s: "''*'' \<notin> fst ` set cs" and h: "''#'' \<notin> fst ` set cs"
    using assms Node by auto
  have lit: "(\<exists>c. (w, c) \<in> set cs \<and> (p, e) \<in> set (entries c)) \<longleftrightarrow>
      (\<exists>c. map_of cs w = Some c \<and> (p, e) \<in> set (entries c))"
    using d by (metis map_of_SomeD map_of_is_SomeI)
  have "(w, c) \<notin> set cs" if "w = ''*'' \<or> w = ''#''" for c using that s h by force
  then show ?thesis using Node lit
    by (auto simp: child_def split: option.splits)
qed

lemma entries_add_walk:
  "wf_node n \<Longrightarrow>
   (q, x) \<in> set (entries (add_walk ws e n)) \<longleftrightarrow> (q, x) = (ws, e) \<or> (q, x) \<in> set (entries n)"
proof (induction ws arbitrary: n q)
  case Nil
  show ?case
  proof (cases q)
    case Nil
    then show ?thesis by (auto simp: entries_Nil_iff)
  next
    case (Cons v p)
    have "child (add_walk [] e n) v = child n v" by (simp add: child_def)
    then show ?thesis
      using Cons Nil.prems wf_add_walk [OF Nil.prems, of "[]" e]
      by (simp add: entries_Cons_iff del: add_walk.simps)
  qed
next
  case (Cons w ws)
  show ?case
  proof (cases q)
    case Nil
    then show ?thesis by (simp add: entries_Nil_iff)
  next
    case (Cons v p)
    have wf: "wf_node (set_child n w (add_walk ws e (child n w)))"
      using Cons.prems by (simp add: wf_set_child wf_child wf_add_walk)
    show ?thesis
      using Cons wf Cons.prems Cons.IH [OF wf_child [OF Cons.prems], of p w]
      by (auto simp: entries_Cons_iff child_set_child)
  qed
qed

section \<open>Collecting is matching\<close>

lemma topicMatch_hash:
  "topicMatch (''#'' # ps) ws \<longleftrightarrow> (\<exists>i \<le> length ws. topicMatch ps (drop i ws))"
proof (induction ws)
  case Nil
  then show ?case by simp
next
  case (Cons w ws)
  then show ?case by (simp add: ex_le_Suc)
qed

lemma entries_split:
  assumes "wf_node n"
  shows "(\<exists>p. (p, e) \<in> set (entries n) \<and> M p) \<longleftrightarrow>
    e \<in> set (vals n) \<and> M [] \<or> (\<exists>w p. (p, e) \<in> set (entries (child n w)) \<and> M (w # p))"
  by (metis assms entries_Cons_iff entries_Nil_iff list.exhaust)

lemma collect_empty_node [simp]: "collect empty_node ws = []"
  by (cases ws) (simp_all add: empty_node_def collect.simps)

lemma map_of_wild: "wf_node (Node cs st hs vs) \<Longrightarrow> v = ''*'' \<or> v = ''#'' \<Longrightarrow> map_of cs v = None"
  by (elim disjE) (simp_all add: map_of_eq_None_iff)

lemma set_collect_Nil: "set (collect n []) = set (vals n) \<union> set (collect (child n ''#'') [])"
  by (cases n) (simp add: child_def collect.simps [of _ _ _ _ "[]"] split: option.splits)

lemma set_collect_Cons:
  assumes "wf_node n"
  shows "set (collect n (v # ws)) =
    (if v = ''*'' \<or> v = ''#'' then {} else set (collect (child n v) ws)) \<union>
    set (collect (child n ''*'') ws) \<union>
    (\<Union>i \<in> {..length (v # ws)}. set (collect (child n ''#'') (drop i (v # ws))))"
proof (cases n)
  case (Node cs st hs vs)
  have u: "{0..<Suc m} = {..m}" for m by auto
  show ?thesis
    using map_of_wild [OF assms [unfolded Node], of v] unfolding Node
    by (simp add: child_def collect.simps [of _ _ _ _ "_ # _"] u UNION_eq Un_assoc del: upt_Suc
        split: option.splits)
qed

lemma size_child: "child n w = empty_node \<or> size (child n w) < size n"
proof (cases n)
  case (Node cs st hs vs)
  show ?thesis
    using map_of_size [of cs w _ size] by (auto simp: Node child_def split: option.splits)
qed

lemma topicMatch_Cons:
  "topicMatch (w # p) (v # us) \<longleftrightarrow>
     (if w = ''#'' then (\<exists>i \<in> {..length (v # us)}. topicMatch p (drop i (v # us)))
      else (w = ''*'' \<or> w = v) \<and> topicMatch p us)"
proof (cases "w = ''#''")
  case True
  show ?thesis unfolding True topicMatch_hash by (simp only: Bex_def atMost_iff if_True refl)
next
  case False
  then show ?thesis by simp
qed

lemma wild_cases:
  assumes "s \<noteq> h"
  shows "((if v = s \<or> v = h then False else (\<exists>p. A v p \<and> T p)) \<or> (\<exists>p. A s p \<and> T p)) \<or>
      (\<exists>i \<in> I. \<exists>p. A h p \<and> D i p) \<longleftrightarrow>
    (\<exists>w p. A w p \<and> (if w = h then (\<exists>i \<in> I. D i p) else (w = s \<or> w = v) \<and> T p))"
  using assms by (cases "v = h"; cases "v = s") (simp_all, blast+)

text \<open>
  The value part of the specification: \<open>collect\<close> finds exactly the entries whose
  pattern the reference matcher accepts.
\<close>

lemma set_collect:
  "wf_node n \<Longrightarrow>
   e \<in> set (collect n ws) \<longleftrightarrow> (\<exists>p. (p, e) \<in> set (entries n) \<and> topicMatch p ws)"
proof (induction n arbitrary: ws rule: measure_induct_rule [where f = size])
  case (less n)
  have IH: "e \<in> set (collect (child n w) us) \<longleftrightarrow>
      (\<exists>p. (p, e) \<in> set (entries (child n w)) \<and> topicMatch p us)" for w us
  proof (cases "child n w = empty_node")
    case False
    then show ?thesis using size_child [of n w] by (intro less.IH wf_child less.prems) simp
  qed simp
  show ?case
  proof (cases ws)
    case Nil
    have "(\<exists>w p. (p, e) \<in> set (entries (child n w)) \<and> topicMatch (w # p) []) \<longleftrightarrow>
        (\<exists>p. (p, e) \<in> set (entries (child n ''#'')) \<and> topicMatch p [])"
      by simp
    then show ?thesis
      by (simp only: Nil set_collect_Nil [of n] Un_iff IH topicMatch.simps(1) simp_thms
          entries_split [OF less.prems, of e "\<lambda>p. topicMatch p []"])
  next
    case (Cons v us)
    let ?A = "\<lambda>w p. (p, e) \<in> set (entries (child n w))"
    let ?T = "\<lambda>p. topicMatch p us"
    let ?D = "\<lambda>i p. topicMatch p (drop i (v # us))"
    let ?I = "{..length (v # us)}"
    have if_set: "e \<in> (if b then {} else S) \<longleftrightarrow> (if b then False else e \<in> S)" for b S
      by simp
    have "e \<in> set (collect n ws) \<longleftrightarrow>
        ((if v = ''*'' \<or> v = ''#'' then False else (\<exists>p. ?A v p \<and> ?T p)) \<or>
          (\<exists>p. ?A ''*'' p \<and> ?T p)) \<or> (\<exists>i \<in> ?I. \<exists>p. ?A ''#'' p \<and> ?D i p)"
      unfolding Cons set_collect_Cons [OF less.prems] Un_iff UN_iff if_set IH by (rule refl)
    also have "\<dots> \<longleftrightarrow>
        (\<exists>w p. ?A w p \<and> (if w = ''#'' then (\<exists>i \<in> ?I. ?D i p) else (w = ''*'' \<or> w = v) \<and> ?T p))"
      by (rule wild_cases) simp
    also have "\<dots> \<longleftrightarrow> (\<exists>w p. ?A w p \<and> topicMatch (w # p) (v # us))"
      unfolding topicMatch_Cons by (rule refl)
    also have "\<dots> \<longleftrightarrow> (\<exists>p. (p, e) \<in> set (entries n) \<and> topicMatch p ws)"
      unfolding Cons entries_split [OF less.prems, of e "\<lambda>p. topicMatch p (v # us)"]
      by (simp only: topicMatch.simps(1) list.distinct simp_thms)
    finally show ?thesis .
  qed
qed

section \<open>The trie implements the specification\<close>

text \<open>The registrations with the numbers the counter gives them, as the trie files them.\<close>

definition filed :: "(string \<times> 'a) list \<Rightarrow> (string list \<times> ('a \<times> u64)) list" where
  "filed regs = map (\<lambda>(i, (p, v)). (split_dots p, (v, of_nat (Suc i)))) (enumerate 0 regs)"

lemma filed_snoc: "filed (regs @ [(p, v)]) = filed regs @ [(split_dots p, (v, of_nat (Suc (length regs))))]"
  by (simp add: filed_def enumerate_append_eq)

text \<open>The refinement relation between a trie and the registrations made so far.\<close>

definition represents :: "'a trie \<Rightarrow> (string \<times> 'a) list \<Rightarrow> bool" where
  "represents t regs \<longleftrightarrow>
     wf_node (t_root t) \<and> t_seq t = of_nat (length regs) \<and>
     set (entries (t_root t)) = set (filed regs)"

lemma represents_New: "represents New []"
  by (simp add: represents_def New_def filed_def)

lemma represents_Add:
  assumes "represents t regs"
  shows "represents (Add t p v) (regs @ [(p, v)])"
proof -
  have wf: "wf_node (t_root t)" using assms by (simp add: represents_def)
  have "set (entries (add_walk ws e (t_root t))) = insert (ws, e) (set (entries (t_root t)))" for ws e
    using entries_add_walk [OF wf, of _ _ ws e] by (simp add: set_eq_iff split_paired_all)
  then show ?thesis using assms by (simp add: represents_def Add_def filed_snoc wf_add_walk ac_simps)
qed

lemma represents_add_all: "represents t regs \<Longrightarrow> represents (add_all t rs) (regs @ rs)"
proof (induction rs arbitrary: t regs)
  case (Cons r rs)
  obtain p v where r: "r = (p, v)" by fastforce
  show ?case using Cons.IH [OF represents_Add [OF Cons.prems, of p v]] by (simp add: r)
qed simp

text \<open>What a lookup should find before duplicates are dropped, numbers included.\<close>

definition hits :: "(string \<times> 'a) list \<Rightarrow> string \<Rightarrow> ('a \<times> u64) list" where
  "hits regs topic = map snd (filter (\<lambda>(p, e). topicMatch p (split_dots topic)) (filed regs))"

lemma hits_snoc:
  "hits (regs @ [(p, v)]) topic = hits regs topic @
     (if topicMatch (split_dots p) (split_dots topic) then [(v, of_nat (Suc (length regs)))] else [])"
  by (simp add: hits_def filed_snoc)

lemma map_fst_hits:
  "map fst (hits regs topic) =
   map snd (filter (\<lambda>(p, v). topicMatch (split_dots p) (split_dots topic)) regs)"
proof (induction regs rule: rev_induct)
  case (snoc r rs)
  then show ?case by (cases r) (simp add: hits_def filed_snoc)
qed (simp add: hits_def filed_def)

lemma hits_bound: "e \<in> set (hits regs topic) \<Longrightarrow> length regs < 2 ^ 64 \<Longrightarrow> unat (snd e) \<le> length regs"
  by (auto simp: hits_def filed_def in_set_enumerate_eq u64_of_nat simp del: of_nat_Suc)

lemma hits_strict:
  assumes "length regs < 2 ^ 64"
  shows "sorted_wrt (\<lambda>a b. snd a < snd b) (hits regs topic)"
  using assms
proof (induction regs rule: rev_induct)
  case (snoc r rs)
  obtain p v where r: "r = (p, v)" by fastforce
  have len: "length rs < 2 ^ 64" and "Suc (length rs) < 2 ^ 64" using snoc.prems by simp_all
  then have top: "unat (of_nat (Suc (length rs)) :: u64) = Suc (length rs)" by (intro u64_of_nat)
  have "snd e < of_nat (Suc (length rs))" if "e \<in> set (hits rs topic)" for e
    using hits_bound [OF that len] unfolding word_less_nat_alt top by simp
  then show ?case using snoc.IH [OF len]
    by (simp add: r hits_snoc sorted_wrt_append del: of_nat_Suc)
qed (simp add: hits_def filed_def)

lemma set_hits:
  assumes "represents t regs"
  shows "set (collect (t_root t) (split_dots topic)) = set (hits regs topic)"
proof -
  have "e \<in> set (collect (t_root t) (split_dots topic)) \<longleftrightarrow> e \<in> set (hits regs topic)" for e
    using assms set_collect [of "t_root t" e "split_dots topic"]
    by (force simp: represents_def hits_def)
  then show ?thesis by blast
qed

lemma dedup_sort_unique:
  assumes "sorted_wrt (\<lambda>a b. k a < k b) ys" and "set xs = set ys"
  shows "dedup_into [] (sort_key k xs) = (ys :: 'b list)"
proof (rule sorted_key_unique [of k])
  have s: "sorted_wrt (<) (map k ys)" using assms(1) by (simp add: sorted_wrt_map)
  then show "sorted (map k ys)" by (rule strict_sorted_imp_sorted)
  have d: "distinct (map k ys)" using s by (simp add: strict_sorted_iff)
  then show "distinct ys" by (simp add: distinct_map)
  show "inj_on k (set (dedup_into [] (sort_key k xs)))" using d assms(2) by (simp add: distinct_map)
qed (use assms(2) in \<open>auto intro: dedup_sorted_key\<close>)

lemma Match_represents:
  assumes "represents t regs" "length regs < 2 ^ 64"
  shows "Match t topic dst = dst @ topic_spec regs topic"
proof -
  let ?found = "collect (t_root t) (split_dots topic)"
  have "dedup_into [] (map fst (sort_key snd ?found)) =
      dedup_into [] (map fst (dedup_into [] (sort_key snd ?found)))"
    by (simp only: dedup_map_nil)
  also have "\<dots> = topic_spec regs topic"
    by (simp only: dedup_sort_unique [OF hits_strict [OF assms(2)] set_hits [OF assms(1)]]
        map_fst_hits topic_spec_def)
  finally have "dedup_into [] (map fst (sort_key snd ?found)) = topic_spec regs topic" .
  moreover from this have "?found = [] \<Longrightarrow> topic_spec regs topic = []" by simp
  ultimately show ?thesis by (simp add: Match_def Let_def)
qed

section \<open>The router interface\<close>

text \<open>
  What the event listener needs of a topic router: it starts empty, an insertion is
  remembered after all earlier ones, and a lookup appends what the specification gives for
  the registrations so far.
\<close>

locale topic_router =
  fixes empty :: 't
    and insert :: "'t \<Rightarrow> string \<Rightarrow> 'a \<Rightarrow> 't"
    and lookup :: "'t \<Rightarrow> string \<Rightarrow> 'a list \<Rightarrow> 'a list"
    and holds :: "'t \<Rightarrow> (string \<times> 'a) list \<Rightarrow> bool"
  assumes holds_empty: "holds empty []"
    and holds_insert: "holds t regs \<Longrightarrow> holds (insert t p v) (regs @ [(p, v)])"
    and lookup_spec: "holds t regs \<Longrightarrow> length regs < 2 ^ 64 \<Longrightarrow> lookup t k dst = dst @ topic_spec regs k"
begin

text \<open>With values that are all different, a lookup keeps every match, in order.\<close>

lemma lookup_distinct:
  assumes "holds t regs" "length regs < 2 ^ 64" "distinct (map snd regs)"
  shows "lookup t k dst =
    dst @ map snd (filter (\<lambda>(p, v). topicMatch (split_dots p) (split_dots k)) regs)"
proof -
  have "distinct (map snd (filter (\<lambda>(p, v). topicMatch (split_dots p) (split_dots k)) regs))"
    using assms(3) by (rule distinct_map_filter)
  then show ?thesis
    by (simp add: lookup_spec [OF assms(1,2)] topic_spec_def dedup_into_distinct)
qed

end

interpretation router: topic_router New Add Match represents
  by unfold_locales (rule represents_New, erule represents_Add, erule (1) Match_represents)

section \<open>Patterns with one wildcard\<close>

text \<open>A pattern of literal words followed by one star matches those words and one more.\<close>

lemma topicMatch_literal:
  "''*'' \<notin> set ps \<Longrightarrow> ''#'' \<notin> set ps \<Longrightarrow>
     topicMatch (ps @ qs) ws \<longleftrightarrow> (\<exists>vs. ws = ps @ vs \<and> topicMatch qs vs)"
proof (induction ps arbitrary: ws)
  case (Cons p ps)
  then show ?case by (cases ws) auto
qed simp

lemma topicMatch_star_last: "topicMatch [''*''] ws \<longleftrightarrow> (\<exists>w. ws = [w])"
  by (cases ws) auto

lemma topicMatch_hash_only: "topicMatch [''#''] ws"
  by (induction ws) auto

lemma topicMatch_prefix_star:
  assumes "''*'' \<notin> set (split_dots p)" "''#'' \<notin> set (split_dots p)"
  shows "topicMatch (split_dots (p @ dot # ''*'')) (split_dots key) \<longleftrightarrow>
    (\<exists>w. dot \<notin> set w \<and> key = p @ dot # w)"
proof
  assume "topicMatch (split_dots (p @ dot # ''*'')) (split_dots key)"
  then have "topicMatch (split_dots p @ [''*'']) (split_dots key)"
    by (simp add: split_on_append)
  then obtain w where w: "split_dots key = split_dots p @ [w]"
    unfolding topicMatch_literal [OF assms] topicMatch_star_last by blast
  then have dot: "dot \<notin> set w" by (intro split_on_words [of w dot key]) simp
  with w have "split_dots key = split_dots (p @ dot # w)" by (simp add: split_on_append split_on_word)
  with dot show "\<exists>w. dot \<notin> set w \<and> key = p @ dot # w" by (auto simp: split_on_inj)
next
  assume "\<exists>w. dot \<notin> set w \<and> key = p @ dot # w"
  then show "topicMatch (split_dots (p @ dot # ''*'')) (split_dots key)"
    using topicMatch_literal [OF assms, of "[''*'']"] by (auto simp: split_on_append split_on_word)
qed

text \<open>
  C6. Refinement of the topic trie. After any sequence of registrations (fewer than
  \<open>2 ^ 64\<close>, the width of the counter) a lookup appends to the caller's slice exactly the
  values whose pattern the AMQP rule matches against the key, each value once, in the
  order in which they were registered.
\<close>

theorem trie_match_refines:
  assumes "length regs < 2 ^ 64"
  shows "Match (add_all New regs) topic dst = dst @ topic_spec regs topic"
  using Match_represents represents_add_all [OF represents_New, of regs] assms by fastforce

theorem trie_match_refines_witness:
  "length [(''a.*'', 1), (''#'', 2), (''b.#'', 3 :: nat), (''a.b'', 1)] < (2 :: nat) ^ 64 \<and>
   Match (add_all New [(''a.*'', 1), (''#'', 2), (''b.#'', 3 :: nat), (''a.b'', 1)]) ''a.b'' [9] = [9, 1, 2]"
proof
  show b: "length [(''a.*'', 1), (''#'', 2), (''b.#'', 3 :: nat), (''a.b'', 1)] < (2 :: nat) ^ 64" by simp
  show "Match (add_all New [(''a.*'', 1), (''#'', 2), (''b.#'', 3 :: nat), (''a.b'', 1)]) ''a.b'' [9] = [9, 1, 2]"
    unfolding trie_match_refines [OF b] topic_spec_def by simp
qed

end
