(* ===== verification/Wire.thy ===== *)
theory Wire imports GoStrings begin

text \<open>
  The envelopes of \<open>internal/wire/envelope.go\<close>. The package
  \<open>google.golang.org/protobuf/encoding/protowire\<close> is a parameter of the model, a record
  of its functions; \<open>protowire_laws\<close> states what its documentation promises. The
  codec \<open>leb128\<close> at the end, the base-128 varint format, is an instance of the laws.

  A Go slice is a byte list: that decoded slices alias the input and that \<open>grow\<close>
  reallocates are not observable in a value. \<open>walk\<close> is a partial function: that it
  returns is a consequence of the laws, not of its definition.
\<close>

section \<open>The protowire package\<close>

record protowire =
  AppendTag :: "bytes \<Rightarrow> int \<Rightarrow> int \<Rightarrow> bytes"
  AppendVarint :: "bytes \<Rightarrow> nat \<Rightarrow> bytes"
  AppendBytes :: "bytes \<Rightarrow> bytes \<Rightarrow> bytes"
  AppendString :: "bytes \<Rightarrow> string \<Rightarrow> bytes"
  SizeTag :: "int \<Rightarrow> nat"
  SizeBytes :: "nat \<Rightarrow> nat"
  ConsumeTag :: "bytes \<Rightarrow> int \<times> int \<times> int"
  ConsumeBytes :: "bytes \<Rightarrow> bytes \<times> int"
  ConsumeFieldValue :: "int \<Rightarrow> int \<Rightarrow> bytes \<Rightarrow> int"

abbreviation BytesType :: int where "BytesType \<equiv> 2"

section \<open>Model\<close>

record Request =
  req_Method :: string
  req_Actor :: string
  req_Data :: bytes

record Result =
  res_Method :: string
  res_Data :: bytes

record Error =
  err_Method :: string
  err_Message :: string
  err_Code :: string

record Response =
  resp_Result :: "Result option"
  resp_Error :: "Error option"

record Event =
  ev_Type :: string
  ev_Topic :: string
  ev_Data :: bytes

text \<open>
  The errors of the package. All but the first two wrap \<open>ErrMalformed\<close>; the numbers are
  those the messages print: a field, a wire type, a parse error code.
\<close>

datatype wire_error =
    BothMembers
  | NeitherMember
  | MalformedTag int
  | MalformedField int int
  | MalformedType int int
  | MalformedUTF8 int
  | MalformedNeither

definition sizeField :: "protowire \<Rightarrow> int \<Rightarrow> nat \<Rightarrow> nat" where
  "sizeField pw field n = SizeTag pw field + SizeBytes pw n"

definition appendString :: "protowire \<Rightarrow> bytes \<Rightarrow> int \<Rightarrow> string \<Rightarrow> bytes" where
  "appendString pw b field s = AppendString pw (AppendTag pw b field BytesType) s"

definition appendBytes :: "protowire \<Rightarrow> bytes \<Rightarrow> int \<Rightarrow> bytes \<Rightarrow> bytes" where
  "appendBytes pw b field v = AppendBytes pw (AppendTag pw b field BytesType) v"

definition SizeRequest :: "protowire \<Rightarrow> Request \<Rightarrow> nat" where
  "SizeRequest pw r =
     (let n = sizeField pw 1 (length (req_Method r)) + sizeField pw 3 (length (req_Data r))
      in if req_Actor r \<noteq> '''' then n + sizeField pw 2 (length (req_Actor r)) else n)"

definition AppendRequest :: "protowire \<Rightarrow> bytes \<Rightarrow> Request \<Rightarrow> bytes" where
  "AppendRequest pw b r =
     (let b1 = appendString pw b 1 (req_Method r);
          b2 = (if req_Actor r \<noteq> '''' then appendString pw b1 2 (req_Actor r) else b1)
      in appendBytes pw b2 3 (req_Data r))"

definition sizeResult :: "protowire \<Rightarrow> Result \<Rightarrow> nat" where
  "sizeResult pw r = sizeField pw 1 (length (res_Method r)) + sizeField pw 2 (length (res_Data r))"

definition AppendResult :: "protowire \<Rightarrow> bytes \<Rightarrow> Result \<Rightarrow> bytes" where
  "AppendResult pw b r = appendBytes pw (appendString pw b 1 (res_Method r)) 2 (res_Data r)"

definition sizeError :: "protowire \<Rightarrow> Error \<Rightarrow> nat" where
  "sizeError pw e = sizeField pw 1 (length (err_Method e)) +
     sizeField pw 2 (length (err_Message e)) + sizeField pw 3 (length (err_Code e))"

definition appendError :: "protowire \<Rightarrow> bytes \<Rightarrow> Error \<Rightarrow> bytes" where
  "appendError pw b e =
     appendString pw (appendString pw (appendString pw b 1 (err_Method e)) 2 (err_Message e)) 3 (err_Code e)"

definition AppendResponse :: "protowire \<Rightarrow> bytes \<Rightarrow> Response \<Rightarrow> bytes \<times> wire_error option" where
  "AppendResponse pw b r =
     (case (resp_Result r, resp_Error r) of
        (Some _, Some _) \<Rightarrow> (b, Some BothMembers)
      | (Some res, None) \<Rightarrow>
          (AppendResult pw (AppendVarint pw (AppendTag pw b 1 BytesType) (sizeResult pw res)) res, None)
      | (None, Some er) \<Rightarrow>
          (appendError pw (AppendVarint pw (AppendTag pw b 2 BytesType) (sizeError pw er)) er, None)
      | (None, None) \<Rightarrow> (b, Some NeitherMember))"

definition AppendEvent :: "protowire \<Rightarrow> bytes \<Rightarrow> Event \<Rightarrow> bytes" where
  "AppendEvent pw b e =
     appendBytes pw (appendString pw (appendString pw b 1 (ev_Type e)) 2 (ev_Topic e)) 3 (ev_Data e)"

text \<open>
  \<open>walk\<close> with the variables the visitor assigns as the state \<open>s\<close>. \<open>None\<close> is a loop (or a
  visitor) that never returns, \<open>Some (s, err)\<close> the state and the error it returns.
\<close>

partial_function (option) walk ::
  "protowire \<Rightarrow> (int \<Rightarrow> bool) \<Rightarrow> (int \<Rightarrow> bytes \<Rightarrow> 's \<Rightarrow> ('s \<times> wire_error option) option) \<Rightarrow>
   bytes \<Rightarrow> 's \<Rightarrow> ('s \<times> wire_error option) option" where
  "walk pw known fn b s =
     (if b = [] then Some (s, None)
      else let (num, typ, n) = ConsumeTag pw b in
        if n < 0 then Some (s, Some (MalformedTag n))
        else let b1 = drop (nat n) b in
          if \<not> known num then
            let m = ConsumeFieldValue pw num typ b1 in
            if m < 0 then Some (s, Some (MalformedField num m))
            else walk pw known fn (drop (nat m) b1) s
          else if typ \<noteq> BytesType then Some (s, Some (MalformedType num typ))
          else let (v, m) = ConsumeBytes pw b1 in
            if m < 0 then Some (s, Some (MalformedField num m))
            else case fn num v s of
              None \<Rightarrow> None
            | Some (s1, Some e) \<Rightarrow> Some (s1, Some e)
            | Some (s1, None) \<Rightarrow> walk pw known fn (drop (nat m) b1) s1)"

definition upTo :: "int \<Rightarrow> int \<Rightarrow> bool" where
  "upTo mx n \<longleftrightarrow> n \<ge> 1 \<and> n \<le> mx"

definition str :: "int \<Rightarrow> bytes \<Rightarrow> string \<times> wire_error option" where
  "str num v = (if \<not> utf8_valid v then ('''', Some (MalformedUTF8 num)) else (v, None))"

definition request_field :: "int \<Rightarrow> bytes \<Rightarrow> Request \<Rightarrow> (Request \<times> wire_error option) option" where
  "request_field num v r =
     (if num = 1 then (let (s, err) = str num v in Some (r\<lparr>req_Method := s\<rparr>, err))
      else if num = 2 then (let (s, err) = str num v in Some (r\<lparr>req_Actor := s\<rparr>, err))
      else if num = 3 then Some (r\<lparr>req_Data := v\<rparr>, None)
      else Some (r, None))"

definition DecodeRequest :: "protowire \<Rightarrow> bytes \<Rightarrow> (Request \<times> wire_error option) option" where
  "DecodeRequest pw b =
     walk pw (upTo 3) request_field b \<lparr>req_Method = '''', req_Actor = '''', req_Data = []\<rparr>"

definition result_field :: "int \<Rightarrow> bytes \<Rightarrow> Result \<Rightarrow> (Result \<times> wire_error option) option" where
  "result_field num v r =
     (if num = 1 then (let (s, err) = str num v in Some (r\<lparr>res_Method := s\<rparr>, err))
      else if num = 2 then Some (r\<lparr>res_Data := v\<rparr>, None)
      else Some (r, None))"

definition decodeResult :: "protowire \<Rightarrow> bytes \<Rightarrow> Result \<Rightarrow> (Result \<times> wire_error option) option" where
  "decodeResult pw b r = walk pw (upTo 2) result_field b r"

definition error_field :: "int \<Rightarrow> bytes \<Rightarrow> Error \<Rightarrow> (Error \<times> wire_error option) option" where
  "error_field num v e =
     (if num = 1 then (let (s, err) = str num v in Some (e\<lparr>err_Method := s\<rparr>, err))
      else if num = 2 then (let (s, err) = str num v in Some (e\<lparr>err_Message := s\<rparr>, err))
      else if num = 3 then (let (s, err) = str num v in Some (e\<lparr>err_Code := s\<rparr>, err))
      else Some (e, None))"

definition decodeError :: "protowire \<Rightarrow> bytes \<Rightarrow> Error \<Rightarrow> (Error \<times> wire_error option) option" where
  "decodeError pw b e = walk pw (upTo 3) error_field b e"

text \<open>The variables \<open>DecodeResponse\<close> closes over.\<close>

record response_acc =
  ra_res :: Result
  ra_er :: Error
  ra_hasRes :: bool
  ra_hasErr :: bool

definition response_acc0 :: response_acc where
  "response_acc0 =
     \<lparr>ra_res = \<lparr>res_Method = '''', res_Data = []\<rparr>,
      ra_er = \<lparr>err_Method = '''', err_Message = '''', err_Code = ''''\<rparr>,
      ra_hasRes = False, ra_hasErr = False\<rparr>"

definition response_field ::
  "protowire \<Rightarrow> int \<Rightarrow> bytes \<Rightarrow> response_acc \<Rightarrow> (response_acc \<times> wire_error option) option" where
  "response_field pw num v a =
     (if num = 1 then
        map_option (\<lambda>(r, err). (a\<lparr>ra_hasRes := True, ra_res := r\<rparr>, err)) (decodeResult pw v (ra_res a))
      else
        map_option (\<lambda>(e, err). (a\<lparr>ra_hasErr := True, ra_er := e\<rparr>, err)) (decodeError pw v (ra_er a)))"

definition DecodeResponse :: "protowire \<Rightarrow> bytes \<Rightarrow> (wire_error, Response) result option" where
  "DecodeResponse pw b =
     map_option
       (\<lambda>(a, err).
          case err of
            Some e \<Rightarrow> Inl e
          | None \<Rightarrow>
              if ra_hasErr a then Inr \<lparr>resp_Result = None, resp_Error = Some (ra_er a)\<rparr>
              else if ra_hasRes a then Inr \<lparr>resp_Result = Some (ra_res a), resp_Error = None\<rparr>
              else Inl MalformedNeither)
       (walk pw (upTo 2) (response_field pw) b response_acc0)"

definition event_field :: "int \<Rightarrow> bytes \<Rightarrow> Event \<Rightarrow> (Event \<times> wire_error option) option" where
  "event_field num v e =
     (if num = 1 then (let (s, err) = str num v in Some (e\<lparr>ev_Type := s\<rparr>, err))
      else if num = 2 then (let (s, err) = str num v in Some (e\<lparr>ev_Topic := s\<rparr>, err))
      else if num = 3 then Some (e\<lparr>ev_Data := v\<rparr>, None)
      else Some (e, None))"

definition DecodeEvent :: "protowire \<Rightarrow> bytes \<Rightarrow> (Event \<times> wire_error option) option" where
  "DecodeEvent pw b =
     walk pw (upTo 3) event_field b \<lparr>ev_Type = '''', ev_Topic = '''', ev_Data = []\<rparr>"

section \<open>What protowire promises\<close>

text \<open>
  The documented behaviour: the \<open>Append\<close> functions append, the \<open>Size\<close> functions are the
  lengths of what they append, a \<open>Consume\<close> function reads back what its \<open>Append\<close>
  counterpart wrote whatever follows, and what it reports as consumed is positive and
  lies within its input. The bound on lengths is that of a Go slice, on field numbers
  that of the protobuf format. \<open>wire_field\<close> is one length-delimited field,
  \<open>encode_fields\<close> a message made of such fields.
\<close>

definition wire_field :: "protowire \<Rightarrow> int \<Rightarrow> bytes \<Rightarrow> bytes" where
  "wire_field pw f v = AppendTag pw [] f BytesType @ AppendVarint pw [] (length v) @ v"

definition encode_fields :: "protowire \<Rightarrow> (int \<times> bytes) list \<Rightarrow> bytes" where
  "encode_fields pw fs = concat (map (\<lambda>(f, v). wire_field pw f v) fs)"

definition encodable :: "(int \<times> bytes) list \<Rightarrow> bool" where
  "encodable fs = list_all (\<lambda>(f, v). 1 \<le> f \<and> f < 2 ^ 29 \<and> length v < 2 ^ 63) fs"

locale protowire_laws =
  fixes pw :: protowire
  assumes append_tag: "AppendTag pw b f t = b @ AppendTag pw [] f t"
    and append_varint: "AppendVarint pw b n = b @ AppendVarint pw [] n"
    and append_bytes: "AppendBytes pw b v = AppendVarint pw b (length v) @ v"
    and append_string: "AppendString pw b v = AppendVarint pw b (length v) @ v"
    and size_tag: "1 \<le> f \<Longrightarrow> f < 2 ^ 29 \<Longrightarrow> SizeTag pw f = length (AppendTag pw [] f BytesType)"
    and size_bytes: "SizeBytes pw n = length (AppendVarint pw [] n) + n"
    and consume_tag: "1 \<le> f \<Longrightarrow> f < 2 ^ 29 \<Longrightarrow>
      ConsumeTag pw (AppendTag pw [] f BytesType @ rest) =
        (f, BytesType, int (length (AppendTag pw [] f BytesType)))"
    and consume_bytes: "length v < 2 ^ 63 \<Longrightarrow>
      ConsumeBytes pw (AppendVarint pw [] (length v) @ v @ rest) =
        (v, int (length (AppendVarint pw [] (length v)) + length v))"
    and consume_value: "length v < 2 ^ 63 \<Longrightarrow>
      ConsumeFieldValue pw f BytesType (AppendVarint pw [] (length v) @ v @ rest) =
        int (length (AppendVarint pw [] (length v)) + length v)"
    and consume_tag_progress: "ConsumeTag pw b = (f, t, m) \<Longrightarrow> m \<noteq> 0 \<and> m \<le> int (length b)"
    and consume_bytes_bound: "ConsumeBytes pw b = (v, m) \<Longrightarrow> m \<le> int (length b)"
    and consume_value_bound: "ConsumeFieldValue pw f t b \<le> int (length b)"
begin

lemma append_field: "appendString pw b f v = b @ wire_field pw f v" "appendBytes pw b f v = b @ wire_field pw f v"
  unfolding appendString_def appendBytes_def wire_field_def
  by (metis append_string append_varint append_tag append.assoc,
      metis append_bytes append_varint append_tag append.assoc)

lemma length_field: "1 \<le> f \<Longrightarrow> f < 2 ^ 29 \<Longrightarrow> length (wire_field pw f v) = sizeField pw f (length v)"
  by (simp add: wire_field_def sizeField_def size_tag size_bytes)

lemma tag_nonempty: "1 \<le> f \<Longrightarrow> f < 2 ^ 29 \<Longrightarrow> AppendTag pw [] f BytesType \<noteq> []"
  using consume_tag [of f "[]"] consume_tag_progress by fastforce

lemma field_nonempty: "1 \<le> f \<Longrightarrow> f < 2 ^ 29 \<Longrightarrow> wire_field pw f v \<noteq> []"
  by (simp add: wire_field_def tag_nonempty)

lemma walk_Nil: "walk pw known fn [] s = Some (s, None)"
  by (simp add: walk.simps)

lemma walk_field:
  assumes "1 \<le> f" "f < 2 ^ 29" "length v < 2 ^ 63"
  shows "walk pw known fn (wire_field pw f v @ rest) s =
    (if \<not> known f then walk pw known fn rest s
     else case fn f v s of
         None \<Rightarrow> None
       | Some (s1, Some e) \<Rightarrow> Some (s1, Some e)
       | Some (s1, None) \<Rightarrow> walk pw known fn rest s1)"
proof -
  let ?vi = "AppendVarint pw [] (length v)"
  have t: "ConsumeTag pw (wire_field pw f v @ rest) = (f, BytesType, int (length (AppendTag pw [] f BytesType)))"
    using consume_tag [OF assms(1,2), of "?vi @ v @ rest"] by (simp add: wire_field_def)
  have d1: "drop (length (AppendTag pw [] f BytesType)) (wire_field pw f v @ rest) = ?vi @ v @ rest"
    by (simp add: wire_field_def)
  have d2: "drop (length ?vi + length v) (?vi @ v @ rest) = rest" by simp
  show ?thesis
    using field_nonempty [OF assms(1,2), of v] consume_value [OF assms(3), of f rest]
      consume_bytes [OF assms(3), of rest]
    by (subst walk.simps) (simp add: t d1 d2 Let_def nat_int_add del: drop_append split: option.split)
qed


text \<open>Every turn of the loop shortens the input, so it returns when its visitor does.\<close>

lemma walk_total:
  assumes "\<And>num v s. fn num v s \<noteq> None"
  shows "walk pw known fn b s \<noteq> None"
proof (induction b arbitrary: s rule: measure_induct_rule [where f = length])
  case (less b)
  show ?case
  proof (cases "b = []")
    case True
    then show ?thesis by (simp add: walk_Nil)
  next
    case False
    obtain num ty n where t: "ConsumeTag pw b = (num, ty, n)" using prod_cases3 by blast
    have shorter: "length (drop m (drop (nat n) b)) < length b" if "\<not> n < 0" for m
      using that consume_tag_progress [OF t] False by auto
    obtain v m where v: "ConsumeBytes pw (drop (nat n) b) = (v, m)" by fastforce
    show ?thesis
    proof (cases "fn num v s")
      case None
      then show ?thesis using assms by simp
    next
      case (Some r)
      obtain s1 e where "r = (s1, e)" by fastforce
      then show ?thesis
        using less.IH [OF shorter] Some False by (subst walk.simps) (simp add: t v Let_def split: option.split)
    qed
  qed
qed

lemma request_field_total: "request_field num v r \<noteq> None"
  by (simp add: request_field_def split: prod.split)

lemma event_field_total: "event_field num v e \<noteq> None"
  by (simp add: event_field_def split: prod.split)

lemma response_field_total: "response_field pw num v a \<noteq> None"
proof -
  have "decodeResult pw v r \<noteq> None" for r
    unfolding decodeResult_def by (rule walk_total) (simp add: result_field_def split: prod.split)
  moreover have "decodeError pw v e \<noteq> None" for e
    unfolding decodeError_def by (rule walk_total) (simp add: error_field_def split: prod.split)
  ultimately show ?thesis by (simp add: response_field_def del: not_None_eq)
qed

lemmas decoders_return =
  walk_total [OF request_field_total] walk_total [OF event_field_total] walk_total [OF response_field_total]

text \<open>The encoders as sequences of fields, and their sizes.\<close>

lemma AppendRequest_fields:
  "AppendRequest pw b r = b @ wire_field pw 1 (req_Method r) @
     (if req_Actor r = [] then [] else wire_field pw 2 (req_Actor r)) @ wire_field pw 3 (req_Data r)"
  by (simp add: AppendRequest_def append_field Let_def)

lemma AppendEvent_fields:
  "AppendEvent pw b e =
     b @ wire_field pw 1 (ev_Type e) @ wire_field pw 2 (ev_Topic e) @ wire_field pw 3 (ev_Data e)"
  by (simp add: AppendEvent_def append_field)

lemma AppendResult_fields:
  "AppendResult pw b r = b @ wire_field pw 1 (res_Method r) @ wire_field pw 2 (res_Data r)"
  by (simp add: AppendResult_def append_field)

lemma appendError_fields:
  "appendError pw b e = b @ wire_field pw 1 (err_Method e) @ wire_field pw 2 (err_Message e) @
     wire_field pw 3 (err_Code e)"
  by (simp add: appendError_def append_field)

lemma size_request: "length (AppendRequest pw b r) = length b + SizeRequest pw r"
  by (simp add: AppendRequest_fields SizeRequest_def length_field Let_def)

lemma size_result: "length (AppendResult pw b r) = length b + sizeResult pw r"
  by (simp add: AppendResult_fields sizeResult_def length_field)

lemma size_error: "length (appendError pw b e) = length b + sizeError pw e"
  by (simp add: appendError_fields sizeError_def length_field)

text \<open>The length prefix of a response is that of the member that follows it.\<close>

lemma AppendResponse_fields:
  "AppendResponse pw b \<lparr>resp_Result = Some r, resp_Error = None\<rparr> =
     (b @ wire_field pw 1 (AppendResult pw [] r), None)"
  "AppendResponse pw b \<lparr>resp_Result = None, resp_Error = Some e\<rparr> =
     (b @ wire_field pw 2 (appendError pw [] e), None)"
proof -
  have h: "AppendVarint pw (AppendTag pw b f BytesType) n @ c =
      b @ AppendTag pw [] f BytesType @ AppendVarint pw [] n @ c" for f n c
    by (metis append_varint append_tag append.assoc)
  show "AppendResponse pw b \<lparr>resp_Result = Some r, resp_Error = None\<rparr> =
      (b @ wire_field pw 1 (AppendResult pw [] r), None)"
    using size_result [of "[]" r] by (simp add: AppendResponse_def AppendResult_fields wire_field_def h)
  show "AppendResponse pw b \<lparr>resp_Result = None, resp_Error = Some e\<rparr> =
      (b @ wire_field pw 2 (appendError pw [] e), None)"
    using size_error [of "[]" e] by (simp add: AppendResponse_def appendError_fields wire_field_def h)
qed

text \<open>Decoding what was encoded.\<close>

lemma length_wire_field_le: "length v \<le> length (wire_field pw f v)"
  by (simp add: wire_field_def)

lemma walk_field_last:
  "1 \<le> f \<Longrightarrow> f < 2 ^ 29 \<Longrightarrow> length v < 2 ^ 63 \<Longrightarrow> known f \<Longrightarrow>
   fn f v s = Some (s1, None) \<Longrightarrow> walk pw known fn (wire_field pw f v) s = Some (s1, None)"
  using walk_field [of f v known fn "[]" s] by (simp add: walk_Nil)

lemmas field_visits = request_field_def result_field_def error_field_def event_field_def upTo_def str_def

lemma decodeResult_append:
  assumes "utf8_valid (res_Method r)" "length (AppendResult pw [] r) < 2 ^ 63"
  shows "decodeResult pw (AppendResult pw [] r) r0 = Some (r, None)"
proof -
  have "length (res_Method r) < 2 ^ 63" "length (res_Data r) < 2 ^ 63"
    using assms(2) length_wire_field_le [of "res_Method r" 1] length_wire_field_le [of "res_Data r" 2]
    by (simp_all add: AppendResult_fields)
  then show ?thesis using assms(1)
    by (simp add: AppendResult_fields decodeResult_def walk_field walk_field_last field_visits)
qed

lemma decodeError_append:
  assumes "utf8_valid (err_Method e)" "utf8_valid (err_Message e)" "utf8_valid (err_Code e)"
    and "length (appendError pw [] e) < 2 ^ 63"
  shows "decodeError pw (appendError pw [] e) e0 = Some (e, None)"
proof -
  have "length (err_Method e) < 2 ^ 63" "length (err_Message e) < 2 ^ 63" "length (err_Code e) < 2 ^ 63"
    using assms(4) length_wire_field_le [of "err_Method e" 1] length_wire_field_le [of "err_Message e" 2]
      length_wire_field_le [of "err_Code e" 3]
    by (simp_all add: appendError_fields)
  then show ?thesis using assms(1-3)
    by (simp add: appendError_fields decodeError_def walk_field walk_field_last field_visits)
qed

lemma request_roundtrip:
  assumes "utf8_valid (req_Method r)" "utf8_valid (req_Actor r)" "length (AppendRequest pw [] r) < 2 ^ 63"
  shows "DecodeRequest pw (AppendRequest pw [] r) = Some (r, None)"
proof -
  have "length (req_Method r) < 2 ^ 63" "length (req_Actor r) < 2 ^ 63" "length (req_Data r) < 2 ^ 63"
    using assms(3) length_wire_field_le [of "req_Method r" 1] length_wire_field_le [of "req_Actor r" 2]
      length_wire_field_le [of "req_Data r" 3]
    by (simp_all add: AppendRequest_fields split: if_splits)
  then show ?thesis using assms(1,2)
    by (simp add: AppendRequest_fields DecodeRequest_def walk_field walk_field_last field_visits)
qed

lemma event_roundtrip:
  assumes "utf8_valid (ev_Type e)" "utf8_valid (ev_Topic e)" "length (AppendEvent pw [] e) < 2 ^ 63"
  shows "DecodeEvent pw (AppendEvent pw [] e) = Some (e, None)"
proof -
  have "length (ev_Type e) < 2 ^ 63" "length (ev_Topic e) < 2 ^ 63" "length (ev_Data e) < 2 ^ 63"
    using assms(3) length_wire_field_le [of "ev_Type e" 1] length_wire_field_le [of "ev_Topic e" 2]
      length_wire_field_le [of "ev_Data e" 3]
    by (simp_all add: AppendEvent_fields)
  then show ?thesis using assms(1,2)
    by (simp add: AppendEvent_fields DecodeEvent_def walk_field walk_field_last field_visits)
qed

text \<open>Unknown fields are skipped wherever they stand.\<close>

lemma walk_skips_unknown:
  "encodable fs \<Longrightarrow>
   walk pw known fn (encode_fields pw fs) s = walk pw known fn (encode_fields pw (filter (known \<circ> fst) fs)) s"
proof (induction fs arbitrary: s)
  case (Cons x fs)
  obtain f v where x: "x = (f, v)" by fastforce
  then have b: "1 \<le> f" "f < 2 ^ 29" "length v < 2 ^ 63" and fs: "encodable fs"
    using Cons.prems by (simp_all add: encodable_def)
  have split: "encode_fields pw ((f, v) # gs) = wire_field pw f v @ encode_fields pw gs" for gs
    by (simp add: encode_fields_def)
  show ?case
    by (simp add: x split walk_field [OF b] Cons.IH [OF fs] split: option.split)
qed simp

lemma response_result_roundtrip:
  assumes "utf8_valid (res_Method r)" "length (AppendResult pw [] r) < 2 ^ 63"
  shows "DecodeResponse pw (fst (AppendResponse pw [] \<lparr>resp_Result = Some r, resp_Error = None\<rparr>)) =
    Some (Inr \<lparr>resp_Result = Some r, resp_Error = None\<rparr>)"
  using assms
  by (simp add: AppendResponse_fields DecodeResponse_def walk_field_last upTo_def response_field_def
      decodeResult_append response_acc0_def)

lemma response_error_roundtrip:
  assumes "utf8_valid (err_Method e)" "utf8_valid (err_Message e)" "utf8_valid (err_Code e)"
    and "length (appendError pw [] e) < 2 ^ 63"
  shows "DecodeResponse pw (fst (AppendResponse pw [] \<lparr>resp_Result = None, resp_Error = Some e\<rparr>)) =
    Some (Inr \<lparr>resp_Result = None, resp_Error = Some e\<rparr>)"
  using assms
  by (simp add: AppendResponse_fields DecodeResponse_def walk_field_last upTo_def response_field_def
      decodeError_append response_acc0_def)

text \<open>The encoders do not look at the text they are given; the decoders refuse text that is not UTF-8.\<close>

lemma response_error_bad_text:
  assumes "utf8_valid (err_Method e)" "\<not> utf8_valid (err_Message e)" "length (appendError pw [] e) < 2 ^ 63"
  shows "DecodeResponse pw (fst (AppendResponse pw [] \<lparr>resp_Result = None, resp_Error = Some e\<rparr>)) =
    Some (Inl (MalformedUTF8 2))"
proof -
  have "length (err_Method e) < 2 ^ 63" "length (err_Message e) < 2 ^ 63"
    using assms(3) length_wire_field_le [of "err_Method e" 1] length_wire_field_le [of "err_Message e" 2]
    by (simp_all add: appendError_fields)
  then obtain x where "decodeError pw (appendError pw [] e) e0 = Some (x e0, Some (MalformedUTF8 2))" for e0
    using assms(1,2) by (simp add: appendError_fields decodeError_def walk_field field_visits)
  then show ?thesis using assms(3) walk_field [of 2 "appendError pw [] e" "upTo 2" "response_field pw" "[]" response_acc0]
    by (simp add: AppendResponse_fields DecodeResponse_def upTo_def response_field_def)
qed

lemma error_wins:
  assumes "utf8_valid (res_Method r)" "length (AppendResult pw [] r) < 2 ^ 63"
    and "utf8_valid (err_Method e)" "utf8_valid (err_Message e)" "utf8_valid (err_Code e)"
    and "length (appendError pw [] e) < 2 ^ 63"
  shows "DecodeResponse pw (wire_field pw 1 (AppendResult pw [] r) @ wire_field pw 2 (appendError pw [] e)) =
      Some (Inr \<lparr>resp_Result = None, resp_Error = Some e\<rparr>)"
    and "DecodeResponse pw (wire_field pw 2 (appendError pw [] e) @ wire_field pw 1 (AppendResult pw [] r)) =
      Some (Inr \<lparr>resp_Result = None, resp_Error = Some e\<rparr>)"
  using assms
  by (simp_all add: DecodeResponse_def walk_field walk_field_last upTo_def response_field_def
      decodeError_append decodeResult_append response_acc0_def)

lemma response_nonempty: "AppendResponse pw b r = (b1, None) \<Longrightarrow> length b < length b1"
  using AppendResponse_fields [of b] field_nonempty
  by (cases r) (force simp: AppendResponse_def split: option.splits)

end

section \<open>The base-128 format satisfies the laws\<close>

text \<open>
  The varint format of protocol buffers: seven bits a byte, least significant group
  first, the high bit set on all but the last; at most ten bytes.
\<close>

fun varint :: "nat \<Rightarrow> bytes" where
  "varint n = (if n < 128 then [char_of n] else char_of (n mod 128 + 128) # varint (n div 128))"

declare varint.simps [simp del]

fun get_varint :: "nat \<Rightarrow> bytes \<Rightarrow> (nat \<times> nat) option" where
  "get_varint 0 b = None"
| "get_varint (Suc k) [] = None"
| "get_varint (Suc k) (c # b) =
     (if byte_val c < 128 then Some (byte_val c, 1)
      else map_option (\<lambda>(v, n). (byte_val c - 128 + 128 * v, Suc n)) (get_varint k b))"

definition leb_ConsumeTag :: "bytes \<Rightarrow> int \<times> int \<times> int" where
  "leb_ConsumeTag b =
     (case get_varint 10 b of
        None \<Rightarrow> (0, 0, -1)
      | Some (v, n) \<Rightarrow>
          if 1 \<le> v div 8 \<and> v div 8 < 2 ^ 29 then (int (v div 8), int (v mod 8), int n) else (0, 0, -2))"

definition leb_ConsumeBytes :: "bytes \<Rightarrow> bytes \<times> int" where
  "leb_ConsumeBytes b =
     (case get_varint 10 b of
        None \<Rightarrow> ([], -1)
      | Some (v, n) \<Rightarrow>
          if length b < n + v then ([], -1) else (take v (drop n b), int (n + v)))"

definition leb_ConsumeFieldValue :: "int \<Rightarrow> int \<Rightarrow> bytes \<Rightarrow> int" where
  "leb_ConsumeFieldValue f t b =
     (if t = 0 then (case get_varint 10 b of None \<Rightarrow> -1 | Some (v, n) \<Rightarrow> int n)
      else if t = 1 then (if length b < 8 then -1 else 8)
      else if t = 5 then (if length b < 4 then -1 else 4)
      else if t = BytesType then snd (leb_ConsumeBytes b)
      else -4)"

definition leb128 :: protowire where
  "leb128 =
     \<lparr>AppendTag = (\<lambda>b f t. b @ varint (nat f * 8 + nat t)),
      AppendVarint = (\<lambda>b n. b @ varint n),
      AppendBytes = (\<lambda>b v. b @ varint (length v) @ v),
      AppendString = (\<lambda>b v. b @ varint (length v) @ v),
      SizeTag = (\<lambda>f. length (varint (nat f * 8 + 2))),
      SizeBytes = (\<lambda>n. length (varint n) + n),
      ConsumeTag = leb_ConsumeTag,
      ConsumeBytes = leb_ConsumeBytes,
      ConsumeFieldValue = leb_ConsumeFieldValue\<rparr>"

lemma get_varint_append:
  "n < 128 ^ k \<Longrightarrow> 0 < k \<Longrightarrow> get_varint k (varint n @ rest) = Some (n, length (varint n))"
proof (induction k arbitrary: n)
  case (Suc k)
  show ?case
  proof (cases "n < 128")
    case True
    then show ?thesis by (simp add: varint.simps [of n])
  next
    case False
    then have "0 < k" using Suc.prems by (cases k) simp_all
    moreover have "n div 128 < 128 ^ k" using Suc.prems by (simp add: less_mult_imp_div_less mult.commute)
    ultimately have "get_varint k (varint (n div 128) @ rest) = Some (n div 128, length (varint (n div 128)))"
      by (rule Suc.IH [rotated])
    then show ?thesis using False by (simp add: varint.simps [of n])
  qed
qed simp

lemma get_varint_bound: "get_varint k b = Some (v, n) \<Longrightarrow> 0 < n \<and> n \<le> length b"
  by (induction k b arbitrary: v n rule: get_varint.induct) (auto split: if_splits)

interpretation leb: protowire_laws leb128
proof
  have g: "get_varint 10 (varint n @ rest) = Some (n, length (varint n))" if "n < 2 ^ 64" for n rest
    using that by (intro get_varint_append) simp_all
  show "ConsumeTag leb128 (AppendTag leb128 [] f BytesType @ rest) =
      (f, BytesType, int (length (AppendTag leb128 [] f BytesType)))" if "1 \<le> f" "f < 2 ^ 29" for f rest
  proof -
    define k where "k = nat f"
    then have k: "f = int k" "1 \<le> k" "k < 2 ^ 29" using that by (simp_all add: nat_less_iff)
    have "(k * 8 + 2) div 8 = k" "k * 8 + 2 < 2 ^ 64" using k by simp_all
    moreover have "(k * 8 + 2) mod 8 = 2" by presburger
    ultimately show ?thesis
      using k(2,3) g [of "k * 8 + 2" rest] unfolding k(1) by (simp add: leb128_def leb_ConsumeTag_def)
  qed
  show b: "ConsumeBytes leb128 (AppendVarint leb128 [] (length v) @ v @ rest) =
      (v, int (length (AppendVarint leb128 [] (length v)) + length v))" if "length v < 2 ^ 63" for v rest
    using that g [of "length v" "v @ rest"] by (simp add: leb128_def leb_ConsumeBytes_def)
  show "ConsumeFieldValue leb128 f BytesType (AppendVarint leb128 [] (length v) @ v @ rest) =
      int (length (AppendVarint leb128 [] (length v)) + length v)" if "length v < 2 ^ 63" for v f rest
    using b [OF that, of rest] by (simp add: leb128_def leb_ConsumeFieldValue_def)
  show "m \<noteq> 0 \<and> m \<le> int (length b)" if "ConsumeTag leb128 b = (f, t, m)" for b f t m
    using that get_varint_bound [of 10 b]
    by (auto simp: leb128_def leb_ConsumeTag_def split: option.splits if_splits)
  show bb: "m \<le> int (length b)" if "ConsumeBytes leb128 b = (v, m)" for b v m
    using that by (auto simp: leb128_def leb_ConsumeBytes_def split: option.splits if_splits)
  show "ConsumeFieldValue leb128 f t b \<le> int (length b)" for f t b
    using get_varint_bound [of 10 b] bb [of b "fst (leb_ConsumeBytes b)"]
    by (auto simp: leb128_def leb_ConsumeFieldValue_def split: option.splits)
qed (simp_all add: leb128_def)

lemma leb_appends:
  "AppendTag leb128 b f t = b @ varint (nat f * 8 + nat t)"
  "AppendVarint leb128 b n = b @ varint n"
  by (simp_all add: leb128_def)

lemmas leb_witness =
  leb.protowire_laws_axioms utf8_valid_ascii wire_field_def leb_appends varint.simps

section \<open>Properties of the envelopes\<close>

text \<open>
  C20. Round trip of a request envelope: whatever varint codec satisfies the protowire
  contract, decoding an encoded request returns the same method, actor and data and no
  error, and the encoder writes exactly the number of bytes it announced.
\<close>

theorem request_envelope_roundtrip:
  assumes "protowire_laws pw"
    and "utf8_valid (req_Method r)" "utf8_valid (req_Actor r)" "length (AppendRequest pw [] r) < 2 ^ 63"
  shows "DecodeRequest pw (AppendRequest pw [] r) = Some (r, None) \<and>
    length (AppendRequest pw b r) = length b + SizeRequest pw r"
  using protowire_laws.request_roundtrip protowire_laws.size_request assms by blast

theorem request_envelope_roundtrip_witness:
  "DecodeRequest leb128 (AppendRequest leb128 [] \<lparr>req_Method = ''a.B.c'', req_Actor = [], req_Data = ''xy''\<rparr>) =
     Some (\<lparr>req_Method = ''a.B.c'', req_Actor = [], req_Data = ''xy''\<rparr>, None)"
  by (rule request_envelope_roundtrip [THEN conjunct1])
     (simp_all add: leb_witness leb.AppendRequest_fields)

text \<open>
  Round trip of an event envelope, under the same contract.
\<close>

theorem event_envelope_roundtrip:
  assumes "protowire_laws pw"
    and "utf8_valid (ev_Type e)" "utf8_valid (ev_Topic e)" "length (AppendEvent pw [] e) < 2 ^ 63"
  shows "DecodeEvent pw (AppendEvent pw [] e) = Some (e, None)"
  using protowire_laws.event_roundtrip assms by blast

theorem event_envelope_roundtrip_witness:
  "DecodeEvent leb128 (AppendEvent leb128 [] \<lparr>ev_Type = ''a.E'', ev_Topic = ''t.u'', ev_Data = []\<rparr>) =
     Some (\<lparr>ev_Type = ''a.E'', ev_Topic = ''t.u'', ev_Data = []\<rparr>, None)"
  by (rule event_envelope_roundtrip)
     (simp_all add: leb_witness leb.AppendEvent_fields)

text \<open>
  C21. Responses. The encoder refuses exactly the containers with both members or none,
  leaving the buffer as it was; a result and an error each decode to themselves.
\<close>

theorem response_envelope_roundtrip:
  assumes "protowire_laws pw"
    and "utf8_valid (res_Method r)" "length (AppendResult pw [] r) < 2 ^ 63"
    and "utf8_valid (err_Method e)" "utf8_valid (err_Message e)" "utf8_valid (err_Code e)"
    and "length (appendError pw [] e) < 2 ^ 63"
  shows "(snd (AppendResponse pw b resp) = None \<longleftrightarrow> (resp_Result resp = None) \<noteq> (resp_Error resp = None)) \<and>
    (snd (AppendResponse pw b resp) \<noteq> None \<longrightarrow> fst (AppendResponse pw b resp) = b) \<and>
    DecodeResponse pw (fst (AppendResponse pw [] \<lparr>resp_Result = Some r, resp_Error = None\<rparr>)) =
      Some (Inr \<lparr>resp_Result = Some r, resp_Error = None\<rparr>) \<and>
    DecodeResponse pw (fst (AppendResponse pw [] \<lparr>resp_Result = None, resp_Error = Some e\<rparr>)) =
      Some (Inr \<lparr>resp_Result = None, resp_Error = Some e\<rparr>)"
proof (intro conjI)
  show "snd (AppendResponse pw b resp) = None \<longleftrightarrow> (resp_Result resp = None) \<noteq> (resp_Error resp = None)"
    and "snd (AppendResponse pw b resp) \<noteq> None \<longrightarrow> fst (AppendResponse pw b resp) = b"
    by (simp_all add: AppendResponse_def split: option.split)
qed (rule protowire_laws.response_result_roundtrip [OF assms(1-3)]
      protowire_laws.response_error_roundtrip [OF assms(1,4-7)])+

theorem response_envelope_roundtrip_witness:
  "DecodeResponse leb128 (fst (AppendResponse leb128 []
      \<lparr>resp_Result = Some \<lparr>res_Method = ''a.B.c'', res_Data = ''x''\<rparr>, resp_Error = None\<rparr>)) =
     Some (Inr \<lparr>resp_Result = Some \<lparr>res_Method = ''a.B.c'', res_Data = ''x''\<rparr>, resp_Error = None\<rparr>)"
  by (rule response_envelope_roundtrip [
        where e = "\<lparr>err_Method = [], err_Message = ''m'', err_Code = ''c''\<rparr>",
        THEN conjunct2, THEN conjunct2, THEN conjunct1])
     (simp_all add: leb_witness leb.AppendResult_fields leb.appendError_fields)

text \<open>
  When a container carries both members, in either order, the error wins, as in the
  other ports.
\<close>

theorem response_error_wins:
  assumes "protowire_laws pw"
    and "utf8_valid (res_Method r)" "length (AppendResult pw [] r) < 2 ^ 63"
    and "utf8_valid (err_Method e)" "utf8_valid (err_Message e)" "utf8_valid (err_Code e)"
    and "length (appendError pw [] e) < 2 ^ 63"
  shows "DecodeResponse pw (wire_field pw 1 (AppendResult pw [] r) @ wire_field pw 2 (appendError pw [] e)) =
      Some (Inr \<lparr>resp_Result = None, resp_Error = Some e\<rparr>) \<and>
    DecodeResponse pw (wire_field pw 2 (appendError pw [] e) @ wire_field pw 1 (AppendResult pw [] r)) =
      Some (Inr \<lparr>resp_Result = None, resp_Error = Some e\<rparr>)"
  using protowire_laws.error_wins [OF assms] by blast

theorem response_error_wins_witness:
  "DecodeResponse leb128
     (wire_field leb128 1 (AppendResult leb128 [] \<lparr>res_Method = ''a'', res_Data = ''x''\<rparr>) @
      wire_field leb128 2 (appendError leb128 [] \<lparr>err_Method = ''a'', err_Message = ''m'', err_Code = ''c''\<rparr>)) =
   Some (Inr \<lparr>resp_Result = None,
     resp_Error = Some \<lparr>err_Method = ''a'', err_Message = ''m'', err_Code = ''c''\<rparr>\<rparr>)"
  by (rule response_error_wins [THEN conjunct1])
     (simp_all add: leb_witness leb.AppendResult_fields leb.appendError_fields)

text \<open>
  Forward compatibility: for any message made of length-delimited fields, the decoders
  give what they give on the message without the fields they do not know.
\<close>

theorem unknown_fields_ignored:
  assumes "protowire_laws pw" "encodable fs"
  shows "DecodeRequest pw (encode_fields pw fs) =
      DecodeRequest pw (encode_fields pw (filter (upTo 3 \<circ> fst) fs)) \<and>
    DecodeEvent pw (encode_fields pw fs) =
      DecodeEvent pw (encode_fields pw (filter (upTo 3 \<circ> fst) fs)) \<and>
    DecodeResponse pw (encode_fields pw fs) =
      DecodeResponse pw (encode_fields pw (filter (upTo 2 \<circ> fst) fs))"
  by (simp only: DecodeRequest_def DecodeEvent_def DecodeResponse_def simp_thms
      protowire_laws.walk_skips_unknown [OF assms])

theorem unknown_fields_ignored_witness:
  "DecodeRequest leb128 (encode_fields leb128 [(9, ''z''), (1, ''a''), (4, [])]) =
   DecodeRequest leb128 (encode_fields leb128 [(1, ''a'')])"
  using unknown_fields_ignored [OF leb.protowire_laws_axioms, of "[(9, ''z''), (1, ''a''), (4, [])]"]
  by (simp add: encodable_def upTo_def)

text \<open>
  C27. The decoders return on every input, well-formed or not: the loop over the fields
  cannot run forever.
\<close>

theorem decoders_terminate:
  assumes "protowire_laws pw"
  shows "(\<exists>r. DecodeRequest pw b = Some r) \<and> (\<exists>r. DecodeEvent pw b = Some r) \<and>
    (\<exists>r. DecodeResponse pw b = Some r)"
proof (intro conjI)
  show "\<exists>r. DecodeRequest pw b = Some r" "\<exists>r. DecodeEvent pw b = Some r"
    unfolding DecodeRequest_def DecodeEvent_def not_None_eq [symmetric]
    by (rule protowire_laws.decoders_return [OF assms])+
  show "\<exists>r. DecodeResponse pw b = Some r"
    unfolding DecodeResponse_def not_None_eq [symmetric] option.map_disc_iff
    by (rule protowire_laws.decoders_return [OF assms])
qed

theorem decoders_terminate_witness: "\<exists>r. DecodeRequest leb128 (replicate 20 (CHR 0xFF)) = Some r"
  using decoders_terminate [OF leb.protowire_laws_axioms] by blast

end
