(* ===== verification/Headers.thy ===== *)
theory Headers imports GoStrings begin

text \<open>
  The readers and writers of message headers in \<open>headers.go\<close>, and the message types of
  the AMQP client the rest of the development passes around. A header value is a Go
  \<open>any\<close>: a datatype with one constructor per dynamic type the code distinguishes and
  one for all the others. Integers keep the width of their type.

  A float is \<open>m * 2 ^ e\<close> or one of the special values. Converting a float outside the
  range of int64 gives, in Go, a value that depends on the implementation: it is the
  parameter \<open>conv\<close> of the readers.
\<close>

section \<open>Header values and messages\<close>

datatype float64 = NaN | PosInf | NegInf | Fin int int

datatype hval =
    VNil
  | VBool bool
  | VInt "64 word"
  | VInt8 "8 word"
  | VInt16 "16 word"
  | VInt32 "32 word"
  | VInt64 "64 word"
  | VUint8 "8 word"
  | VUint16 "16 word"
  | VUint32 "32 word"
  | VUint64 "64 word"
  | VFloat32 float64
  | VFloat64 float64
  | VString string
  | VBytes bytes
  | VTime int
  | VList "hval list"
  | VTable "(string \<times> hval) list"
  | VOther

type_synonym headers = "string \<rightharpoonup> hval"

text \<open>Declaration arguments, \<open>amqp.Table\<close>: the entries of a Go map, each key once.\<close>

type_synonym table = "(string \<times> hval) list"

record Publishing =
  p_Headers :: headers
  p_ContentType :: string
  p_ContentEncoding :: string
  p_DeliveryMode :: nat
  p_Priority :: nat
  p_CorrelationId :: string
  p_ReplyTo :: string
  p_Expiration :: string
  p_MessageId :: string
  p_Timestamp :: int
  p_Type :: string
  p_UserId :: string
  p_AppId :: string
  p_Body :: bytes

record Delivery =
  d_Headers :: headers
  d_ContentType :: string
  d_ContentEncoding :: string
  d_DeliveryMode :: nat
  d_Priority :: nat
  d_CorrelationId :: string
  d_ReplyTo :: string
  d_Expiration :: string
  d_MessageId :: string
  d_Timestamp :: int
  d_Type :: string
  d_UserId :: string
  d_AppId :: string
  d_DeliveryTag :: nat
  d_Redelivered :: bool
  d_Exchange :: string
  d_RoutingKey :: string
  d_Body :: bytes

definition empty_publishing :: Publishing where
  "empty_publishing =
     \<lparr>p_Headers = Map.empty, p_ContentType = '''', p_ContentEncoding = '''', p_DeliveryMode = 0,
      p_Priority = 0, p_CorrelationId = '''', p_ReplyTo = '''', p_Expiration = '''', p_MessageId = '''',
      p_Timestamp = 0, p_Type = '''', p_UserId = '''', p_AppId = '''', p_Body = []\<rparr>"

section \<open>Model\<close>

definition headerRetryCount :: string where "headerRetryCount = ''x-retry-count''"
definition headerOriginalKey :: string where "headerOriginalKey = ''x-original-routing-key''"
definition headerOriginalQueue :: string where "headerOriginalQueue = ''x-original-queue''"
definition headerFirstFailure :: string where "headerFirstFailure = ''x-first-failure-time''"
definition headerDeadLetterTime :: string where "headerDeadLetterTime = ''x-dlq-time''"
definition headerLastError :: string where "headerLastError = ''x-last-error''"
definition headerFinal :: string where "headerFinal = ''x-protobus-final''"
definition headerSeq :: string where "headerSeq = ''x-protobus-seq''"

lemmas header_names =
  headerRetryCount_def headerOriginalKey_def headerOriginalQueue_def headerFirstFailure_def
  headerDeadLetterTime_def headerLastError_def headerFinal_def headerSeq_def

text \<open>
  \<open>floatInt\<close>. The three tests of the code, on the value \<open>m * 2 ^ e\<close>: a NaN differs from its
  own truncation, an infinity does not but is out of range. The bound \<open>math.MaxInt64\<close> is
  rounded to \<open>2 ^ 63\<close> when it becomes a float64, and the test against it is strict. The
  conversion \<open>int64(f)\<close> drops the fraction of a float in the range of int64; outside that
  range, on either side, it is the implementation's.
\<close>

definition float_val :: "int \<Rightarrow> int \<Rightarrow> int" where
  "float_val m e = (if 0 \<le> e then m * 2 ^ nat e else m div 2 ^ nat (- e))"

definition float_integral :: "int \<Rightarrow> int \<Rightarrow> bool" where
  "float_integral m e \<longleftrightarrow> 0 \<le> e \<or> 2 ^ nat (- e) dvd m"

definition float_to_int64 :: "(float64 \<Rightarrow> int) \<Rightarrow> int \<Rightarrow> int \<Rightarrow> int" where
  "float_to_int64 conv m e =
     (let v = (if m < 0 then - float_val (- m) e else float_val m e)
      in if - (2 ^ 63) \<le> v \<and> v < 2 ^ 63 then v else conv (Fin m e))"

fun floatInt :: "(float64 \<Rightarrow> int) \<Rightarrow> float64 \<Rightarrow> int option" where
  "floatInt conv NaN = None"
| "floatInt conv PosInf = None"
| "floatInt conv NegInf = None"
| "floatInt conv (Fin m e) =
     (if \<not> float_integral m e \<or> float_val m e < - (2 ^ 63) \<or> float_val m e > 2 ^ 63 then None
      else Some (float_to_int64 conv m e))"

fun headerInt :: "(float64 \<Rightarrow> int) \<Rightarrow> hval \<Rightarrow> int option" where
  "headerInt conv (VInt n) = Some (sint n)"
| "headerInt conv (VInt8 n) = Some (sint n)"
| "headerInt conv (VInt16 n) = Some (sint n)"
| "headerInt conv (VInt32 n) = Some (sint n)"
| "headerInt conv (VInt64 n) = Some (sint n)"
| "headerInt conv (VUint8 n) = Some (uint n)"
| "headerInt conv (VUint16 n) = Some (uint n)"
| "headerInt conv (VUint32 n) = Some (uint n)"
| "headerInt conv (VUint64 n) = (if uint n > 2 ^ 63 - 1 then None else Some (uint n))"
| "headerInt conv (VFloat32 f) = floatInt conv f"
| "headerInt conv (VFloat64 f) = floatInt conv f"
| "headerInt conv (VString s) = parse_int (trim_space s)"
| "headerInt conv (VBytes s) = parse_int (trim_space s)"
| "headerInt conv v = None"

definition intHeader :: "64 word \<Rightarrow> hval" where
  "intHeader n =
     (if sint n \<ge> - (2 ^ 31) \<and> sint n \<le> 2 ^ 31 - 1 then VInt32 (scast n) else VInt64 n)"

definition hget :: "headers \<Rightarrow> string \<Rightarrow> hval" where
  "hget h k = (case h k of None \<Rightarrow> VNil | Some v \<Rightarrow> v)"

definition streamFinal :: "(float64 \<Rightarrow> int) \<Rightarrow> headers \<Rightarrow> bool" where
  "streamFinal conv h =
     (case hget h headerFinal of
        VNil \<Rightarrow> False
      | VBool v \<Rightarrow> v
      | VString v \<Rightarrow> equal_fold v ''true'' \<or> v = ''1''
      | VBytes v \<Rightarrow> equal_fold v ''true'' \<or> v = ''1''
      | v \<Rightarrow> (case headerInt conv v of None \<Rightarrow> False | Some n \<Rightarrow> n \<noteq> 0))"

definition streamSeq :: "(float64 \<Rightarrow> int) \<Rightarrow> headers \<Rightarrow> int option" where
  "streamSeq conv h =
     (case h headerSeq of
        None \<Rightarrow> None
      | Some v \<Rightarrow>
          (case headerInt conv v of None \<Rightarrow> None | Some n \<Rightarrow> if n < 0 then None else Some n))"

definition retryCount :: "(float64 \<Rightarrow> int) \<Rightarrow> headers \<Rightarrow> int" where
  "retryCount conv h =
     (case headerInt conv (hget h headerRetryCount) of
        None \<Rightarrow> 0
      | Some n \<Rightarrow> if n < 0 then 0 else if n > 2 ^ 31 - 1 then 2 ^ 31 - 1 else n)"

definition carriedProperties :: "Delivery \<Rightarrow> Publishing" where
  "carriedProperties d =
     empty_publishing
       \<lparr>p_ContentType := d_ContentType d,
        p_ContentEncoding := d_ContentEncoding d,
        p_Priority := d_Priority d,
        p_Timestamp := d_Timestamp d,
        p_Type := d_Type d,
        p_AppId := d_AppId d\<rparr>"

section \<open>Lemmas\<close>

text \<open>Narrowing an int64 that fits keeps its value.\<close>

lemma sint_scast_32:
  fixes n :: "64 word"
  assumes "- (2 ^ 31) \<le> sint n" "sint n \<le> 2 ^ 31 - 1"
  shows "sint (scast n :: 32 word) = sint n"
proof -
  have "sint (scast n :: 32 word) = signed_take_bit 31 (sint n)"
    by (subst signed_scast_eq) simp
  also have "\<dots> = sint n"
    using assms by (intro signed_take_bit_int_eq_self) simp_all
  finally show ?thesis .
qed

lemma headerInt_intHeader: "headerInt conv (intHeader n) = Some (sint n)"
  by (simp add: intHeader_def sint_scast_32)

lemma sint_64: "- (2 ^ 63) \<le> sint (n :: 64 word) \<and> sint n < 2 ^ 63"
  using sint_range_size [of n] by (simp add: word_size)

lemma sint_of_int_64:
  assumes "- (2 ^ 63) \<le> i" "i < 2 ^ 63"
  shows "sint (of_int i :: 64 word) = i"
  using assms unfolding sint_sbintrunc' by (intro signed_take_bit_int_eq_self) simp_all

lemma floatInt_range:
  assumes "\<And>f. - (2 ^ 63) \<le> conv f \<and> conv f < 2 ^ 63" "floatInt conv f = Some i"
  shows "- (2 ^ 63) \<le> i \<and> i < 2 ^ 63"
  using assms by (cases f) (auto simp: float_to_int64_def Let_def split: if_splits)

lemma headerInt_range:
  assumes "\<And>f. - (2 ^ 63) \<le> conv f \<and> conv f < 2 ^ 63" "headerInt conv v = Some i"
  shows "- (2 ^ 63) \<le> i \<and> i < 2 ^ 63"
proof (cases v)
  case (VFloat32 f)
  then show ?thesis using floatInt_range [OF assms(1)] assms(2) by simp
next
  case (VFloat64 f)
  then show ?thesis using floatInt_range [OF assms(1)] assms(2) by simp
next
  case (VString s)
  then show ?thesis using parse_int_range assms(2) by simp
next
  case (VBytes s)
  then show ?thesis using parse_int_range assms(2) by simp
next
  case (VInt8 n)
  then show ?thesis using assms(2) sint_range_size [of n] by (simp add: word_size)
next
  case (VInt16 n)
  then show ?thesis using assms(2) sint_range_size [of n] by (simp add: word_size)
next
  case (VInt32 n)
  then show ?thesis using assms(2) sint_range_size [of n] by (simp add: word_size)
next
  case (VUint8 n)
  then show ?thesis using assms(2) uint_range_size [of n] by (simp add: word_size)
next
  case (VUint16 n)
  then show ?thesis using assms(2) uint_range_size [of n] by (simp add: word_size)
next
  case (VUint32 n)
  then show ?thesis using assms(2) uint_range_size [of n] by (simp add: word_size)
next
  case (VUint64 n)
  then show ?thesis using assms(2) by (auto split: if_splits intro: order_trans [OF _ uint_ge_0])
qed (use assms(2) sint_64 in auto)

lemma retryCount_bounds: "0 \<le> retryCount conv h \<and> retryCount conv h \<le> 2 ^ 31 - 1"
  by (auto simp: retryCount_def split: option.split)

lemma retryCount_intHeader:
  "0 \<le> sint n \<Longrightarrow> sint n \<le> 2 ^ 31 - 1 \<Longrightarrow>
   retryCount conv (h(headerRetryCount \<mapsto> intHeader n)) = sint n"
  by (simp add: retryCount_def hget_def headerInt_intHeader)


section \<open>Properties\<close>

text \<open>
  Header integers survive every encoding the peers use: reading back what \<open>intHeader\<close>
  writes gives the number, whichever width it chose, and so does the decimal text of any
  int64, as a string or as bytes. Whatever the header holds, the result is an int64.
\<close>

theorem header_int_roundtrip:
  assumes "\<And>f. - (2 ^ 63) \<le> conv f \<and> conv f < 2 ^ 63"
  shows "headerInt conv (intHeader n) = Some (sint n) \<and>
    headerInt conv (VString (format_int (sint n))) = Some (sint n) \<and>
    headerInt conv (VBytes (format_int (sint n))) = Some (sint n) \<and>
    (headerInt conv v = Some i \<longrightarrow> - (2 ^ 63) \<le> i \<and> i < 2 ^ 63)"
  using headerInt_intHeader headerInt_range [OF assms] parse_int_format_int sint_64 [of n]
  by (simp add: trim_space_format_int)

theorem header_int_roundtrip_witness:
  "headerInt (\<lambda>_. - (2 ^ 63)) (VString (format_int (sint (- 42 :: 64 word)))) = Some (- 42)"
  using header_int_roundtrip [of "\<lambda>_. - (2 ^ 63)" "- 42"] by simp

text \<open>
  The retry counter is bounded by the int32 range whatever a peer put in the header, and
  a count the bus wrote itself is read back unchanged.
\<close>

theorem retry_count_bounded:
  assumes "0 \<le> sint n" "sint n \<le> 2 ^ 31 - 1"
  shows "0 \<le> retryCount conv h \<and> retryCount conv h \<le> 2 ^ 31 - 1 \<and>
    retryCount conv (h(headerRetryCount \<mapsto> intHeader n)) = sint n"
  using retryCount_bounds retryCount_intHeader [OF assms] by blast

theorem retry_count_bounded_witness:
  "retryCount (\<lambda>_. 0) [headerRetryCount \<mapsto> intHeader 3] = 3"
  using retry_count_bounded [of 3 "\<lambda>_. 0" Map.empty] by simp

text \<open>
  The exact value of a float: \<open>m * 2 ^ e = n\<close>, with a negative exponent moved to the other
  side. At most one integer is the value of a float, and an integral float has one.
\<close>

definition float_is :: "int \<Rightarrow> int \<Rightarrow> int \<Rightarrow> bool" where
  "float_is m e n \<longleftrightarrow> n * 2 ^ nat (- e) = m * 2 ^ nat e"

lemma float_is_val: "float_is m e n \<longleftrightarrow> float_integral m e \<and> n = float_val m e"
proof (cases "0 \<le> e")
  case False
  have "n * 2 ^ nat (- e) = m \<longleftrightarrow> 2 ^ nat (- e) dvd m \<and> n = m div 2 ^ nat (- e)" by auto
  then show ?thesis using False by (simp add: float_is_def float_integral_def float_val_def)
qed (simp add: float_is_def float_integral_def float_val_def)

lemma float_to_int64_integral:
  assumes "float_integral m e"
  shows "float_to_int64 conv m e =
    (if - (2 ^ 63) \<le> float_val m e \<and> float_val m e < 2 ^ 63 then float_val m e else conv (Fin m e))"
proof -
  have "- float_val (- m) e = float_val m e" using assms by (auto simp: float_integral_def float_val_def dvd_neg_div)
  then show ?thesis by (auto simp: float_to_int64_def Let_def)
qed

text \<open>
  C33. Reading a float header, against its exact value: the integers read are exactly the
  values from \<open>- 2 ^ 63\<close> up to but not including \<open>2 ^ 63\<close>, with one exception. The float of
  value \<open>2 ^ 63\<close> passes the range test, no int64 holds it, and what is read is whatever the
  conversion gives. Everything else, fractions, NaN and the infinities included, is refused.
\<close>

theorem float_header_exact:
  "(headerInt conv (VFloat64 (Fin m e)) = Some n \<longleftrightarrow>
      float_is m e n \<and> - (2 ^ 63) \<le> n \<and> n < 2 ^ 63 \<or> float_is m e (2 ^ 63) \<and> n = conv (Fin m e)) \<and>
   headerInt conv (VFloat32 (Fin m e)) = headerInt conv (VFloat64 (Fin m e)) \<and>
   list_all (\<lambda>f. headerInt conv (VFloat64 f) = None \<and> headerInt conv (VFloat32 f) = None) [NaN, PosInf, NegInf]"
  by (auto simp: float_is_val float_to_int64_integral)

theorem float_header_exact_witness:
  "headerInt (\<lambda>_. 7) (VFloat64 (Fin 3 2)) = Some 12 \<and> headerInt (\<lambda>_. 7) (VFloat64 (Fin (- 1) 63)) = Some (- (2 ^ 63)) \<and>
   headerInt (\<lambda>_. 7) (VFloat32 (Fin 1 63)) = Some 7 \<and> headerInt (\<lambda>_. 7) (VFloat64 (Fin 6 (- 2))) = None"
  using float_header_exact [of "\<lambda>_. 7" 3 2 12] float_header_exact [of "\<lambda>_. 7" "- 1" 63 "- (2 ^ 63)"]
    float_header_exact [of "\<lambda>_. 7" 1 63 7]
  by (simp add: float_is_def float_integral_def)

end
