(* ===== verification/Errors.thy ===== *)
theory Errors imports GoStrings begin

text \<open>
  The errors of \<open>errors.go\<close>: sentinels, the error types and the decisions made on them.
  A Go error is a tree: a sentinel, one of the bus's own types, or a value of some other
  type, of which the code observes the type's name, its text, the code it may expose and
  what it unwraps to. \<open>errors.Is\<close> and \<open>errors.As\<close> walk that tree in preorder; types that
  define their own \<open>Is\<close> or \<open>As\<close> method are not modelled. A nil entry of a multi-error is
  skipped by every traversal and is left out.
\<close>

section \<open>Error values\<close>

datatype sentinel =
    ErrClosed | ErrNotReady | ErrDisconnected | ErrRPCTimeout
  | ErrPublishNacked | ErrUnroutable | ErrPublishConfirmTimeout | ErrChannelClosed
  | ErrStreamTimeout | ErrStreamBackpressure | ErrStreamSequence
  | ErrInvalidPriority | ErrInvalidMessageID | ErrRetryQueueMismatch | ErrUnimplemented
  | ErrCancelled | ErrInvalidRequest | ErrInvalidResponse | ErrUnknownEventType | ErrUnknownService
  | ErrStreamFinished | ErrMalformed | ErrBigintRange
  | errConnectionGone | errStreamReleased | errPublishStalled
  | ctxCanceled | ctxDeadlineExceeded

datatype 'e unwrap = NoUnwrap | UnwrapOne "'e option" | UnwrapMany "'e list"

datatype err =
    Sentinel sentinel
  | HandledError (he_Code: string) (he_Message: string)
  | RemoteError (re_Method: string) (re_Code: string) (re_Message: string)
  | PublishError (pe_Err: err) (pe_MessageID: string) (pe_Exchange: string) (pe_RoutingKey: string)
      (pe_Detail: string)
  | ProcessingTimeout (pt_correlationID: string) (pt_limit: duration)
  | PayloadError (ple_err: err)
  | OtherError (oe_type: string) (oe_text: string) (oe_code: "string option") (oe_unwrap: "err unwrap")

text \<open>\<open>fmt.Errorf\<close> with one and with two \<open>%w\<close> verbs.\<close>

abbreviation wrap1 :: "string \<Rightarrow> err \<Rightarrow> err" where
  "wrap1 text e \<equiv> OtherError ''wrapError'' text None (UnwrapOne (Some e))"

abbreviation wrap2 :: "string \<Rightarrow> err \<Rightarrow> err \<Rightarrow> err" where
  "wrap2 text e f \<equiv> OtherError ''wrapErrors'' text None (UnwrapMany [e, f])"

abbreviation new_error :: "string \<Rightarrow> err" where
  "new_error text \<equiv> OtherError ''errorString'' text None NoUnwrap"

text \<open>The order in which the \<open>errors\<close> package visits a tree.\<close>

fun preorder :: "err \<Rightarrow> err list" where
  "preorder (PublishError e i x k d) = PublishError e i x k d # preorder e"
| "preorder (PayloadError e) = PayloadError e # preorder e"
| "preorder (OtherError n t c (UnwrapOne (Some e))) = OtherError n t c (UnwrapOne (Some e)) # preorder e"
| "preorder (OtherError n t c (UnwrapMany es)) =
     OtherError n t c (UnwrapMany es) # concat (map preorder es)"
| "preorder e = [e]"

definition errors_is :: "err \<Rightarrow> sentinel \<Rightarrow> bool" where
  "errors_is e s = list_ex (\<lambda>x. x = Sentinel s) (preorder e)"

fun first_some :: "('a \<Rightarrow> 'b option) \<Rightarrow> 'a list \<Rightarrow> 'b option" where
  "first_some f [] = None"
| "first_some f (x # xs) = (case f x of None \<Rightarrow> first_some f xs | Some y \<Rightarrow> Some y)"

section \<open>Model\<close>

definition CodeHandled :: string where "CodeHandled = ''HANDLED_ERROR''"
definition CodeProtocol :: string where "CodeProtocol = ''PROTOCOL_ERROR''"
definition CodeInternal :: string where "CodeInternal = ''INTERNAL_ERROR''"
definition CodeProcessingTimeout :: string where "CodeProcessingTimeout = ''PROCESSING_TIMEOUT''"
definition CodeRPCTimeout :: string where "CodeRPCTimeout = ''RPC_TIMEOUT''"
definition CodeNotReady :: string where "CodeNotReady = ''NOT_READY''"
definition CodePublishNacked :: string where "CodePublishNacked = ''PUBLISH_NACKED''"
definition CodeUnroutable :: string where "CodeUnroutable = ''UNROUTABLE''"
definition CodePublishConfirmTimeout :: string where
  "CodePublishConfirmTimeout = ''PUBLISH_CONFIRM_TIMEOUT''"
definition CodeChannelClosed :: string where "CodeChannelClosed = ''CHANNEL_CLOSED''"

lemmas code_names =
  CodeHandled_def CodeProtocol_def CodeInternal_def CodeProcessingTimeout_def CodeRPCTimeout_def
  CodeNotReady_def CodePublishNacked_def CodeUnroutable_def CodePublishConfirmTimeout_def
  CodeChannelClosed_def

fun sentinelCode :: "err \<Rightarrow> string option" where
  "sentinelCode (Sentinel ErrRPCTimeout) = Some CodeRPCTimeout"
| "sentinelCode (Sentinel ErrNotReady) = Some CodeNotReady"
| "sentinelCode (Sentinel ErrPublishNacked) = Some CodePublishNacked"
| "sentinelCode (Sentinel ErrUnroutable) = Some CodeUnroutable"
| "sentinelCode (Sentinel ErrPublishConfirmTimeout) = Some CodePublishConfirmTimeout"
| "sentinelCode (Sentinel ErrChannelClosed) = Some CodeChannelClosed"
| "sentinelCode e = None"

definition NewHandledError :: "string \<Rightarrow> string \<Rightarrow> err" where
  "NewHandledError code message = HandledError (if code = '''' then CodeHandled else code) message"

fun is_handled :: "err \<Rightarrow> (string \<times> string) option" where
  "is_handled (HandledError c m) = Some (c, m)"
| "is_handled e = None"

definition AsHandled :: "err \<Rightarrow> (string \<times> string) option" where
  "AsHandled e = first_some is_handled (preorder e)"

definition newProtocolError :: "string \<Rightarrow> err" where
  "newProtocolError message = HandledError CodeProtocol message"

fun is_remote :: "err \<Rightarrow> (string \<times> string) option" where
  "is_remote (RemoteError mt c m) = Some (c, m)"
| "is_remote e = None"

definition asAnswerable :: "err \<Rightarrow> (string \<times> string) option" where
  "asAnswerable e =
     (case AsHandled e of
        Some h \<Rightarrow> Some h
      | None \<Rightarrow>
          (case first_some is_remote (preorder e) of
             Some (c, m) \<Rightarrow>
               if c \<in> {'''', CodeInternal, CodeProcessingTimeout} then None else Some (c, m)
           | None \<Rightarrow> None))"

definition Ambiguous :: "err \<Rightarrow> bool" where
  "Ambiguous e \<longleftrightarrow>
     errors_is (pe_Err e) ErrPublishConfirmTimeout \<or> errors_is (pe_Err e) ErrChannelClosed \<or>
     errors_is (pe_Err e) ctxCanceled \<or> errors_is (pe_Err e) ctxDeadlineExceeded"

text \<open>The \<open>ErrorCode\<close> (or \<open>Code\<close>) method of an error that has one.\<close>

fun coder :: "err \<Rightarrow> string option" where
  "coder (HandledError c m) = Some c"
| "coder (RemoteError mt c m) = Some c"
| "coder (PublishError e i x k d) = Some (case sentinelCode e of None \<Rightarrow> '''' | Some c \<Rightarrow> c)"
| "coder (ProcessingTimeout i l) = Some CodeProcessingTimeout"
| "coder (PayloadError e) = None"
| "coder (OtherError n t c u) = c"
| "coder (Sentinel s) = None"

fun ErrorCode :: "err \<Rightarrow> string" where
  "ErrorCode e =
     (case coder e of
        Some (c # cs) \<Rightarrow> c # cs
      | _ \<Rightarrow>
          (case sentinelCode e of
             Some code \<Rightarrow> code
           | None \<Rightarrow>
               (case e of
                  PublishError inner _ _ _ _ \<Rightarrow> ErrorCode inner
                | PayloadError inner \<Rightarrow> ErrorCode inner
                | OtherError _ _ _ (UnwrapOne (Some inner)) \<Rightarrow> ErrorCode inner
                | OtherError _ _ _ (UnwrapMany es) \<Rightarrow>
                    (case filter (\<lambda>code. code \<noteq> '''') (map ErrorCode es) of [] \<Rightarrow> '''' | c # _ \<Rightarrow> c)
                | _ \<Rightarrow> '''')))"

declare ErrorCode.simps [simp del]

definition IsCode :: "err \<Rightarrow> string \<Rightarrow> bool" where
  "IsCode e code \<longleftrightarrow> code \<noteq> '''' \<and> ErrorCode e = code"

text \<open>The texts of the errors.\<close>

fun sentinel_text :: "sentinel \<Rightarrow> string" where
  "sentinel_text ErrClosed = ''protobus: closed''"
| "sentinel_text ErrNotReady = ''protobus: connection not ready''"
| "sentinel_text ErrDisconnected = ''protobus: connection lost during call''"
| "sentinel_text ErrRPCTimeout = ''protobus: rpc timed out''"
| "sentinel_text ErrPublishNacked = ''protobus: broker nacked the publish''"
| "sentinel_text ErrUnroutable = ''protobus: message was unroutable''"
| "sentinel_text ErrPublishConfirmTimeout = ''protobus: no broker confirm in time''"
| "sentinel_text ErrChannelClosed = ''protobus: channel closed before the broker confirmed''"
| "sentinel_text ErrStreamTimeout = ''protobus: no stream chunk within the idle timeout''"
| "sentinel_text ErrStreamBackpressure = ''protobus: stream buffer limit exceeded''"
| "sentinel_text ErrStreamSequence = ''protobus: stream lost a chunk''"
| "sentinel_text ErrInvalidPriority = ''protobus: invalid priority''"
| "sentinel_text ErrInvalidMessageID = ''protobus: invalid message id''"
| "sentinel_text ErrRetryQueueMismatch = ''protobus: retry queue exists with different arguments''"
| "sentinel_text ErrUnimplemented = ''protobus: method not implemented''"
| "sentinel_text ErrCancelled = ''protobus: cancelled by the caller''"
| "sentinel_text ErrInvalidRequest = ''protobus: invalid request''"
| "sentinel_text ErrInvalidResponse = ''protobus: invalid response''"
| "sentinel_text ErrUnknownEventType = ''protobus: unknown event type''"
| "sentinel_text ErrUnknownService = ''protobus: unknown service''"
| "sentinel_text ErrStreamFinished = ''protobus: Send after the stream handler returned''"
| "sentinel_text ErrMalformed = ''protobus: malformed envelope''"
| "sentinel_text ErrBigintRange = ''protobus: bigint out of range''"
| "sentinel_text errConnectionGone = ''protobus: connection gone''"
| "sentinel_text errStreamReleased = ''protobus: stream released''"
| "sentinel_text errPublishStalled = ''protobus: publish not sent: the channel had no capacity in time''"
| "sentinel_text ctxCanceled = ''context canceled''"
| "sentinel_text ctxDeadlineExceeded = ''context deadline exceeded''"

fun error_text :: "err \<Rightarrow> string" where
  "error_text (Sentinel s) = sentinel_text s"
| "error_text (HandledError c m) = m"
| "error_text (RemoteError mt c m) =
     (if c = '''' then ''protobus: '' @ mt @ '': '' @ m
      else ''protobus: '' @ mt @ '': '' @ c @ '': '' @ m)"
| "error_text (PublishError e i x k d) =
     (let dest = (if x \<noteq> '''' then x @ '' -> '' @ k else k);
          msg = error_text e @ '' ('' @ dest @ '', messageId '' @ i @ '')''
      in if d \<noteq> '''' then msg @ '': '' @ d else msg)"
| "error_text (ProcessingTimeout i l) =
     ''message '' @ i @ '' exceeded the '' @ duration_string l @ '' processing timeout''"
| "error_text (PayloadError e) = ''payload did not decode: '' @ error_text e"
| "error_text (OtherError n t c u) = t"

definition rpcTimeoutError :: "string \<Rightarrow> string \<Rightarrow> err \<Rightarrow> err" where
  "rpcTimeoutError routingKey correlationID cause =
     wrap2 (sentinel_text ErrRPCTimeout @ '': no reply for '' @ routingKey @ '' (correlationId '' @
         correlationID @ ''): '' @ error_text cause)
       (Sentinel ErrRPCTimeout) cause"

text \<open>
  \<open>errorName\<close>: the class name for the bus's own types that have one, otherwise the name
  of the Go type.
\<close>

fun named :: "err \<Rightarrow> string option" where
  "named (HandledError c m) = Some ''HandledError''"
| "named (PublishError e i x k d) =
     Some (if e = Sentinel ErrPublishNacked then ''PublishNackedError''
           else if e = Sentinel ErrUnroutable then ''UnroutableError''
           else if e = Sentinel ErrPublishConfirmTimeout then ''PublishConfirmTimeoutError''
           else if e = Sentinel ErrChannelClosed then ''ChannelClosedError''
           else ''PublishError'')"
| "named (ProcessingTimeout i l) = Some ''TimeoutError''"
| "named e = None"

fun type_name :: "err \<Rightarrow> string" where
  "type_name (Sentinel ctxDeadlineExceeded) = ''deadlineExceededError''"
| "type_name (Sentinel s) = ''errorString''"
| "type_name (HandledError c m) = ''HandledError''"
| "type_name (RemoteError mt c m) = ''RemoteError''"
| "type_name (PublishError e i x k d) = ''PublishError''"
| "type_name (ProcessingTimeout i l) = ''processingTimeoutError''"
| "type_name (PayloadError e) = ''payloadError''"
| "type_name (OtherError n t c u) = n"

definition errorName :: "err \<Rightarrow> string" where
  "errorName e =
     (case named e of
        Some n \<Rightarrow> n
      | None \<Rightarrow>
          if type_name e \<in> {'''', ''errorString'', ''wrapError'', ''wrapErrors'', ''joinError''} then ''Error''
          else type_name e)"

fun innermostNamed :: "err \<Rightarrow> err" where
  "innermostNamed e =
     (if named e \<noteq> None then e
      else if errorName e \<noteq> ''Error'' then e
      else (case e of
              OtherError _ _ _ (UnwrapOne (Some inner)) \<Rightarrow> innermostNamed inner
            | PublishError inner _ _ _ _ \<Rightarrow> innermostNamed inner
            | PayloadError inner \<Rightarrow> innermostNamed inner
            | _ \<Rightarrow> e))"

declare innermostNamed.simps [simp del]

definition safeErrorSummary :: "err option \<Rightarrow> string" where
  "safeErrorSummary err =
     (case err of
        None \<Rightarrow> ''UnknownError''
      | Some e \<Rightarrow>
          (case AsHandled e of
             Some (c, m) \<Rightarrow> ''HandledError['' @ c @ '']: '' @ m
           | None \<Rightarrow>
               let name = errorName (innermostNamed e); code = ErrorCode e
               in if code \<noteq> '''' then name @ ''['' @ code @ '']'' else name))"

record callerError =
  ce_Code :: string
  ce_Message :: string

fun is_processing_timeout :: "err \<Rightarrow> err option" where
  "is_processing_timeout (ProcessingTimeout i l) = Some (ProcessingTimeout i l)"
| "is_processing_timeout e = None"

definition sanitizeForCaller :: "err \<Rightarrow> bool \<Rightarrow> callerError" where
  "sanitizeForCaller e expose =
     (case asAnswerable e of
        Some (c, m) \<Rightarrow> \<lparr>ce_Code = c, ce_Message = m\<rparr>
      | None \<Rightarrow>
          (case first_some is_processing_timeout (preorder e) of
             Some pt \<Rightarrow> \<lparr>ce_Code = CodeProcessingTimeout, ce_Message = error_text pt\<rparr>
           | None \<Rightarrow>
               if \<not> expose then \<lparr>ce_Code = CodeInternal, ce_Message = ''internal service error''\<rparr>
               else \<lparr>ce_Code = ErrorCode e, ce_Message = error_text e\<rparr>))"

section \<open>Lemmas\<close>

lemma first_some_append: "first_some f (xs @ ys) = (case first_some f xs of None \<Rightarrow> first_some f ys | Some y \<Rightarrow> Some y)"
  by (induction xs) (auto split: option.split)

lemma first_some_map: "first_some f (map g xs) = first_some (f \<circ> g) xs"
  by (induction xs) (auto split: option.split)

lemma first_some_None: "first_some f xs = None \<longleftrightarrow> (\<forall>x \<in> set xs. f x = None)"
  by (induction xs) (auto split: option.split)

lemma first_some_Some: "first_some f xs = Some y \<Longrightarrow> \<exists>x \<in> set xs. f x = Some y"
  by (induction xs) (auto split: option.splits)

text \<open>The code an error carries itself, and \<open>ErrorCode\<close> as a search in preorder.\<close>

definition own_code :: "err \<Rightarrow> string option" where
  "own_code e = (case coder e of Some (c # cs) \<Rightarrow> Some (c # cs) | _ \<Rightarrow> sentinelCode e)"

definition code_spec :: "err \<Rightarrow> string" where
  "code_spec e = (case first_some own_code (preorder e) of None \<Rightarrow> '''' | Some c \<Rightarrow> c)"

lemma sentinelCode_nonempty: "sentinelCode e = Some c \<Longrightarrow> c \<noteq> ''''"
  by (induction e rule: sentinelCode.induct) (auto simp: code_names)

lemma own_code_nonempty: "own_code e = Some c \<Longrightarrow> c \<noteq> ''''"
  by (auto simp: own_code_def dest: sentinelCode_nonempty split: option.splits list.splits)

lemma code_spec_Nil: "code_spec e = '''' \<longleftrightarrow> first_some own_code (preorder e) = None"
  by (auto simp: code_spec_def split: option.split dest!: first_some_Some dest: own_code_nonempty)

lemma first_code_concat:
  "(case first_some own_code (concat (map preorder es)) of None \<Rightarrow> '''' | Some c \<Rightarrow> c) =
   (case filter (\<lambda>code. code \<noteq> '''') (map code_spec es) of [] \<Rightarrow> '''' | c # _ \<Rightarrow> c)"
proof (induction es)
  case (Cons e es)
  show ?case
  proof (cases "first_some own_code (preorder e)")
    case None
    then have "code_spec e = ''''" by (simp add: code_spec_Nil)
    then show ?thesis using None Cons.IH by (simp add: first_some_append)
  next
    case (Some c)
    then have "code_spec e \<noteq> ''''" by (simp add: code_spec_Nil)
    moreover have "code_spec e = c" using Some by (simp add: code_spec_def)
    ultimately show ?thesis using Some by (simp add: first_some_append)
  qed
qed simp

lemma ErrorCode_own:
  "ErrorCode e =
     (case own_code e of
        Some code \<Rightarrow> code
      | None \<Rightarrow>
          (case e of
             PublishError inner _ _ _ _ \<Rightarrow> ErrorCode inner
           | PayloadError inner \<Rightarrow> ErrorCode inner
           | OtherError _ _ _ (UnwrapOne (Some inner)) \<Rightarrow> ErrorCode inner
           | OtherError _ _ _ (UnwrapMany es) \<Rightarrow>
               (case filter (\<lambda>code. code \<noteq> '''') (map ErrorCode es) of [] \<Rightarrow> '''' | c # _ \<Rightarrow> c)
           | _ \<Rightarrow> ''''))"
  by (subst ErrorCode.simps) (simp add: own_code_def split: option.split list.split)

lemma ErrorCode_preorder: "ErrorCode e = code_spec e"
proof (induction e rule: preorder.induct)
  case (1 e i x k d)
  then show ?case by (subst ErrorCode_own) (simp add: code_spec_def split: option.split)
next
  case (2 e)
  then show ?case by (subst ErrorCode_own) (simp add: code_spec_def split: option.split)
next
  case (3 n t c e)
  then show ?case by (subst ErrorCode_own) (simp add: code_spec_def split: option.split)
next
  case (4 n t c es)
  then have "map ErrorCode es = map code_spec es" by simp
  note F = first_code_concat [of es, folded this]
  show ?case
    by (subst ErrorCode_own) (simp add: F [symmetric] code_spec_def [of "OtherError _ _ _ _"] split: option.split)
qed (subst ErrorCode_own, simp add: code_spec_def split: option.split)+

text \<open>
  Redaction: the same tree with every text erased that the error's author did not mean for
  others: the text of any foreign error and the broker details of a publish error; with
  \<open>all\<close> also what a remote service said.
\<close>

primrec redact :: "bool \<Rightarrow> err \<Rightarrow> err" where
  "redact all (Sentinel s) = Sentinel s"
| "redact all (HandledError c m) = HandledError c m"
| "redact all (RemoteError mt c m) = (if all then RemoteError '''' c '''' else RemoteError mt c m)"
| "redact all (PublishError e i x k d) = PublishError (redact all e) '''' '''' '''' ''''"
| "redact all (ProcessingTimeout i l) = ProcessingTimeout i l"
| "redact all (PayloadError e) = PayloadError (redact all e)"
| "redact all (OtherError n t c u) = OtherError n '''' c (map_unwrap (redact all) u)"

lemma preorder_redact: "preorder (redact all e) = map (redact all) (preorder e)"
  by (induction e rule: preorder.induct) (simp_all add: map_concat o_def cong: map_cong)

lemma redact_Sentinel [simp]: "redact all e = Sentinel s \<longleftrightarrow> e = Sentinel s"
  by (cases e) simp_all

lemma sentinelCode_redact [simp]: "sentinelCode (redact all e) = sentinelCode e"
  by (cases e) simp_all

lemma redact_own_code: "own_code (redact all e) = own_code e"
  by (cases e) (simp_all add: own_code_def split: option.split list.split)

lemma redact_is_handled: "is_handled (redact all e) = is_handled e"
  by (cases e) simp_all

lemma redact_is_remote: "is_remote (redact False e) = is_remote e"
  by (cases e) simp_all

lemma redact_is_timeout: "is_processing_timeout (redact all e) = is_processing_timeout e"
  by (cases e) simp_all

lemma redact_named: "named (redact all e) = named e"
  by (cases e) simp_all

lemma redact_type_name: "type_name (redact all e) = type_name e"
  by (cases e) simp_all

lemmas redact_observers =
  redact_own_code redact_is_handled redact_is_remote redact_is_timeout redact_named redact_type_name

lemma redact_errorName: "errorName (redact all e) = errorName e"
  by (simp add: errorName_def redact_observers split: option.split)

lemma redact_AsHandled: "AsHandled (redact all e) = AsHandled e"
  by (simp add: AsHandled_def preorder_redact first_some_map o_def redact_observers)

lemma redact_ErrorCode: "ErrorCode (redact all e) = ErrorCode e"
  by (simp add: ErrorCode_preorder code_spec_def preorder_redact first_some_map o_def redact_observers)

lemma redact_innermost: "innermostNamed (redact all e) = redact all (innermostNamed e)"
proof (induction e rule: innermostNamed.induct)
  case (1 e)
  show ?case
  proof (cases "named e = None \<and> errorName e = ''Error''")
    case False
    then show ?thesis
      by (subst (1 2) innermostNamed.simps) (auto simp: redact_named redact_errorName)
  next
    case True
    then show ?thesis using 1
      by (subst (1 2) innermostNamed.simps)
         (simp add: redact_named redact_errorName split: err.split unwrap.split option.split, fastforce)
  qed
qed

lemma redact_asAnswerable: "asAnswerable (redact False e) = asAnswerable e"
  by (simp add: asAnswerable_def redact_AsHandled preorder_redact first_some_map o_def redact_observers
      split: option.split)

section \<open>Properties\<close>

text \<open>
  \<open>ErrorCode\<close> returns the first non-empty code in the order in which the \<open>errors\<close>
  package visits the tree of wrapped errors, and the empty string exactly when no error of
  the tree carries one.
\<close>

theorem error_code_is_first:
  "ErrorCode e = (case first_some own_code (preorder e) of None \<Rightarrow> '''' | Some c \<Rightarrow> c) \<and>
   (ErrorCode e = '''' \<longleftrightarrow> list_all (\<lambda>x. own_code x = None) (preorder e))"
  using ErrorCode_preorder [of e] code_spec_Nil [of e] code_spec_def [of e]
  by (simp add: first_some_None list_all_iff)

text \<open>
  C18. Nothing private leaks to a caller: with exposure off, what the caller is told does
  not depend on the text of any error that is not a \<open>HandledError\<close>, a relayed answer or the
  framework's own timeout. It is the generic internal error unless one of these three occurs.
\<close>

theorem sanitize_hides_private_text:
  "sanitizeForCaller (redact False e) False = sanitizeForCaller e False \<and>
   (asAnswerable e = None \<and> first_some is_processing_timeout (preorder e) = None \<longrightarrow>
      sanitizeForCaller e False = \<lparr>ce_Code = CodeInternal, ce_Message = ''internal service error''\<rparr>)"
  by (simp add: sanitizeForCaller_def redact_asAnswerable preorder_redact first_some_map o_def
      redact_observers split: option.split)

theorem sanitize_hides_private_text_witness:
  "sanitizeForCaller (wrap1 ''dial db: password=secret'' (new_error ''password=secret'')) False =
   \<lparr>ce_Code = CodeInternal, ce_Message = ''internal service error''\<rparr>"
  by (rule sanitize_hides_private_text [THEN conjunct2, THEN mp])
     (simp add: asAnswerable_def AsHandled_def)

text \<open>
  The summary written to the \<open>x-last-error\<close> header does not depend on the text of any
  error other than a \<open>HandledError\<close>: erasing all of them, those of a remote service
  included, leaves it unchanged.
\<close>

theorem summary_hides_private_text:
  "safeErrorSummary (map_option (redact True) err) = safeErrorSummary err"
  by (cases err)
     (simp_all add: safeErrorSummary_def redact_AsHandled redact_ErrorCode redact_innermost redact_errorName
        split: option.split)

end
