(* ===== verification/Amqp.thy ===== *)
theory Amqp imports Headers Errors begin

text \<open>
  The boundary with the broker, \<open>internal/transport/transport.go\<close> and the publishing
  channel: the calls the components make and what the environment answers. An environment
  decides the outcome of each call from everything that happened before it, so a statement
  for all environments covers every sequence of failures. A component is a function of the
  environment and the history, and returns the longer history.
\<close>

datatype amqp_op =
    OpenChannel nat
  | Confirm nat
  | Qos nat int
  | ExchangeDeclare nat string string
  | QueueDeclare nat string bool bool bool table
  | QueueBind nat string string string
  | Consume nat string string bool bool
  | CancelConsumer nat string
  | CloseChannel nat
  | PublishMsg nat string string bool Publishing
  | AckMsg nat
  | NackMsg nat bool
  | RejectMsg nat bool

type_synonym history = "(amqp_op \<times> err option) list"

text \<open>
  \<open>env_err\<close> is the error of a call, \<open>None\<close> for success; the other fields are the values
  of the calls that return one: the name of a queue, the clock, whether a connection or
  channel has closed. Channels are numbered in the order they are opened.
\<close>

record env =
  env_err :: "history \<Rightarrow> amqp_op \<Rightarrow> err option"

  env_name :: "history \<Rightarrow> string"
  env_now :: "history \<Rightarrow> 64 word"
  env_closed :: "history \<Rightarrow> bool"

definition perform :: "env \<Rightarrow> amqp_op \<Rightarrow> history \<Rightarrow> err option \<times> history" where
  "perform E op h = (env_err E h op, h @ [(op, env_err E h op)])"

text \<open>The calls of a run that follow a given history.\<close>

definition new_calls :: "history \<Rightarrow> history \<Rightarrow> (amqp_op \<times> err option) list" where
  "new_calls h h1 = drop (length h) h1"

lemma new_calls_append [simp]: "new_calls h (h @ t) = t"
  by (simp add: new_calls_def)

lemma new_calls_self [simp]: "new_calls h h = []"
  by (simp add: new_calls_def)

definition reliable :: env where
  "reliable = \<lparr>env_err = \<lambda>_ _. None, env_name = \<lambda>_. ''amq.gen-1'',
     env_now = \<lambda>_. 1700000000000, env_closed = \<lambda>_. False\<rparr>"

text \<open>\<open>errChannelGone\<close> of \<open>pubchan.go\<close>, an error wrapping the client library's \<open>ErrClosed\<close>.\<close>

definition amqpErrClosed :: err where
  "amqpErrClosed = OtherError ''Error'' (''Exception (504) Reason: '' @ [CHR 0x22] @ ''channel/connection is not open'' @ [CHR 0x22]) None NoUnwrap"

definition errChannelGone :: err where
  "errChannelGone = wrap1 (''protobus: channel unavailable: '' @ error_text amqpErrClosed) amqpErrClosed"

text \<open>\<open>errors.Is\<close> with an error value other than a sentinel as the target.\<close>

definition errors_is_val :: "err \<Rightarrow> err \<Rightarrow> bool" where
  "errors_is_val e target = list_ex (\<lambda>x. x = target) (preorder e)"

end
