(* ===== verification/Consumer.thy ===== *)
theory Consumer imports Amqp begin

text \<open>
  The settlement of a delivery, from \<open>consumer.go\<close>: the retry ladder, the copies published
  to the retry and dead-letter queues, and the order of publishing and settling. Logging is
  left out. A pause before a requeue is not visible in the history.
\<close>

section \<open>Model\<close>

record handlerResult =
  hr_reply :: "bytes option"
  hr_err :: "err option"
  hr_errReply :: "bytes option"
  hr_handled :: bool

record retrySpec =
  rs_maxRetries :: int
  rs_exchange :: string
  rs_queue :: string
  rs_dlq :: string

record consumerSpec =
  cs_queue :: string
  cs_queueArgs :: table
  cs_exchange :: string
  cs_lateAck :: bool
  cs_prefetch :: int
  cs_concurrency :: int
  cs_timeout :: duration
  cs_retry :: "retrySpec option"
  cs_dlqHandled :: bool
  cs_timeoutReply :: "(Delivery \<Rightarrow> err \<Rightarrow> bytes option) option"
  cs_describe :: string

text \<open>
  What settlement reads of a consumer: its spec, the name of its queue, the exchange
  replies go to, and how an out-of-range float header converts (see theory \<open>Headers\<close>).
\<close>

record consumer_ctx =
  cc_spec :: consumerSpec
  cc_queue :: string
  cc_callbacks :: string
  cc_conv :: "float64 \<Rightarrow> int"

definition contentTypeOctetStream :: string where
  "contentTypeOctetStream = ''application/octet-stream''"

definition publishReply ::
  "env \<Rightarrow> consumer_ctx \<Rightarrow> nat \<Rightarrow> Delivery \<Rightarrow> bytes \<Rightarrow> headers \<Rightarrow> history \<Rightarrow> err option \<times> history" where
  "publishReply E c pub d body hs h =
     perform E (PublishMsg pub (cc_callbacks c) (d_ReplyTo d) False
       (empty_publishing
          \<lparr>p_ContentType := contentTypeOctetStream, p_CorrelationId := d_CorrelationId d,
           p_Headers := hs, p_Body := body\<rparr>)) h"

definition replyError ::
  "env \<Rightarrow> consumer_ctx \<Rightarrow> nat \<Rightarrow> Delivery \<Rightarrow> bytes option \<Rightarrow> history \<Rightarrow> history" where
  "replyError E c pub d body h =
     (case body of
        None \<Rightarrow> h
      | Some b \<Rightarrow> if d_ReplyTo d = '''' then h else snd (publishReply E c pub d b Map.empty h))"

definition originalRoutingKey :: "Delivery \<Rightarrow> string" where
  "originalRoutingKey d = d_RoutingKey d"

definition republishedHeaders :: "Delivery \<Rightarrow> headers" where
  "republishedHeaders d = (d_Headers d)(''CC'' := None, ''BCC'' := None)"

definition firstFailure :: "env \<Rightarrow> consumer_ctx \<Rightarrow> Delivery \<Rightarrow> history \<Rightarrow> hval" where
  "firstFailure E c d h =
     (case d_Headers d headerFirstFailure of
        Some v \<Rightarrow>
          (case headerInt (cc_conv c) v of
             Some n \<Rightarrow> if n \<noteq> 0 then v else VInt64 (env_now E h)
           | None \<Rightarrow> VInt64 (env_now E h))
      | None \<Rightarrow> VInt64 (env_now E h))"

text \<open>The copies. Attempts are non-negative int32 values, so \<open>attempt + 1\<close> does not wrap.\<close>

definition retry_copy :: "env \<Rightarrow> consumer_ctx \<Rightarrow> Delivery \<Rightarrow> int \<Rightarrow> err \<Rightarrow> history \<Rightarrow> Publishing" where
  "retry_copy E c d attempt cause h =
     (carriedProperties d)
       \<lparr>p_Headers := (republishedHeaders d)
          (headerRetryCount \<mapsto> intHeader (of_int (attempt + 1)),
           headerOriginalKey \<mapsto> VString (originalRoutingKey d),
           headerFirstFailure \<mapsto> firstFailure E c d h,
           headerLastError \<mapsto> VString (safeErrorSummary (Some cause))),
        p_DeliveryMode := 2,
        p_CorrelationId := d_CorrelationId d,
        p_MessageId := d_MessageId d,
        p_ReplyTo := d_ReplyTo d,
        p_Body := d_Body d\<rparr>"

definition publishRetry ::
  "env \<Rightarrow> consumer_ctx \<Rightarrow> nat \<Rightarrow> retrySpec \<Rightarrow> Delivery \<Rightarrow> int \<Rightarrow> err \<Rightarrow> history \<Rightarrow> err option \<times> history" where
  "publishRetry E c pub rs d attempt cause h =
     perform E (PublishMsg pub (rs_exchange rs) (originalRoutingKey d) True
       (retry_copy E c d attempt cause h)) h"

definition dead_letter_copy :: "env \<Rightarrow> consumer_ctx \<Rightarrow> Delivery \<Rightarrow> int \<Rightarrow> err \<Rightarrow> history \<Rightarrow> Publishing" where
  "dead_letter_copy E c d attempt cause h =
     (carriedProperties d)
       \<lparr>p_Headers := (republishedHeaders d)
          (headerRetryCount \<mapsto> intHeader (of_int attempt),
           headerOriginalKey \<mapsto> VString (originalRoutingKey d),
           headerOriginalQueue \<mapsto> VString (cc_queue c),
           headerFirstFailure \<mapsto> firstFailure E c d h,
           headerDeadLetterTime \<mapsto> VInt64 (env_now E h),
           headerLastError \<mapsto> VString (safeErrorSummary (Some cause))),
        p_DeliveryMode := 2,
        p_CorrelationId := d_CorrelationId d,
        p_MessageId := d_MessageId d,
        p_Body := d_Body d\<rparr>"

definition publishDeadLetter ::
  "env \<Rightarrow> consumer_ctx \<Rightarrow> nat \<Rightarrow> retrySpec \<Rightarrow> Delivery \<Rightarrow> int \<Rightarrow> err \<Rightarrow> history \<Rightarrow> err option \<times> history" where
  "publishDeadLetter E c pub rs d attempt cause h =
     perform E (PublishMsg pub '''' (rs_dlq rs) True (dead_letter_copy E c d attempt cause h)) h"

definition ack :: "env \<Rightarrow> Delivery \<Rightarrow> history \<Rightarrow> history" where
  "ack E d h = snd (perform E (AckMsg (d_DeliveryTag d)) h)"

definition requeueLater :: "env \<Rightarrow> consumer_ctx \<Rightarrow> Delivery \<Rightarrow> history \<Rightarrow> history" where
  "requeueLater E c d h =
     (if \<not> cs_lateAck (cc_spec c) then h else snd (perform E (NackMsg (d_DeliveryTag d) True) h))"

definition deadLetter ::
  "env \<Rightarrow> consumer_ctx \<Rightarrow> nat \<Rightarrow> retrySpec \<Rightarrow> Delivery \<Rightarrow> int \<Rightarrow> handlerResult \<Rightarrow> err \<Rightarrow> history \<Rightarrow> history" where
  "deadLetter E c pub rs d attempt res cause h =
     (let h1 = replyError E c pub d (hr_errReply res) h;
          (e, h2) = publishDeadLetter E c pub rs d attempt cause h1
      in if e \<noteq> None then requeueLater E c d h2 else ack E d h2)"

definition settle :: "env \<Rightarrow> consumer_ctx \<Rightarrow> nat \<Rightarrow> Delivery \<Rightarrow> handlerResult \<Rightarrow> history \<Rightarrow> history" where
  "settle E c pub d res h =
     (let spec = cc_spec c in
      case hr_err res of
        None \<Rightarrow>
          (let (e, h1) =
             (case hr_reply res of
                Some b \<Rightarrow> if d_ReplyTo d \<noteq> '''' then publishReply E c pub d b Map.empty h else (None, h)
              | None \<Rightarrow> (None, h))
           in if e \<noteq> None then requeueLater E c d h1
              else if cs_lateAck spec then ack E d h1 else h1)
      | Some cause \<Rightarrow>
          if \<not> cs_lateAck spec then replyError E c pub d (hr_errReply res) h
          else
            (case cs_retry spec of
               Some rs \<Rightarrow>
                 if \<not> hr_handled res then
                   (let attempt = retryCount (cc_conv c) (d_Headers d) in
                    if attempt < rs_maxRetries rs then
                      (let (e, h1) = publishRetry E c pub rs d attempt cause h
                       in if e \<noteq> None then requeueLater E c d h1 else ack E d h1)
                    else deadLetter E c pub rs d attempt res cause h)
                 else if cs_dlqHandled spec then
                   deadLetter E c pub rs d (retryCount (cc_conv c) (d_Headers d)) res cause h
                 else
                   snd (perform E (RejectMsg (d_DeliveryTag d) False)
                     (replyError E c pub d (hr_errReply res) h))
             | None \<Rightarrow>
                 snd (perform E (RejectMsg (d_DeliveryTag d) False)
                   (replyError E c pub d (hr_errReply res) h))))"

text \<open>
  \<open>run\<close>: the handler's outcome, a result or a panic's text, raced against the processing
  timeout. \<open>overran\<close> says the timer fired before the handler returned and before it
  disarmed the timeout. The second component is the cause the run cancels the context with.
\<close>

definition panic_result :: "consumerSpec \<Rightarrow> Delivery \<Rightarrow> err \<Rightarrow> handlerResult" where
  "panic_result spec d e =
     \<lparr>hr_reply = None, hr_err = Some e,
      hr_errReply = (case cs_timeoutReply spec of None \<Rightarrow> None | Some f \<Rightarrow> f d e), hr_handled = False\<rparr>"

definition run ::
  "consumerSpec \<Rightarrow> Delivery \<Rightarrow> string + handlerResult \<Rightarrow> bool \<Rightarrow> handlerResult \<times> err option" where
  "run spec d outcome overran =
     (let finished =
        (case outcome of
           Inl v \<Rightarrow> panic_result spec d (new_error (''protobus: handler panicked: '' @ v))
         | Inr r \<Rightarrow> r)
      in if cs_timeout spec \<le> 0 \<or> \<not> overran then (finished, None)
         else let e = ProcessingTimeout (d_CorrelationId d) (cs_timeout spec)
              in (panic_result spec d e, Some e))"

text \<open>
  \<open>process\<close>. \<open>cancelled\<close> is the cause with which the delivery's context was cancelled
  before the run ended (by the caller, the lost connection or the closing bus), if it was:
  the first cause of a context wins.
\<close>

definition process ::
  "env \<Rightarrow> consumer_ctx \<Rightarrow> nat \<Rightarrow> Delivery \<Rightarrow> string + handlerResult \<Rightarrow> bool \<Rightarrow> err option \<Rightarrow> history \<Rightarrow> history" where
  "process E c pub d outcome overran cancelled h =
     (let spec = cc_spec c;
          (early, h0) = (if cs_lateAck spec then (None, h) else perform E (AckMsg (d_DeliveryTag d)) h)
      in if early \<noteq> None then h0
         else
           let (res, timeout) = run spec d outcome overran;
               cause = (case cancelled of Some e \<Rightarrow> Some e | None \<Rightarrow> timeout);
               caused_by = (\<lambda>s. case cause of None \<Rightarrow> False | Some e \<Rightarrow> errors_is e s)
           in if caused_by ErrCancelled then (if cs_lateAck spec then ack E d h0 else h0)
              else if caused_by ErrDisconnected \<or> caused_by ErrClosed then h0
              else settle E c pub d res h0)"

section \<open>Lemmas\<close>

fun is_settlement :: "amqp_op \<Rightarrow> bool" where
  "is_settlement (AckMsg t) = True"
| "is_settlement (NackMsg t r) = True"
| "is_settlement (RejectMsg t r) = True"
| "is_settlement op = False"

definition settlements :: "(amqp_op \<times> err option) list \<Rightarrow> amqp_op list" where
  "settlements t = filter is_settlement (map fst t)"

lemma settlements_simps [simp]:
  "settlements [] = []"
  "settlements ((op, r) # t) = (if is_settlement op then op # settlements t else settlements t)"
  by (simp_all add: settlements_def)

lemma settlements_append [simp]: "settlements (s @ t) = settlements s @ settlements t"
  by (simp add: settlements_def)

text \<open>
  \<open>quiet h h1\<close>: the calls from \<open>h\<close> to \<open>h1\<close> settle nothing. \<open>settled d ok h h1\<close>: they
  settle delivery \<open>d\<close> exactly once, as the last call, and acknowledge it only after calls
  that satisfy \<open>ok\<close>.
\<close>

definition quiet :: "history \<Rightarrow> history \<Rightarrow> bool" where
  "quiet h h1 \<longleftrightarrow> (\<exists>t. h1 = h @ t \<and> settlements t = [])"

definition settled :: "Delivery \<Rightarrow> ((amqp_op \<times> err option) list \<Rightarrow> bool) \<Rightarrow> history \<Rightarrow> history \<Rightarrow> bool" where
  "settled d ok h h1 \<longleftrightarrow>
     (\<exists>t op r. h1 = h @ t @ [(op, r)] \<and> settlements t = [] \<and>
        (op = AckMsg (d_DeliveryTag d) \<and> ok t \<or> op = NackMsg (d_DeliveryTag d) True \<or>
         op = RejectMsg (d_DeliveryTag d) False))"

lemma quiet_refl [intro]: "quiet h h"
  by (simp add: quiet_def)

lemma quiet_perform: "quiet h h1 \<Longrightarrow> \<not> is_settlement op \<Longrightarrow> quiet h (snd (perform E op h1))"
  by (auto simp: quiet_def perform_def)

lemma quiet_publish: "quiet h h1 \<Longrightarrow> quiet h (snd (perform E (PublishMsg p x k mnd m) h1))"
  by (rule quiet_perform) simp_all

lemma quiet_replyError: "quiet h h1 \<Longrightarrow> quiet h (replyError E c pub d body h1)"
  by (simp add: replyError_def publishReply_def quiet_publish split: option.split)

lemma settled_ack:
  "quiet h h1 \<Longrightarrow> ok (new_calls h h1) \<Longrightarrow> settled d ok h (ack E d h1)"
  by (auto simp: quiet_def settled_def ack_def perform_def)

lemma settled_requeue:
  "quiet h h1 \<Longrightarrow> cs_lateAck (cc_spec c) \<Longrightarrow> settled d ok h (requeueLater E c d h1)"
  by (auto simp: quiet_def settled_def requeueLater_def perform_def)

lemma settled_reject:
  "quiet h h1 \<Longrightarrow> settled d ok h (snd (perform E (RejectMsg (d_DeliveryTag d) False) h1))"
  by (auto simp: quiet_def settled_def perform_def)

text \<open>
  The publish that must be confirmed before a delivery is acknowledged: the reply of a
  successful request, the retry or dead-letter copy of a failed one.
\<close>

definition confirmed_copy :: "consumer_ctx \<Rightarrow> Delivery \<Rightarrow> (amqp_op \<times> err option) list \<Rightarrow> bool" where
  "confirmed_copy c d t \<longleftrightarrow>
     (\<exists>rs pub x k m. cs_retry (cc_spec c) = Some rs \<and> (PublishMsg pub x k True m, None) \<in> set t \<and>
        p_Body m = d_Body d \<and> p_MessageId m = d_MessageId d \<and> p_CorrelationId m = d_CorrelationId d \<and>
        (x = rs_exchange rs \<and> k = d_RoutingKey d \<or> x = '''' \<and> k = rs_dlq rs))"

definition confirmed_reply :: "consumer_ctx \<Rightarrow> Delivery \<Rightarrow> bytes option \<Rightarrow> (amqp_op \<times> err option) list \<Rightarrow> bool" where
  "confirmed_reply c d reply t \<longleftrightarrow>
     (\<forall>b. reply = Some b \<and> d_ReplyTo d \<noteq> '''' \<longrightarrow>
        (\<exists>pub m. (PublishMsg pub (cc_callbacks c) (d_ReplyTo d) False m, None) \<in> set t \<and> p_Body m = b \<and>
           p_CorrelationId m = d_CorrelationId d))"

definition safe_ack :: "consumer_ctx \<Rightarrow> Delivery \<Rightarrow> handlerResult \<Rightarrow> (amqp_op \<times> err option) list \<Rightarrow> bool" where
  "safe_ack c d res t \<longleftrightarrow>
     (case hr_err res of None \<Rightarrow> confirmed_reply c d (hr_reply res) t | Some _ \<Rightarrow> confirmed_copy c d t)"

lemma dead_letter_copy_simps [simp]:
  "p_Body (dead_letter_copy E c d attempt cause h) = d_Body d"
  "p_MessageId (dead_letter_copy E c d attempt cause h) = d_MessageId d"
  "p_CorrelationId (dead_letter_copy E c d attempt cause h) = d_CorrelationId d"
  "p_ReplyTo (dead_letter_copy E c d attempt cause h) = ''''"
  by (simp_all add: dead_letter_copy_def carriedProperties_def empty_publishing_def)

lemma retry_copy_simps [simp]:
  "p_Body (retry_copy E c d attempt cause h) = d_Body d"
  "p_MessageId (retry_copy E c d attempt cause h) = d_MessageId d"
  "p_CorrelationId (retry_copy E c d attempt cause h) = d_CorrelationId d"
  "p_ReplyTo (retry_copy E c d attempt cause h) = d_ReplyTo d"
  by (simp_all add: retry_copy_def)

lemma replyError_prefix: "\<exists>t. replyError E c pub d body h = h @ t"
  by (simp add: replyError_def publishReply_def perform_def split: option.split)

lemma deadLetter_settled:
  assumes "cs_lateAck (cc_spec c)" "cs_retry (cc_spec c) = Some rs"
  shows "settled d (confirmed_copy c d) h (deadLetter E c pub rs d attempt res cause h)"
proof -
  define h1 where "h1 = replyError E c pub d (hr_errReply res) h"
  obtain e h2 where p: "publishDeadLetter E c pub rs d attempt cause h1 = (e, h2)" by fastforce
  have "quiet h h1" unfolding h1_def by (rule quiet_replyError) (rule quiet_refl)
  then have q: "quiet h h2"
    using quiet_publish p unfolding publishDeadLetter_def by (metis snd_conv)
  have "confirmed_copy c d (new_calls h h2)" if "e = None"
  proof -
    obtain t where "h1 = h @ t" using replyError_prefix h1_def by metis
    then have "h2 = h @ t @ [(PublishMsg pub '''' (rs_dlq rs) True (dead_letter_copy E c d attempt cause h1), None)]"
      using p that by (auto simp: publishDeadLetter_def perform_def)
    then have "(PublishMsg pub '''' (rs_dlq rs) True (dead_letter_copy E c d attempt cause h1), None)
        \<in> set (new_calls h h2)" by simp
    then show ?thesis using assms(2) dead_letter_copy_simps unfolding confirmed_copy_def by metis
  qed
  then show ?thesis
    using q assms(1) p by (auto simp: deadLetter_def h1_def [symmetric] intro: settled_ack settled_requeue)
qed

lemma retry_settled:
  assumes "cs_lateAck (cc_spec c)" "cs_retry (cc_spec c) = Some rs"
    and p: "publishRetry E c pub rs d attempt cause h = (e, h1)"
  shows "settled d (confirmed_copy c d) h (if e \<noteq> None then requeueLater E c d h1 else ack E d h1)"
proof -
  have q: "quiet h h1"
    using p quiet_publish [OF quiet_refl] unfolding publishRetry_def by (metis snd_conv)
  have "confirmed_copy c d (new_calls h h1)" if "e = None"
  proof -
    have "(PublishMsg pub (rs_exchange rs) (d_RoutingKey d) True (retry_copy E c d attempt cause h), None)
        \<in> set (new_calls h h1)"
      using p that by (auto simp: publishRetry_def perform_def originalRoutingKey_def)
    then show ?thesis using assms(2) retry_copy_simps unfolding confirmed_copy_def by metis
  qed
  then show ?thesis using q assms(1) by (auto intro: settled_ack settled_requeue)
qed

lemma settle_settled:
  assumes late: "cs_lateAck (cc_spec c)"
  shows "settled d (safe_ack c d res) h (settle E c pub d res h)"
proof (cases "hr_err res")
  case None
  define r where "r = (case hr_reply res of
      Some b \<Rightarrow> if d_ReplyTo d \<noteq> '''' then publishReply E c pub d b Map.empty h else (None, h)
    | None \<Rightarrow> (None, h))"
  have q: "quiet h (snd r)"
    by (simp add: r_def publishReply_def quiet_publish quiet_refl split: option.split)
  have "safe_ack c d res (new_calls h (snd r))" if "fst r = None"
    using that None
    by (auto simp: r_def safe_ack_def confirmed_reply_def publishReply_def perform_def
        split: option.splits if_splits)
  then show ?thesis
    using q late None by (auto simp: settle_def r_def [symmetric] Let_def split: prod.split
        intro: settled_ack settled_requeue)
next
  case (Some cause)
  then have ok: "safe_ack c d res = confirmed_copy c d" by (simp add: safe_ack_def fun_eq_iff)
  have rej: "settled d ok h (snd (perform E (RejectMsg (d_DeliveryTag d) False)
      (replyError E c pub d (hr_errReply res) h)))" for ok
    by (intro settled_reject quiet_replyError quiet_refl)
  show ?thesis
  proof (cases "cs_retry (cc_spec c)")
    case None
    then show ?thesis using Some late rej by (simp add: settle_def ok Let_def)
  next
    case rs: (Some rs)
    obtain e h1 where p: "publishRetry E c pub rs d (retryCount (cc_conv c) (d_Headers d)) cause h = (e, h1)"
      by fastforce
    show ?thesis
      using Some late rs rej retry_settled [OF late rs p] deadLetter_settled [OF late rs] p
      by (simp add: settle_def ok Let_def)
  qed
qed

lemma settle_early:
  assumes "\<not> cs_lateAck (cc_spec c)"
  shows "quiet h (settle E c pub d res h)"
proof (cases "hr_err res")
  case None
  then show ?thesis using assms
    by (simp add: settle_def requeueLater_def publishReply_def quiet_publish quiet_refl Let_def
        split: option.split prod.split) (metis quiet_publish quiet_refl snd_conv)
next
  case (Some e)
  then show ?thesis using assms by (simp add: settle_def Let_def quiet_replyError quiet_refl)
qed

text \<open>The delivery of a message a retry queue hands back: the retry topology keeps its key.\<close>

definition redeliver :: "Publishing \<Rightarrow> Delivery \<Rightarrow> Delivery" where
  "redeliver m d =
     d\<lparr>d_Headers := p_Headers m, d_ContentType := p_ContentType m, d_ContentEncoding := p_ContentEncoding m,
       d_DeliveryMode := p_DeliveryMode m, d_Priority := p_Priority m, d_CorrelationId := p_CorrelationId m,
       d_ReplyTo := p_ReplyTo m, d_Expiration := p_Expiration m, d_MessageId := p_MessageId m,
       d_Timestamp := p_Timestamp m, d_Type := p_Type m, d_UserId := p_UserId m, d_AppId := p_AppId m,
       d_Body := p_Body m\<rparr>"

text \<open>
  A message whose handler fails on every attempt: settle it, and while the last settlement
  parked a copy on the retry queue, settle that copy's redelivery.
\<close>

fun ladder ::
  "env \<Rightarrow> consumer_ctx \<Rightarrow> nat \<Rightarrow> retrySpec \<Rightarrow> handlerResult \<Rightarrow> err \<Rightarrow> nat \<Rightarrow> Delivery \<Rightarrow> history \<Rightarrow> history" where
  "ladder E c pub rs res cause 0 d h = h"
| "ladder E c pub rs res cause (Suc n) d h =
     (let h1 = settle E c pub d res h;
          attempt = retryCount (cc_conv c) (d_Headers d)
      in if attempt < rs_maxRetries rs
         then ladder E c pub rs res cause n (redeliver (retry_copy E c d attempt cause h) d) h1
         else h1)"

fun to_exchange :: "string \<Rightarrow> amqp_op \<Rightarrow> bool" where
  "to_exchange x (PublishMsg pub y k mnd m) = (x = y)"
| "to_exchange x op = False"

definition publishes_to :: "string \<Rightarrow> (amqp_op \<times> err option) list \<Rightarrow> nat" where
  "publishes_to x t = length (filter (\<lambda>(op, r). to_exchange x op) t)"

lemma publishes_to_simps [simp]:
  "publishes_to x [] = 0"
  "publishes_to x (s @ t) = publishes_to x s + publishes_to x t"
  "publishes_to x [(op, r)] = (if to_exchange x op then 1 else 0)"
  by (simp_all add: publishes_to_def)

lemma retryCount_copy:
  assumes "retryCount (cc_conv c) (d_Headers d) < 2 ^ 31 - 1"
  shows "retryCount (cc_conv c) (d_Headers (redeliver (retry_copy E c d (retryCount (cc_conv c) (d_Headers d)) cause h) d)) =
    retryCount (cc_conv c) (d_Headers d) + 1"
proof -
  let ?a = "retryCount (cc_conv c) (d_Headers d)"
  have a: "0 \<le> ?a" using retryCount_bounds by blast
  have s: "sint (of_int (?a + 1) :: 64 word) = ?a + 1"
    using a assms by (intro sint_of_int_64) simp_all
  have "d_Headers (redeliver (retry_copy E c d ?a cause h) d) headerRetryCount = Some (intHeader (of_int (?a + 1)))"
    by (simp add: redeliver_def retry_copy_def header_names)
  then show ?thesis
    using s a assms by (simp add: retryCount_def [of _ "d_Headers (redeliver _ _)"] hget_def headerInt_intHeader)
qed

text \<open>The calls of one failing attempt when every call succeeds.\<close>

lemma settle_retry_calls:
  assumes "cs_lateAck (cc_spec c)" "cs_retry (cc_spec c) = Some rs" "hr_err res = Some cause" "\<not> hr_handled res"
    and "\<And>h op. env_err E h op = None" "retryCount (cc_conv c) (d_Headers d) < rs_maxRetries rs"
  shows "settle E c pub d res h =
    h @ [(PublishMsg pub (rs_exchange rs) (d_RoutingKey d) True
            (retry_copy E c d (retryCount (cc_conv c) (d_Headers d)) cause h), None),
         (AckMsg (d_DeliveryTag d), None)]"
  using assms
  by (simp add: settle_def publishRetry_def perform_def ack_def Let_def originalRoutingKey_def)

lemma settle_dead_letter_calls:
  assumes "cs_lateAck (cc_spec c)" "cs_retry (cc_spec c) = Some rs" "hr_err res = Some cause" "\<not> hr_handled res"
    and "\<And>h op. env_err E h op = None" "\<not> retryCount (cc_conv c) (d_Headers d) < rs_maxRetries rs"
    and "cc_callbacks c \<noteq> ''''" "rs_exchange rs \<noteq> cc_callbacks c" "rs_exchange rs \<noteq> ''''"
  shows "\<exists>t. settle E c pub d res h = h @ t \<and> publishes_to (rs_exchange rs) t = 0 \<and>
    publishes_to '''' t = 1 \<and> length (settlements t) = 1"
  using assms
  by (cases "hr_errReply res")
     (simp_all add: settle_def deadLetter_def publishDeadLetter_def replyError_def publishReply_def
        perform_def ack_def Let_def publishes_to_def)

lemma ladder_calls:
  assumes "cs_lateAck (cc_spec c)" "cs_retry (cc_spec c) = Some rs" "hr_err res = Some cause" "\<not> hr_handled res"
    and "\<And>h op. env_err E h op = None"
    and "cc_callbacks c \<noteq> ''''" "rs_exchange rs \<noteq> cc_callbacks c" "rs_exchange rs \<noteq> ''''"
    and "rs_maxRetries rs \<le> 2 ^ 31 - 1"
  shows "k = nat (rs_maxRetries rs - retryCount (cc_conv c) (d_Headers d)) \<Longrightarrow> k < n \<Longrightarrow>
    \<exists>t. ladder E c pub rs res cause n d h = h @ t \<and> publishes_to (rs_exchange rs) t = k \<and>
      publishes_to '''' t = 1 \<and> length (settlements t) = Suc k"
proof (induction k arbitrary: n d h)
  case 0
  then obtain m where n: "n = Suc m" by (cases n) simp_all
  have "\<not> retryCount (cc_conv c) (d_Headers d) < rs_maxRetries rs" using 0 by simp
  then show ?case
    using settle_dead_letter_calls [OF assms(1-5) _ assms(6-8), of d pub h] by (simp add: n)
next
  case (Suc k)
  let ?a = "retryCount (cc_conv c) (d_Headers d)"
  let ?d = "redeliver (retry_copy E c d ?a cause h) d"
  obtain m where n: "n = Suc m" using Suc.prems by (cases n) simp_all
  have lt: "?a < rs_maxRetries rs" using Suc.prems by simp
  have "retryCount (cc_conv c) (d_Headers ?d) = ?a + 1"
    by (rule retryCount_copy) (use lt assms(9) in simp)
  then have "k = nat (rs_maxRetries rs - retryCount (cc_conv c) (d_Headers ?d))" and "k < m"
    using Suc.prems n by simp_all
  from Suc.IH [OF this, of "settle E c pub d res h"]
  show ?case using lt assms(8)
    by (auto simp: n Let_def settle_retry_calls [OF assms(1-5) lt] publishes_to_def)
qed

section \<open>Properties\<close>

text \<open>
  C3. Nothing is lost in settlement. Under late ack, whatever the handler returned and
  whichever calls fail, a delivery is settled exactly once, by the last call; and it is
  acknowledged only after the broker has confirmed what replaces it: the reply to the
  caller, or the copy with the same body and ids on the retry exchange or in the
  dead-letter queue. Otherwise it is requeued or, where no retries are configured, rejected.
\<close>

theorem settle_once_after_confirm:
  assumes "cs_lateAck (cc_spec c)"
  shows "\<exists>t op r. settle E c pub d res h = h @ t @ [(op, r)] \<and> settlements t = [] \<and>
    (op = AckMsg (d_DeliveryTag d) \<and>
       (case hr_err res of
          None \<Rightarrow> confirmed_reply c d (hr_reply res) t
        | Some _ \<Rightarrow> confirmed_copy c d t) \<or>
     op = NackMsg (d_DeliveryTag d) True \<or> op = RejectMsg (d_DeliveryTag d) False)"
  using settle_settled [OF assms, of d res h E pub] by (simp add: settled_def safe_ack_def)

definition spec_late :: consumerSpec where
  "spec_late =
     \<lparr>cs_queue = ''Calc'', cs_queueArgs = [], cs_exchange = ''bus'', cs_lateAck = True, cs_prefetch = 10,
      cs_concurrency = 0, cs_timeout = 0,
      cs_retry = Some \<lparr>rs_maxRetries = 2, rs_exchange = ''Calc.Retry.Exchange'', rs_queue = ''Calc.Retry'', rs_dlq = ''Calc.DLQ''\<rparr>,
      cs_dlqHandled = False, cs_timeoutReply = None, cs_describe = ''Calc''\<rparr>"

definition ctx_late :: consumer_ctx where
  "ctx_late = \<lparr>cc_spec = spec_late, cc_queue = ''Calc'', cc_callbacks = ''callbacks'', cc_conv = \<lambda>_. 0\<rparr>"

definition delivery1 :: Delivery where
  "delivery1 =
     \<lparr>d_Headers = Map.empty, d_ContentType = '''', d_ContentEncoding = '''', d_DeliveryMode = 2, d_Priority = 0,
      d_CorrelationId = ''c1'', d_ReplyTo = ''r1'', d_Expiration = '''', d_MessageId = ''m1'', d_Timestamp = 0,
      d_Type = '''', d_UserId = '''', d_AppId = '''', d_DeliveryTag = 1, d_Redelivered = False,
      d_Exchange = ''bus'', d_RoutingKey = ''REQUEST.Calc.add'', d_Body = ''xyz''\<rparr>"

definition failing :: handlerResult where
  "failing = \<lparr>hr_reply = None, hr_err = Some (new_error ''boom''), hr_errReply = None, hr_handled = False\<rparr>"

theorem settle_once_after_confirm_witness:
  "\<exists>t op r. settle reliable ctx_late 0 delivery1 failing [] = t @ [(op, r)] \<and> settlements t = []"
  using settle_once_after_confirm [of ctx_late reliable 0 delivery1 failing "[]"]
  by (auto simp: ctx_late_def spec_late_def)

text \<open>
  C11. The retry ladder ends. A message whose handler fails on every attempt is republished to
  the retry exchange exactly as often as it has retries left, then dead-lettered exactly
  once, and every attempt is settled once.
\<close>

theorem retries_bounded_then_dead_letter:
  assumes "cs_lateAck (cc_spec c)" "cs_retry (cc_spec c) = Some rs" "hr_err res = Some cause" "\<not> hr_handled res"
    and "\<And>h op. env_err E h op = None"
    and "cc_callbacks c \<noteq> ''''" "rs_exchange rs \<noteq> cc_callbacks c" "rs_exchange rs \<noteq> ''''"
    and "rs_maxRetries rs \<le> 2 ^ 31 - 1"
    and "nat (rs_maxRetries rs - retryCount (cc_conv c) (d_Headers d)) < n"
  shows "\<exists>t. ladder E c pub rs res cause n d h = h @ t \<and>
    publishes_to (rs_exchange rs) t = nat (rs_maxRetries rs - retryCount (cc_conv c) (d_Headers d)) \<and>
    publishes_to '''' t = 1 \<and>
    length (settlements t) = Suc (nat (rs_maxRetries rs - retryCount (cc_conv c) (d_Headers d)))"
  using ladder_calls [OF assms(1-9) refl assms(10)] by blast

theorem retries_bounded_then_dead_letter_witness:
  "\<exists>t. ladder reliable ctx_late 0 (the (cs_retry spec_late)) failing (new_error ''boom'') 3 delivery1 [] = t \<and>
     publishes_to ''Calc.Retry.Exchange'' t = 2 \<and> publishes_to '''' t = 1 \<and> length (settlements t) = 3"
  using retries_bounded_then_dead_letter [of ctx_late "the (cs_retry spec_late)" failing "new_error ''boom''"
      reliable delivery1 3 0 "[]"]
  by (simp add: ctx_late_def spec_late_def failing_def reliable_def delivery1_def retryCount_def hget_def)

lemma run_cause: "run spec d outcome overran = (res, cause) \<Longrightarrow>
    cause = None \<or> (\<exists>i l. cause = Some (ProcessingTimeout i l))"
  by (auto simp: run_def Let_def split: if_splits)

text \<open>
  \<open>ended_by cancelled s\<close>: the delivery's context was cancelled from outside for the reason
  \<open>s\<close>. The processing timeout is none of the three reasons \<open>process\<close> asks about.
\<close>

definition ended_by :: "err option \<Rightarrow> sentinel \<Rightarrow> bool" where
  "ended_by cancelled s \<longleftrightarrow> (case cancelled of None \<Rightarrow> False | Some e \<Rightarrow> errors_is e s)"

lemma process_by_cause:
  "process E c pub d outcome overran cancelled h =
     (let (early, h0) = (if cs_lateAck (cc_spec c) then (None, h) else perform E (AckMsg (d_DeliveryTag d)) h)
      in if early \<noteq> None then h0
         else if ended_by cancelled ErrCancelled then (if cs_lateAck (cc_spec c) then ack E d h0 else h0)
         else if ended_by cancelled ErrDisconnected \<or> ended_by cancelled ErrClosed then h0
         else settle E c pub d (fst (run (cc_spec c) d outcome overran)) h0)"
proof -
  obtain res cause where r: "run (cc_spec c) d outcome overran = (res, cause)" by fastforce
  show ?thesis using run_cause [OF r]
    by (cases cancelled) (auto simp: process_def ended_by_def Let_def r errors_is_def split: prod.split)
qed

text \<open>
  What a call may publish: a reply, to the caller only; a copy on the consumer's own retry
  exchange under the key of the delivery; or a copy straight to its dead-letter queue.
\<close>

definition own_copy :: "Delivery \<Rightarrow> int \<Rightarrow> string \<Rightarrow> Publishing \<Rightarrow> bool" where
  "own_copy d count reply_to m \<longleftrightarrow>
     p_Headers m ''CC'' = None \<and> p_Headers m ''BCC'' = None \<and>
     p_Headers m headerOriginalKey = Some (VString (d_RoutingKey d)) \<and>
     p_Headers m headerRetryCount = Some (intHeader (of_int count)) \<and>
     p_Expiration m = '''' \<and> p_UserId m = '''' \<and> p_DeliveryMode m = 2 \<and>
     p_ReplyTo m = reply_to \<and> p_CorrelationId m = d_CorrelationId d \<and> p_MessageId m = d_MessageId d \<and>
     p_Body m = d_Body d"

fun own_route :: "consumer_ctx \<Rightarrow> nat \<Rightarrow> Delivery \<Rightarrow> amqp_op \<Rightarrow> bool" where
  "own_route c pub d (PublishMsg ch x key mandatory m) =
     (let attempt = retryCount (cc_conv c) (d_Headers d) in
      ch = pub \<and>
      (x = cc_callbacks c \<and> key = d_ReplyTo d \<and> key \<noteq> '''' \<and> \<not> mandatory \<and>
         p_CorrelationId m = d_CorrelationId d \<and> p_Headers m = Map.empty \<or>
       cs_lateAck (cc_spec c) \<and> mandatory \<and>
         (case cs_retry (cc_spec c) of
            None \<Rightarrow> False
          | Some rs \<Rightarrow>
              x = rs_exchange rs \<and> key = d_RoutingKey d \<and> attempt < rs_maxRetries rs \<and> own_copy d (attempt + 1) (d_ReplyTo d) m \<or>
              x = '''' \<and> key = rs_dlq rs \<and> own_copy d attempt '''' m)))"
| "own_route c pub d (AckMsg t) = (t = d_DeliveryTag d)"
| "own_route c pub d (NackMsg t requeue) = (t = d_DeliveryTag d \<and> requeue)"
| "own_route c pub d (RejectMsg t requeue) = (t = d_DeliveryTag d \<and> \<not> requeue)"
| "own_route c pub d op = False"

definition stays :: "consumer_ctx \<Rightarrow> nat \<Rightarrow> Delivery \<Rightarrow> history \<Rightarrow> history \<Rightarrow> bool" where
  "stays c pub d h h1 \<longleftrightarrow> (\<exists>t. h1 = h @ t \<and> list_all (\<lambda>(op, r). own_route c pub d op) t)"

lemma stays_refl [intro, simp]: "stays c pub d h h"
  by (simp add: stays_def)

lemma stays_perform: "stays c pub d h h1 \<Longrightarrow> own_route c pub d op \<Longrightarrow> stays c pub d h (snd (perform E op h1))"
  by (auto simp: stays_def perform_def)

lemma stays_ack: "stays c pub d h h1 \<Longrightarrow> stays c pub d h (ack E d h1)"
  by (simp add: ack_def stays_perform)

lemma stays_requeueLater: "stays c pub d h h1 \<Longrightarrow> stays c pub d h (requeueLater E c d h1)"
  by (simp add: requeueLater_def stays_perform)

lemma stays_publishReply: "stays c pub d h h1 \<Longrightarrow> d_ReplyTo d \<noteq> '''' \<Longrightarrow> stays c pub d h (snd (publishReply E c pub d b Map.empty h1))"
  unfolding publishReply_def by (rule stays_perform) (simp_all add: empty_publishing_def)

lemma stays_replyError: "stays c pub d h h1 \<Longrightarrow> stays c pub d h (replyError E c pub d body h1)"
  by (simp add: replyError_def stays_publishReply split: option.split)

lemma stays_publishRetry:
  assumes "stays c pub d h h1" "cs_lateAck (cc_spec c)" "cs_retry (cc_spec c) = Some rs"
    and "retryCount (cc_conv c) (d_Headers d) < rs_maxRetries rs"
  shows "stays c pub d h (snd (publishRetry E c pub rs d (retryCount (cc_conv c) (d_Headers d)) cause h1))"
  unfolding publishRetry_def using assms
  by (intro stays_perform) (simp_all add: own_copy_def retry_copy_def carriedProperties_def empty_publishing_def
      republishedHeaders_def originalRoutingKey_def header_names)

lemma stays_publishDeadLetter:
  assumes "stays c pub d h h1" "cs_lateAck (cc_spec c)" "cs_retry (cc_spec c) = Some rs"
  shows "stays c pub d h (snd (publishDeadLetter E c pub rs d (retryCount (cc_conv c) (d_Headers d)) cause h1))"
  unfolding publishDeadLetter_def using assms
  by (intro stays_perform) (simp_all add: own_copy_def dead_letter_copy_def carriedProperties_def empty_publishing_def
      republishedHeaders_def originalRoutingKey_def header_names)

lemma stays_deadLetter:
  assumes "stays c pub d h h1" "cs_lateAck (cc_spec c)" "cs_retry (cc_spec c) = Some rs"
  shows "stays c pub d h (deadLetter E c pub rs d (retryCount (cc_conv c) (d_Headers d)) res cause h1)"
  using stays_publishDeadLetter [OF stays_replyError [OF assms(1)] assms(2,3)]
  by (auto simp: deadLetter_def Let_def split_beta intro: stays_ack stays_requeueLater)

lemma stays_settle: "stays c pub d h h1 \<Longrightarrow> stays c pub d h (settle E c pub d res h1)"
  by (auto simp: settle_def Let_def split_beta split: option.split
      intro!: stays_ack stays_requeueLater stays_publishReply stays_replyError stays_publishRetry stays_deadLetter stays_perform)

lemma stays_process: "stays c pub d h (process E c pub d outcome overran cancelled h)"
  unfolding process_by_cause
  by (auto simp: Let_def split_beta intro!: stays_settle stays_ack stays_perform)

lemma process_late:
  assumes "cs_lateAck (cc_spec c)" "\<not> ended_by cancelled ErrCancelled"
    and "\<not> ended_by cancelled ErrDisconnected" "\<not> ended_by cancelled ErrClosed"
  shows "\<exists>t op r. process E c pub d outcome overran cancelled h = h @ t @ [(op, r)] \<and> settlements t = [] \<and>
    op \<in> {AckMsg (d_DeliveryTag d), NackMsg (d_DeliveryTag d) True, RejectMsg (d_DeliveryTag d) False}"
proof -
  have "process E c pub d outcome overran cancelled h = settle E c pub d (fst (run (cc_spec c) d outcome overran)) h"
    using assms by (simp add: process_by_cause)
  then show ?thesis
    using settle_settled [OF assms(1), of d "fst (run (cc_spec c) d outcome overran)" h E pub]
    by (auto simp: settled_def)
qed

lemma process_early:
  assumes "\<not> cs_lateAck (cc_spec c)"
  shows "\<exists>t. process E c pub d outcome overran cancelled h =
      h @ (AckMsg (d_DeliveryTag d), env_err E h (AckMsg (d_DeliveryTag d))) # t \<and> settlements t = [] \<and>
      (env_err E h (AckMsg (d_DeliveryTag d)) \<noteq> None \<or> ended_by cancelled ErrCancelled \<or>
       ended_by cancelled ErrDisconnected \<or> ended_by cancelled ErrClosed \<longrightarrow> t = [])"
proof -
  let ?h = "h @ [(AckMsg (d_DeliveryTag d), env_err E h (AckMsg (d_DeliveryTag d)))]"
  have "quiet ?h (settle E c pub d (fst (run (cc_spec c) d outcome overran)) ?h)" by (rule settle_early [OF assms])
  then show ?thesis
    using assms by (auto simp: process_by_cause Let_def perform_def quiet_def)
qed

text \<open>
  C31. How often a delivery is settled. Under late ack: a call the caller cancelled is
  acknowledged and nothing else is sent; one whose connection was lost or whose bus closed
  is left untouched, to its redelivery; every other delivery is settled exactly once, by
  the last call made for it. Under early ack the acknowledgement is the first call made,
  nothing settles the delivery again, and when it fails, or the delivery was ended from
  outside, nothing else is sent.
\<close>

theorem process_settles_at_most_once:
  "let tag = d_DeliveryTag d; acked = (AckMsg tag, env_err E h (AckMsg tag));
       t = new_calls h (process E c pub d outcome overran cancelled h)
   in process E c pub d outcome overran cancelled h = h @ t \<and>
     (if cs_lateAck (cc_spec c)
      then if ended_by cancelled ErrCancelled then t = [acked]
           else if ended_by cancelled ErrDisconnected \<or> ended_by cancelled ErrClosed then t = []
           else \<exists>t1 op r. t = t1 @ [(op, r)] \<and> settlements t1 = [] \<and>
                  op \<in> {AckMsg tag, NackMsg tag True, RejectMsg tag False}
      else \<exists>t1. t = acked # t1 \<and> settlements t1 = [] \<and>
             (snd acked \<noteq> None \<or> ended_by cancelled ErrCancelled \<or> ended_by cancelled ErrDisconnected \<or>
              ended_by cancelled ErrClosed \<longrightarrow> t1 = []))"
proof (cases "cs_lateAck (cc_spec c)")
  case True
  show ?thesis
  proof (cases "ended_by cancelled ErrCancelled \<or> ended_by cancelled ErrDisconnected \<or> ended_by cancelled ErrClosed")
    case False
    then obtain t op r where "process E c pub d outcome overran cancelled h = h @ t @ [(op, r)]" "settlements t = []"
        "op \<in> {AckMsg (d_DeliveryTag d), NackMsg (d_DeliveryTag d) True, RejectMsg (d_DeliveryTag d) False}"
      using process_late [OF True, of cancelled E pub d outcome overran h] by auto
    with True False show ?thesis by (simp add: Let_def)
  qed (use True in \<open>auto simp: process_by_cause Let_def ack_def perform_def\<close>)
next
  case False
  then show ?thesis using process_early [OF False, of E pub d outcome overran cancelled h] by (auto simp: Let_def)
qed

theorem process_settles_at_most_once_witness:
  "new_calls [] (process reliable ctx_late 0 delivery1 (Inr failing) False (Some (Sentinel ErrCancelled)) []) = [(AckMsg 1, None)] \<and>
   new_calls [] (process reliable ctx_late 0 delivery1 (Inr failing) False (Some (Sentinel ErrClosed)) []) = [] \<and>
   length (settlements (new_calls [] (process reliable ctx_late 0 delivery1 (Inr failing) False None []))) = 1"
proof -
  note p = process_settles_at_most_once [of delivery1 reliable "[]" ctx_late 0 "Inr failing" False, unfolded Let_def]
  have "ended_by (Some (Sentinel ErrCancelled)) ErrCancelled" "\<not> ended_by (Some (Sentinel ErrClosed)) ErrCancelled"
    "ended_by (Some (Sentinel ErrClosed)) ErrClosed" "\<not> ended_by None s" for s
    by (simp_all add: ended_by_def errors_is_def)
  with p [of "Some (Sentinel ErrCancelled)"] p [of "Some (Sentinel ErrClosed)"] p [of None]
  show ?thesis by (auto simp: ctx_late_def spec_late_def delivery1_def reliable_def)
qed



end
