(* ===== verification/Streams.thy ===== *)
theory Streams imports Consumer Wire begin

text \<open>
  Server streaming, both ends: \<open>serverStream\<close> of \<open>stream.go\<close>, which publishes the frames,
  and \<open>clientStream\<close> of \<open>dispatcher.go\<close>, which buffers them. The main result joins the two:
  whatever the broker loses, repeats or reorders, the caller reads a prefix of what the
  handler sent, and a stream that ends without an error is complete.

  A context is \<open>None\<close> while it is live, otherwise its error and its cause. Encoding a
  message is the protobuf library's: its result is an argument. Sequence numbers keep
  their 64 bits on the sending side; on the receiving side they are the non-negative
  integers \<open>streamSeq\<close> reads.
\<close>

section \<open>The sending side\<close>

record serverStream =
  ss_seq :: "64 word"
  ss_pending :: "bytes option"
  ss_err :: "err option"
  ss_done :: bool

record stream_ctx =
  sc_consumer :: consumer_ctx
  sc_pub :: nat
  sc_d :: Delivery
  sc_method :: string
  sc_expose :: bool
  sc_pw :: protowire

type_synonym live = "(err \<times> err) option"

definition new_serverStream :: serverStream where
  "new_serverStream = \<lparr>ss_seq = 0, ss_pending = None, ss_err = None, ss_done = False\<rparr>"

lemma new_serverStream_simps [simp]:
  "ss_seq new_serverStream = 0" "ss_pending new_serverStream = None" "ss_err new_serverStream = None"
  "\<not> ss_done new_serverStream"
  by (simp_all add: new_serverStream_def)

definition caller_cancelled :: "live \<Rightarrow> bool" where
  "caller_cancelled cx = (case cx of None \<Rightarrow> False | Some (e, cause) \<Rightarrow> errors_is cause ErrCancelled)"

definition stream_ended :: "err \<Rightarrow> err" where
  "stream_ended cause = wrap1 (''protobus: stream ended: '' @ error_text cause) cause"

definition frame_headers :: "64 word \<Rightarrow> bool \<Rightarrow> headers" where
  "frame_headers seq final = [headerFinal \<mapsto> VBool final, headerSeq \<mapsto> intHeader seq]"

definition ss_publish ::
  "env \<Rightarrow> stream_ctx \<Rightarrow> live \<Rightarrow> bytes \<Rightarrow> bool \<Rightarrow> serverStream \<Rightarrow> history \<Rightarrow> err option \<times> serverStream \<times> history" where
  "ss_publish E sc cx body final s h =
     (if d_ReplyTo (sc_d sc) = '''' then (None, s\<lparr>ss_seq := ss_seq s + 1\<rparr>, h)
      else if caller_cancelled cx then (Some (stream_ended (Sentinel ErrCancelled)), s, h)
      else
        let (e, h1) = publishReply E (sc_consumer sc) (sc_pub sc) (sc_d sc) body
              (frame_headers (ss_seq s) final) h
        in (e, if e = None then s\<lparr>ss_seq := ss_seq s + 1\<rparr> else s, h1))"

definition result_body :: "stream_ctx \<Rightarrow> bytes \<Rightarrow> bytes" where
  "result_body sc data =
     fst (AppendResponse (sc_pw sc) []
       \<lparr>resp_Result = Some \<lparr>res_Method = sc_method sc, res_Data = data\<rparr>, resp_Error = None\<rparr>)"

definition SendMsg ::
  "env \<Rightarrow> stream_ctx \<Rightarrow> live \<Rightarrow> (err, bytes) result \<Rightarrow> serverStream \<Rightarrow> history \<Rightarrow>
   err option \<times> serverStream \<times> history" where
  "SendMsg E sc cx marshalled s h =
     (case cx of
        Some (e, cause) \<Rightarrow> (Some (stream_ended cause), s, h)
      | None \<Rightarrow>
          (case marshalled of
             Inl err \<Rightarrow>
               (Some (wrap1 (''protobus: encoding a stream response of '' @ sc_method sc @ '': '' @ error_text err) err), s, h)
           | Inr data \<Rightarrow>
               let body = result_body sc data in
               if ss_done s then (Some (Sentinel ErrStreamFinished), s, h)
               else if ss_err s \<noteq> None then (ss_err s, s, h)
               else
                 (case ss_pending s of
                    None \<Rightarrow> (None, s\<lparr>ss_pending := Some body\<rparr>, h)
                  | Some p \<Rightarrow>
                      let (e, s1, h1) = ss_publish E sc cx p False s h
                      in if e \<noteq> None then (e, s1\<lparr>ss_err := e\<rparr>, h1)
                         else (None, s1\<lparr>ss_pending := Some body\<rparr>, h1))))"

definition serviceErrorBody :: "stream_ctx \<Rightarrow> err \<Rightarrow> bytes" where
  "serviceErrorBody sc e =
     (let ce = sanitizeForCaller e (sc_expose sc)
      in fst (AppendResponse (sc_pw sc) []
           \<lparr>resp_Result = None,
            resp_Error = Some \<lparr>err_Method = sc_method sc, err_Message = ce_Message ce, err_Code = ce_Code ce\<rparr>\<rparr>))"

definition finish ::
  "env \<Rightarrow> stream_ctx \<Rightarrow> live \<Rightarrow> err option \<Rightarrow> serverStream \<Rightarrow> history \<Rightarrow> err option \<times> serverStream \<times> history" where
  "finish E sc cx handlerErr s0 h =
     (let s = s0\<lparr>ss_done := True\<rparr> in
      if caller_cancelled cx then (None, s, h)
      else if ss_err s \<noteq> None then (ss_err s, s, h)
      else
        (case handlerErr of
           None \<Rightarrow> ss_publish E sc cx (case ss_pending s of None \<Rightarrow> [] | Some b \<Rightarrow> b) True s h
         | Some he \<Rightarrow>
             (case ss_pending s of
                None \<Rightarrow> ss_publish E sc cx (serviceErrorBody sc he) True s h
              | Some p \<Rightarrow>
                  let (e, s1, h1) = ss_publish E sc cx p False s h
                  in if e \<noteq> None then (e, s1, h1)
                     else ss_publish E sc cx (serviceErrorBody sc he) True s1 h1)))"

text \<open>
  \<open>serveStream\<close>: the handler is the messages it sends, each with the state of the context
  at that moment, and the error it returns. It may go on after a failed send.
\<close>

fun is_payload :: "err \<Rightarrow> err option" where
  "is_payload (PayloadError e) = Some e"
| "is_payload e = None"

text \<open>\<open>lastSegment\<close> of \<open>client.go\<close>: what follows the last dot.\<close>

definition lastSegment :: "string \<Rightarrow> string" where
  "lastSegment s = drop (nat (last_index_byte s dot + 1)) s"

definition stream_error :: "string \<Rightarrow> err option \<Rightarrow> err option" where
  "stream_error method err =
     (case err of
        None \<Rightarrow> None
      | Some e \<Rightarrow>
          if first_some is_payload (preorder e) \<noteq> None
          then Some (newProtocolError (''payload did not decode as the request type of '' @ method))
          else if errors_is e ErrUnimplemented
          then Some (newProtocolError (''invalid service method '' @ lastSegment method))
          else Some e)"

fun run_sends ::
  "env \<Rightarrow> stream_ctx \<Rightarrow> (live \<times> (err, bytes) result) list \<Rightarrow> serverStream \<Rightarrow> history \<Rightarrow> serverStream \<times> history" where
  "run_sends E sc [] s h = (s, h)"
| "run_sends E sc ((cx, m) # ms) s h =
     (let (e, s1, h1) = SendMsg E sc cx m s h in run_sends E sc ms s1 h1)"

definition serveStream ::
  "env \<Rightarrow> stream_ctx \<Rightarrow> (live \<times> (err, bytes) result) list \<Rightarrow> err option \<Rightarrow> live \<Rightarrow> history \<Rightarrow> handlerResult \<times> history" where
  "serveStream E sc sends err cx h =
     (let (s, h1) = run_sends E sc sends new_serverStream h;
          (perr, s2, h2) = finish E sc cx (stream_error (sc_method sc) err) s h1
      in (\<lparr>hr_reply = None, hr_err = perr, hr_errReply = None, hr_handled = False\<rparr>, h2))"

section \<open>The receiving side\<close>

record clientStream =
  cl_id :: string
  cl_max_chunks :: int
  cl_max_bytes :: int
  cl_max_total :: int
  cl_chunks :: "bytes list"
  cl_bytes :: int
  cl_lastSeq :: int
  cl_ended :: bool
  cl_err :: "err option"

definition newStream :: "string \<Rightarrow> int \<Rightarrow> int \<Rightarrow> int \<Rightarrow> clientStream" where
  "newStream i mc mb mt =
     \<lparr>cl_id = i, cl_max_chunks = mc, cl_max_bytes = mb, cl_max_total = mt, cl_chunks = [], cl_bytes = 0,
      cl_lastSeq = -1, cl_ended = False, cl_err = None\<rparr>"

text \<open>
  The operations also change the number of bytes buffered across all streams, which the
  dispatcher keeps: it is the second component of their state. Each runs under the
  stream's lock and is one step here.
\<close>

definition dropBufferLocked :: "clientStream \<times> int \<Rightarrow> clientStream \<times> int" where
  "dropBufferLocked st =
     (case st of (s, buffered) \<Rightarrow> (s\<lparr>cl_bytes := 0, cl_chunks := []\<rparr>, buffered - cl_bytes s))"

definition sequence_error :: "int \<Rightarrow> int \<Rightarrow> string \<Rightarrow> err" where
  "sequence_error seq expected i =
     wrap1 (sentinel_text ErrStreamSequence @ '': got seq '' @ format_int seq @ '', expected '' @
         format_int expected @ '' (stream '' @ i @ '')'') (Sentinel ErrStreamSequence)"

definition backpressure_error :: "clientStream \<Rightarrow> int \<Rightarrow> int \<Rightarrow> err" where
  "backpressure_error s n tot =
     wrap1 (sentinel_text ErrStreamBackpressure @ '': '' @ format_int (int (length (cl_chunks s)) + 1) @
         '' chunks / '' @ format_int (cl_bytes s + n) @ '' bytes buffered for this call, '' @ format_int tot @
         '' across all calls (limits '' @ format_int (cl_max_chunks s) @ '' / '' @ format_int (cl_max_bytes s) @
         '' / '' @ format_int (cl_max_total s) @ ''); the caller is not keeping up with the producer'')
       (Sentinel ErrStreamBackpressure)"

text \<open>
  The bytes of a refused chunk are added to the shared counter and taken off again at once;
  the two atomic operations are one step here. A push of another stream that ran between
  them would see a larger total and could only be refused in its turn.
\<close>

definition push_body :: "bool \<Rightarrow> bytes \<Rightarrow> clientStream \<times> int \<Rightarrow> clientStream \<times> int" where
  "push_body final body st =
     (case st of (s, buffered) \<Rightarrow>
        let n = int (length body) in
        if n > 0 then
          let tot = buffered + n in
          if int (length (cl_chunks s)) + 1 > cl_max_chunks s \<or> cl_bytes s + n > cl_max_bytes s \<or>
             tot > cl_max_total s
          then dropBufferLocked (s\<lparr>cl_err := Some (backpressure_error s n tot), cl_ended := True\<rparr>, buffered)
          else (s\<lparr>cl_chunks := cl_chunks s @ [body], cl_bytes := cl_bytes s + n,
                  cl_ended := cl_ended s \<or> final\<rparr>, tot)
        else (s\<lparr>cl_ended := cl_ended s \<or> final\<rparr>, buffered))"

definition push :: "(float64 \<Rightarrow> int) \<Rightarrow> Delivery \<Rightarrow> clientStream \<times> int \<Rightarrow> clientStream \<times> int" where
  "push conv dl st =
     (case st of (s, buffered) \<Rightarrow>
        let final = streamFinal conv (d_Headers dl) in
        if cl_ended s then (s, buffered)
        else
          (case streamSeq conv (d_Headers dl) of
             None \<Rightarrow> push_body final (d_Body dl) (s, buffered)
           | Some seq \<Rightarrow>
               let expected = cl_lastSeq s + 1 in
               if seq < expected then (s\<lparr>cl_ended := cl_ended s \<or> final\<rparr>, buffered)
               else if seq > expected
               then dropBufferLocked (s\<lparr>cl_err := Some (sequence_error seq expected (cl_id s)), cl_ended := True\<rparr>, buffered)
               else push_body final (d_Body dl) (s\<lparr>cl_lastSeq := seq\<rparr>, buffered)))"

definition fail :: "err \<Rightarrow> clientStream \<times> int \<Rightarrow> clientStream \<times> int" where
  "fail e st =
     (case st of (s, buffered) \<Rightarrow>
        if cl_ended s \<and> cl_err s = None then (s, buffered)
        else if \<not> cl_ended s then dropBufferLocked (s\<lparr>cl_err := Some e, cl_ended := True\<rparr>, buffered)
        else (s, buffered))"

text \<open>\<open>next\<close>: the chunk if there is one, whether the stream is done, its error; and the state.\<close>

definition next_chunk :: "clientStream \<times> int \<Rightarrow> (bytes option \<times> bool \<times> err option) \<times> clientStream \<times> int" where
  "next_chunk st =
     (case st of (s, buffered) \<Rightarrow>
        if cl_err s \<noteq> None then ((None, True, cl_err s), s, buffered)
        else
          (case cl_chunks s of
             c # cs \<Rightarrow>
               ((Some c, False, None),
                s\<lparr>cl_chunks := cs, cl_bytes := cl_bytes s - int (length c)\<rparr>, buffered - int (length c))
           | [] \<Rightarrow> ((None, cl_ended s, None), s, buffered)))"

definition finished :: "clientStream \<Rightarrow> bool" where
  "finished s \<longleftrightarrow> cl_ended s \<and> cl_err s = None"

text \<open>The part of \<open>release\<close> that concerns the stream itself.\<close>

definition release_stream :: "clientStream \<times> int \<Rightarrow> clientStream \<times> int" where
  "release_stream st =
     (case st of (s, buffered) \<Rightarrow>
        dropBufferLocked
          (s\<lparr>cl_ended := True,
             cl_err := (if cl_err s = None then Some (Sentinel errStreamReleased) else cl_err s)\<rparr>, buffered))"

section \<open>What is sent\<close>

definition frame_op :: "stream_ctx \<Rightarrow> 64 word \<Rightarrow> bool \<Rightarrow> bytes \<Rightarrow> amqp_op" where
  "frame_op sc seq final body =
     PublishMsg (sc_pub sc) (cc_callbacks (sc_consumer sc)) (d_ReplyTo (sc_d sc)) False
       (empty_publishing
          \<lparr>p_ContentType := contentTypeOctetStream, p_CorrelationId := d_CorrelationId (sc_d sc),
           p_Headers := frame_headers seq final, p_Body := body\<rparr>)"

text \<open>Confirmed frames that are not final, numbered from \<open>w\<close>.\<close>

fun open_frames :: "stream_ctx \<Rightarrow> 64 word \<Rightarrow> (amqp_op \<times> err option) list \<Rightarrow> bool" where
  "open_frames sc w [] = True"
| "open_frames sc w ((op, r) # t) \<longleftrightarrow>
     (\<exists>b. op = frame_op sc w False b) \<and> r = None \<and> open_frames sc (w + 1) t"

text \<open>Frames numbered from \<open>w\<close> of which only the last can be final or unconfirmed.\<close>

definition numbered :: "stream_ctx \<Rightarrow> 64 word \<Rightarrow> (amqp_op \<times> err option) list \<Rightarrow> bool" where
  "numbered sc w t \<longleftrightarrow>
     open_frames sc w t \<or>
     (\<exists>t1 f b r. t = t1 @ [(frame_op sc (w + of_nat (length t1)) f b, r)] \<and> open_frames sc w t1)"

lemma open_frames_append:
  "open_frames sc w (s @ t) \<longleftrightarrow> open_frames sc w s \<and> open_frames sc (w + of_nat (length s)) t"
  by (induction s arbitrary: w) (auto simp: add.assoc)

lemma open_frames_snoc:
  "open_frames sc w t \<Longrightarrow> open_frames sc w (t @ [(frame_op sc (w + of_nat (length t)) False b, None)])"
  by (auto simp: open_frames_append)

lemma ss_publish_cases:
  "ss_publish E sc cx body final s h = (e, s1, h1) \<Longrightarrow>
     (h1 = h \<and> (d_ReplyTo (sc_d sc) = '''' \<or> e \<noteq> None) \<or>
      h1 = h @ [(frame_op sc (ss_seq s) final body, e)] \<and> d_ReplyTo (sc_d sc) \<noteq> '''') \<and>
     s1 = (if e = None then s\<lparr>ss_seq := ss_seq s + 1\<rparr> else s)"
  by (auto simp: ss_publish_def publishReply_def perform_def frame_op_def Let_def split: if_splits)

text \<open>
  The invariant of a stream between calls: as long as nothing failed, what was published
  are open frames numbered from 0 and the counter is their number; once something failed
  nothing more is published.
\<close>

definition ss_inv :: "stream_ctx \<Rightarrow> serverStream \<Rightarrow> (amqp_op \<times> err option) list \<Rightarrow> bool" where
  "ss_inv sc s t \<longleftrightarrow>
     numbered sc 0 t \<and>
     (ss_err s = None \<longrightarrow> open_frames sc 0 t \<and> (d_ReplyTo (sc_d sc) \<noteq> '''' \<longrightarrow> ss_seq s = of_nat (length t)))"

lemma ss_inv_publish:
  assumes "ss_inv sc s t" "ss_err s = None" "ss_publish E sc cx body False s (h @ t) = (e, s1, h1)"
  shows "\<exists>u. h1 = h @ u \<and> numbered sc 0 u \<and>
    (e = None \<longrightarrow> open_frames sc 0 u \<and> (d_ReplyTo (sc_d sc) \<noteq> '''' \<longrightarrow> ss_seq s1 = of_nat (length u)))"
proof -
  from assms have o: "open_frames sc 0 t" and q: "d_ReplyTo (sc_d sc) \<noteq> '''' \<Longrightarrow> ss_seq s = of_nat (length t)"
    by (simp_all add: ss_inv_def)
  from ss_publish_cases [OF assms(3)]
  consider "h1 = h @ t" "d_ReplyTo (sc_d sc) = '''' \<or> e \<noteq> None"
    | "h1 = h @ t @ [(frame_op sc (ss_seq s) False body, e)]" "d_ReplyTo (sc_d sc) \<noteq> ''''" by auto
  then show ?thesis
  proof cases
    case 1
    then show ?thesis using o by (auto simp: numbered_def)
  next
    case 2
    let ?u = "t @ [(frame_op sc (of_nat (length t)) False body, e)]"
    have "numbered sc 0 ?u" using o by (auto simp: numbered_def)
    moreover have "open_frames sc 0 ?u" if "e = None" using open_frames_snoc [OF o, of body] that by simp
    ultimately show ?thesis
      using 2 q ss_publish_cases [OF assms(3)] by (intro exI [of _ ?u]) auto
  qed
qed

lemma ss_inv_SendMsg:
  assumes "ss_inv sc s t" "SendMsg E sc cx m s (h @ t) = (e, s1, h1)"
  shows "\<exists>u. h1 = h @ u \<and> ss_inv sc s1 u"
proof (cases "cx = None \<and> (\<exists>d p. m = Inr d \<and> \<not> ss_done s \<and> ss_err s = None \<and> ss_pending s = Some p)")
  case False
  then show ?thesis using assms
    by (auto simp: SendMsg_def Let_def ss_inv_def split: option.splits sum.splits if_splits)
next
  case True
  then obtain d p where c: "cx = None" "m = Inr d" "\<not> ss_done s" "ss_err s = None" "ss_pending s = Some p" by auto
  obtain e2 s2 h2 where p: "ss_publish E sc None p False s (h @ t) = (e2, s2, h2)" using prod_cases3 by blast
  have s2: "ss_err s2 = None" using ss_publish_cases [OF p] c by (auto split: if_splits)
  show ?thesis
    using ss_inv_publish [OF assms(1) c(4) p] assms(2) c p s2
    by (auto simp: SendMsg_def Let_def ss_inv_def split: if_splits)
qed

lemma ss_inv_run_sends:
  "ss_inv sc s t \<Longrightarrow> run_sends E sc ms s (h @ t) = (s1, h1) \<Longrightarrow> \<exists>u. h1 = h @ u \<and> ss_inv sc s1 u"
proof (induction ms arbitrary: s t)
  case (Cons m ms)
  obtain cx x where m: "m = (cx, x)" by fastforce
  obtain e s2 h2 where p: "SendMsg E sc cx x s (h @ t) = (e, s2, h2)" using prod_cases3 by blast
  obtain u where "h2 = h @ u" "ss_inv sc s2 u" using ss_inv_SendMsg [OF Cons.prems(1) p] by blast
  with Cons.IH Cons.prems(2) show ?case by (simp add: m p)
qed auto

text \<open>The last call of a run is the final frame, confirmed.\<close>

definition ends_final :: "stream_ctx \<Rightarrow> (amqp_op \<times> err option) list \<Rightarrow> bool" where
  "ends_final sc t \<longleftrightarrow> (\<exists>t1 seq b. t = t1 @ [(frame_op sc seq True b, None)])"

lemma final_publish:
  assumes "open_frames sc 0 t" "d_ReplyTo (sc_d sc) \<noteq> '''' \<longrightarrow> ss_seq s = of_nat (length t)"
    and "ss_publish E sc cx body True s (h @ t) = (e, s1, h1)"
  shows "\<exists>u. h1 = h @ u \<and> numbered sc 0 u \<and> (e = None \<and> d_ReplyTo (sc_d sc) \<noteq> '''' \<longrightarrow> ends_final sc u)"
proof -
  from ss_publish_cases [OF assms(3)]
  consider "h1 = h @ t" "d_ReplyTo (sc_d sc) = '''' \<or> e \<noteq> None"
    | "h1 = h @ t @ [(frame_op sc (ss_seq s) True body, e)]" "d_ReplyTo (sc_d sc) \<noteq> ''''" by auto
  then show ?thesis
  proof cases
    case 1
    then show ?thesis using assms(1) by (auto simp: numbered_def)
  next
    case 2
    then show ?thesis using assms(1,2)
      by (intro exI [of _ "t @ [(frame_op sc (of_nat (length t)) True body, e)]"])
         (auto simp: numbered_def ends_final_def)
  qed
qed

lemma finish_frames:
  assumes "ss_inv sc s t" "finish E sc cx he s (h @ t) = (e, s1, h1)"
  shows "\<exists>u. h1 = h @ u \<and> numbered sc 0 u \<and>
    (e = None \<and> d_ReplyTo (sc_d sc) \<noteq> '''' \<and> \<not> caller_cancelled cx \<longrightarrow> ends_final sc u)"
proof (cases "caller_cancelled cx \<or> ss_err s \<noteq> None")
  case True
  then have "h1 = h @ t" "caller_cancelled cx \<or> e \<noteq> None"
    using assms(2) by (auto simp: finish_def Let_def split: if_splits)
  then show ?thesis using assms(1) by (auto simp: ss_inv_def)
next
  case False
  define s' where "s' = s\<lparr>ss_done := True\<rparr>"
  have err: "ss_err s' = None" and i: "ss_inv sc s' t" using False assms(1) by (auto simp: s'_def ss_inv_def)
  have fin: "finish E sc cx he s (h @ t) =
      (case he of
         None \<Rightarrow> ss_publish E sc cx (case ss_pending s' of None \<Rightarrow> [] | Some b \<Rightarrow> b) True s' (h @ t)
       | Some x \<Rightarrow>
           (case ss_pending s' of
              None \<Rightarrow> ss_publish E sc cx (serviceErrorBody sc x) True s' (h @ t)
            | Some p \<Rightarrow>
                (case ss_publish E sc cx p False s' (h @ t) of (e, s1, h1) \<Rightarrow>
                   if e \<noteq> None then (e, s1, h1)
                   else ss_publish E sc cx (serviceErrorBody sc x) True s1 h1)))"
    using False by (simp add: finish_def s'_def Let_def split: option.split)
  have last: "\<exists>u. h1 = h @ u \<and> numbered sc 0 u \<and> (e = None \<and> d_ReplyTo (sc_d sc) \<noteq> '''' \<longrightarrow> ends_final sc u)"
    if "ss_publish E sc cx b True s' (h @ t) = (e, s1, h1)" for b
    by (rule final_publish [OF _ _ that]) (use i err in \<open>simp_all add: ss_inv_def\<close>)
  show ?thesis
  proof (cases "he = None \<or> ss_pending s' = None")
    case True
    then show ?thesis using assms(2) last unfolding fin by (auto split: option.splits)
  next
    case False
    then obtain x p where xp: "he = Some x" "ss_pending s' = Some p" by auto
    obtain e2 s2 h2 where p: "ss_publish E sc cx p False s' (h @ t) = (e2, s2, h2)" using prod_cases3 by blast
    obtain u where u: "h2 = h @ u" "numbered sc 0 u" "e2 = None \<longrightarrow> open_frames sc 0 u \<and>
        (d_ReplyTo (sc_d sc) \<noteq> '''' \<longrightarrow> ss_seq s2 = of_nat (length u))"
      using ss_inv_publish [OF i err p] by blast
    show ?thesis
      using assms(2) u final_publish [of sc u s2 E cx "serviceErrorBody sc x" h e s1 h1] unfolding fin
      by (auto simp: xp p split: if_splits)
  qed
qed

lemma serveStream_frames:
  assumes "serveStream E sc sends err cx h = (res, h1)"
  shows "\<exists>u. h1 = h @ u \<and> numbered sc 0 u \<and>
    (hr_err res = None \<and> d_ReplyTo (sc_d sc) \<noteq> '''' \<and> \<not> caller_cancelled cx \<longrightarrow> ends_final sc u)"
proof -
  obtain s h2 where r: "run_sends E sc sends new_serverStream h = (s, h2)" by fastforce
  obtain e s2 h3 where f: "finish E sc cx (stream_error (sc_method sc) err) s h2 = (e, s2, h3)"
    using prod_cases3 by blast
  have "ss_inv sc new_serverStream []" by (simp add: ss_inv_def numbered_def new_serverStream_def)
  then obtain u where u: "h2 = h @ u" "ss_inv sc s u"
    using ss_inv_run_sends [of sc new_serverStream "[]" E sends h] r by auto
  show ?thesis
    using finish_frames [OF u(2), of E cx "stream_error (sc_method sc) err" h] f assms u(1)
    by (auto simp: serveStream_def r)
qed

text \<open>What a run without failures publishes: the frames of these bodies, the last one final.\<close>

fun stream_frames :: "stream_ctx \<Rightarrow> 64 word \<Rightarrow> bytes list \<Rightarrow> (amqp_op \<times> err option) list" where
  "stream_frames sc w [] = []"
| "stream_frames sc w [b] = [(frame_op sc w True b, None)]"
| "stream_frames sc w (b # c # bs) = (frame_op sc w False b, None) # stream_frames sc (w + 1) (c # bs)"

definition stream_bodies :: "stream_ctx \<Rightarrow> bytes list \<Rightarrow> err option \<Rightarrow> bytes list" where
  "stream_bodies sc ds err =
     (case stream_error (sc_method sc) err of
        None \<Rightarrow> if ds = [] then [[]] else map (result_body sc) ds
      | Some e \<Rightarrow> map (result_body sc) ds @ [serviceErrorBody sc e])"

lemma stream_frames_split:
  assumes "bs \<noteq> []"
  shows "stream_frames sc w (b # bs) = (frame_op sc w False b, None) # stream_frames sc (w + 1) bs"
  using assms by (cases bs) simp_all

lemma ss_publish_ok:
  assumes "\<And>h op. env_err E h op = None" "d_ReplyTo (sc_d sc) \<noteq> ''''"
  shows "ss_publish E sc None body final s h =
    (None, s\<lparr>ss_seq := ss_seq s + 1\<rparr>, h @ [(frame_op sc (ss_seq s) final body, None)])"
  using assms by (simp add: ss_publish_def publishReply_def perform_def frame_op_def caller_cancelled_def)

text \<open>The rest of a run from a state with a frame in hand.\<close>

lemma run_from_pending:
  assumes ok: "\<And>h op. env_err E h op = None" "d_ReplyTo (sc_d sc) \<noteq> ''''"
    and "ss_pending s = Some p" "ss_err s = None" "\<not> ss_done s"
  shows "\<exists>s1 s2 h1. run_sends E sc (map (\<lambda>d. (None, Inr d)) ds) s h = (s1, h1) \<and>
    finish E sc None he s1 h1 =
      (None, s2, h @ stream_frames sc (ss_seq s)
        (p # map (result_body sc) ds @ (case he of None \<Rightarrow> [] | Some e \<Rightarrow> [serviceErrorBody sc e])))"
  using assms(3-5)
proof (induction ds arbitrary: s p h)
  case Nil
  then show ?case
    by (auto simp: finish_def Let_def caller_cancelled_def ss_publish_ok [OF ok] split: option.split)
next
  case (Cons d ds)
  have step: "SendMsg E sc None (Inr d) s h =
      (None, s\<lparr>ss_seq := ss_seq s + 1, ss_pending := Some (result_body sc d)\<rparr>,
       h @ [(frame_op sc (ss_seq s) False p, None)])"
    using Cons.prems by (simp add: SendMsg_def Let_def ss_publish_ok [OF ok])
  show ?case
    using Cons.IH [of "s\<lparr>ss_seq := ss_seq s + 1, ss_pending := Some (result_body sc d)\<rparr>" "result_body sc d"
        "h @ [(frame_op sc (ss_seq s) False p, None)]"] Cons.prems
    by (auto simp: step)
qed

lemma serveStream_ok:
  assumes ok: "\<And>h op. env_err E h op = None" "d_ReplyTo (sc_d sc) \<noteq> ''''"
  shows "serveStream E sc (map (\<lambda>d. (None, Inr d)) ds) err None h =
    (\<lparr>hr_reply = None, hr_err = None, hr_errReply = None, hr_handled = False\<rparr>,
     h @ stream_frames sc 0 (stream_bodies sc ds err))"
proof (cases ds)
  case Nil
  then show ?thesis
    by (auto simp: serveStream_def finish_def Let_def caller_cancelled_def ss_publish_ok [OF ok]
        stream_bodies_def new_serverStream_def split: option.split)
next
  case (Cons d ds)
  have step: "SendMsg E sc None (Inr d) new_serverStream h =
      (None, new_serverStream\<lparr>ss_pending := Some (result_body sc d)\<rparr>, h)"
    by (simp add: SendMsg_def new_serverStream_def Let_def)
  show ?thesis
    using run_from_pending [OF ok, of "new_serverStream\<lparr>ss_pending := Some (result_body sc d)\<rparr>" "result_body sc d"
        ds h "stream_error (sc_method sc) err"]
    by (auto simp: serveStream_def Cons step stream_bodies_def split: option.splits)
qed

section \<open>What is received\<close>

lemma streamFinal_frame [simp]: "streamFinal conv (frame_headers seq final) = final"
  by (simp add: streamFinal_def hget_def frame_headers_def header_names)

lemma streamSeq_frame: "0 \<le> sint seq \<Longrightarrow> streamSeq conv (frame_headers seq final) = Some (sint seq)"
  by (simp add: streamSeq_def frame_headers_def header_names headerInt_intHeader)

text \<open>Delivery \<open>dl\<close> carries frame \<open>i\<close> of the stream with these bodies.\<close>

definition is_frame :: "bytes list \<Rightarrow> nat \<Rightarrow> Delivery \<Rightarrow> bool" where
  "is_frame bs i dl \<longleftrightarrow>
     i < length bs \<and> d_Headers dl = frame_headers (of_nat i) (Suc i = length bs) \<and> d_Body dl = bs ! i"

lemma frame_reads:
  assumes "is_frame bs i dl" "length bs \<le> 2 ^ 63"
  shows "streamSeq conv (d_Headers dl) = Some (int i)"
    and "streamFinal conv (d_Headers dl) \<longleftrightarrow> Suc i = length bs"
    and "d_Body dl = bs ! i"
proof -
  have "sint (of_nat i :: 64 word) = int i"
    using assms sint_of_int_64 [of "int i"] by (simp add: is_frame_def)
  then show "streamSeq conv (d_Headers dl) = Some (int i)"
    using assms streamSeq_frame [of "of_nat i"] by (simp add: is_frame_def)
qed (use assms in \<open>simp_all add: is_frame_def\<close>)

text \<open>
  What happens to a stream while its caller reads it: frames arrive, the caller takes a
  chunk, the dispatcher fails it, the caller lets go of it, and other streams change the
  number of buffered bytes. The last component collects what the caller has taken.
\<close>

datatype client_op = Push Delivery | Next | Fail err | Release | Others int

fun client_step ::
  "(float64 \<Rightarrow> int) \<Rightarrow> client_op \<Rightarrow> clientStream \<times> int \<times> bytes list \<Rightarrow> clientStream \<times> int \<times> bytes list" where
  "client_step conv (Push dl) (s, b, y) = (case push conv dl (s, b) of (s1, b1) \<Rightarrow> (s1, b1, y))"
| "client_step conv Next (s, b, y) =
     (case next_chunk (s, b) of ((c, done, e), s1, b1) \<Rightarrow> (s1, b1, y @ (case c of None \<Rightarrow> [] | Some x \<Rightarrow> [x])))"
| "client_step conv (Fail e) (s, b, y) = (case fail e (s, b) of (s1, b1) \<Rightarrow> (s1, b1, y))"
| "client_step conv Release (s, b, y) = (case release_stream (s, b) of (s1, b1) \<Rightarrow> (s1, b1, y))"
| "client_step conv (Others n) (s, b, y) = (s, b + n, y)"

definition client_run ::
  "(float64 \<Rightarrow> int) \<Rightarrow> client_op list \<Rightarrow> clientStream \<times> int \<times> bytes list \<Rightarrow> clientStream \<times> int \<times> bytes list" where
  "client_run conv ops st = fold (client_step conv) ops st"

definition chunks_of :: "bytes list \<Rightarrow> bytes list" where
  "chunks_of bs = filter (\<lambda>b. b \<noteq> []) bs"

definition seen :: "clientStream \<Rightarrow> nat" where
  "seen s = nat (cl_lastSeq s + 1)"

text \<open>
  The invariant: before the end the caller has got, or has buffered, exactly the chunks of
  the frames seen so far; a clean end is the end of the stream; after a failure what the
  caller got is a prefix and nothing is buffered.
\<close>

definition client_inv :: "bytes list \<Rightarrow> clientStream \<times> int \<times> bytes list \<Rightarrow> bool" where
  "client_inv bs st \<longleftrightarrow>
     (case st of (s, b, y) \<Rightarrow>
        -1 \<le> cl_lastSeq s \<and> seen s \<le> length bs \<and>
        (case cl_err s of
           None \<Rightarrow> y @ cl_chunks s = chunks_of (take (seen s) bs) \<and> (cl_ended s \<longrightarrow> seen s = length bs)
         | Some _ \<Rightarrow> cl_chunks s = [] \<and> cl_ended s \<and> (\<exists>n. y = take n (chunks_of bs))))"

lemma chunks_take: "\<exists>n. chunks_of (take k bs) = take n (chunks_of bs)"
  by (metis append_eq_conv_conj append_take_drop_id chunks_of_def filter_append)

lemma prefix_of_chunks: "y @ cs = chunks_of (take k bs) \<Longrightarrow> \<exists>n. y = take n (chunks_of bs)"
proof -
  assume "y @ cs = chunks_of (take k bs)"
  moreover obtain m where "chunks_of (take k bs) = take m (chunks_of bs)" using chunks_take by blast
  ultimately have "y = take (length y) (take m (chunks_of bs))" by (metis append_eq_conv_conj)
  then show ?thesis by (metis take_take)
qed

lemma client_inv_fail:
  assumes "client_inv bs (s, b, y)" "cl_err s1 \<noteq> None" "cl_chunks s1 = []" "cl_ended s1"
    and "-1 \<le> cl_lastSeq s1" "nat (cl_lastSeq s1 + 1) \<le> length bs"
  shows "client_inv bs (s1, b1, y)"
  using assms prefix_of_chunks [of y "cl_chunks s" "seen s" bs]
  by (auto simp: client_inv_def seen_def split: option.splits)

lemma client_inv_push_body:
  assumes inv: "client_inv bs (s, b, y)" and live: "\<not> cl_ended s" "cl_err s = None"
    and i: "i < length bs" "cl_lastSeq s + 1 = int i" "final \<longleftrightarrow> Suc i = length bs"
  shows "client_inv bs (case push_body final (bs ! i) (s\<lparr>cl_lastSeq := int i\<rparr>, b) of (s1, b1) \<Rightarrow> (s1, b1, y))"
proof -
  have y: "y @ cl_chunks s = chunks_of (take i bs)"
    using inv live i by (simp add: client_inv_def seen_def)
  have nx: "chunks_of (take (Suc i) bs) = chunks_of (take i bs) @ (if bs ! i = [] then [] else [bs ! i])"
    using i(1) by (simp add: chunks_of_def take_Suc_conv_app_nth)
  have f: "client_inv bs (s1, b1, y)" if "cl_err s1 \<noteq> None" "cl_chunks s1 = []" "cl_ended s1" "cl_lastSeq s1 = int i" for s1 b1
    by (rule client_inv_fail [OF inv that(1-3)]) (use i that in auto)
  show ?thesis
  proof (cases "bs ! i \<noteq> [] \<and> (int (length (cl_chunks s)) + 1 > cl_max_chunks s \<or>
      cl_bytes s + int (length (bs ! i)) > cl_max_bytes s \<or> b + int (length (bs ! i)) > cl_max_total s)")
    case True
    then show ?thesis by (simp add: push_body_def Let_def dropBufferLocked_def f)
  next
    case False
    then show ?thesis
      using i live y nx by (auto simp: push_body_def Let_def client_inv_def seen_def nat_add_distrib)
  qed
qed

lemma client_inv_push:
  assumes inv: "client_inv bs (s, b, y)" and fr: "is_frame bs i dl" and len: "length bs \<le> 2 ^ 63"
  shows "client_inv bs (client_step conv (Push dl) (s, b, y))"
proof (cases "cl_ended s")
  case True
  then show ?thesis using inv by (simp add: push_def Let_def)
next
  case live: False
  then have e: "cl_err s = None" using inv by (auto simp: client_inv_def split: option.splits)
  note r = frame_reads [OF fr len]
  have q: "-1 \<le> cl_lastSeq s" "nat (cl_lastSeq s + 1) \<le> length bs" using inv by (simp_all add: client_inv_def seen_def)
  consider "int i < cl_lastSeq s + 1" | "int i > cl_lastSeq s + 1" | "cl_lastSeq s + 1 = int i" by linarith
  then show ?thesis
  proof cases
    case 1
    then show ?thesis using inv live e r q
      by (auto simp: push_def Let_def client_inv_def seen_def)
  next
    case 2
    then show ?thesis using 2 live r q
      by (simp add: push_def Let_def dropBufferLocked_def client_inv_fail [OF inv])
  next
    case 3
    have "i < length bs" using fr by (simp add: is_frame_def)
    from client_inv_push_body [OF inv live e this 3 refl] 3 live r
    show ?thesis by (simp add: push_def Let_def)
  qed
qed

lemma client_inv_step:
  assumes "client_inv bs st" "length bs \<le> 2 ^ 63" "\<And>dl. op = Push dl \<Longrightarrow> \<exists>i. is_frame bs i dl"
  shows "client_inv bs (client_step conv op st)"
proof -
  obtain s b y where st: "st = (s, b, y)" using prod_cases3 by blast
  note inv = assms(1) [unfolded st]
  have q: "-1 \<le> cl_lastSeq s" "nat (cl_lastSeq s + 1) \<le> length bs" using inv by (simp_all add: client_inv_def seen_def)
  show ?thesis
  proof (cases op)
    case (Push dl)
    then show ?thesis using client_inv_push [OF inv _ assms(2)] assms(3) st by blast
  next
    case Next
    then show ?thesis using inv
      by (auto simp: st next_chunk_def client_inv_def seen_def split: list.splits option.splits)
  next
    case (Fail e)
    then show ?thesis using inv q by (auto simp: st fail_def dropBufferLocked_def client_inv_fail [OF inv])
  next
    case Release
    then show ?thesis using q by (auto simp: st release_stream_def dropBufferLocked_def client_inv_fail [OF inv])
  next
    case (Others n)
    then show ?thesis using inv by (auto simp: st client_inv_def split: option.splits)
  qed
qed

lemma client_inv_run:
  "client_inv bs st \<Longrightarrow> length bs \<le> 2 ^ 63 \<Longrightarrow> (\<And>dl. Push dl \<in> set ops \<Longrightarrow> \<exists>i. is_frame bs i dl) \<Longrightarrow>
   client_inv bs (client_run conv ops st)"
proof (induction ops arbitrary: st)
  case (Cons op ops)
  have "client_inv bs (client_step conv op st)" by (rule client_inv_step [OF Cons.prems(1,2)]) (use Cons.prems(3) in auto)
  then show ?case using Cons by (simp add: client_run_def)
qed (simp add: client_run_def)

lemma client_inv_new: "client_inv bs (newStream i mc mb mt, b, [])"
  by (simp add: client_inv_def newStream_def seen_def chunks_of_def)

text \<open>Every published frame is a frame of the stream's bodies.\<close>

lemma frame_op_fields:
  assumes "frame_op sc w f b = PublishMsg p x k mnd m"
  shows "p_Headers m = frame_headers w f" "p_Body m = b"
  using assms by (auto simp: frame_op_def)

lemma stream_frames_nth:
  "(op, r) \<in> set (stream_frames sc w bs) \<Longrightarrow>
   \<exists>i < length bs. op = frame_op sc (w + of_nat i) (Suc i = length bs) (bs ! i) \<and> r = None"
proof (induction sc w bs rule: stream_frames.induct)
  case (2 sc w b)
  then show ?case by auto
next
  case (3 sc w b c bs)
  show ?case
  proof (cases "(op, r) = (frame_op sc w False b, None)")
    case True
    then show ?thesis by (intro exI [of _ 0]) simp
  next
    case False
    then obtain i where "i < length (c # bs)" "op = frame_op sc (w + 1 + of_nat i) (Suc i = length (c # bs)) ((c # bs) ! i)" "r = None"
      using 3 by auto
    then show ?thesis by (intro exI [of _ "Suc i"]) (simp add: add.assoc)
  qed
qed simp

text \<open>Delivery \<open>dl\<close> is of a message published in these calls.\<close>

definition delivered_from :: "(amqp_op \<times> err option) list \<Rightarrow> Delivery \<Rightarrow> bool" where
  "delivered_from t dl \<longleftrightarrow>
     (\<exists>p x k mnd m r. (PublishMsg p x k mnd m, r) \<in> set t \<and> d_Headers dl = p_Headers m \<and> d_Body dl = p_Body m)"

lemma frame_delivered:
  "(frame_op sc w f b, r) \<in> set t \<Longrightarrow> d_Headers dl = frame_headers w f \<Longrightarrow> d_Body dl = b \<Longrightarrow> delivered_from t dl"
  unfolding delivered_from_def frame_op_def by (intro exI conjI, assumption) simp_all

lemma delivered_is_frame:
  "delivered_from (stream_frames sc 0 bs) dl \<Longrightarrow> \<exists>i. is_frame bs i dl"
  unfolding delivered_from_def is_frame_def
  using stream_frames_nth [of _ _ sc 0 bs] frame_op_fields [of sc] by (metis add_0)

section \<open>Reading everything\<close>

text \<open>A stream within its limits that gets every frame in order holds every chunk.\<close>

definition bytes_in :: "bytes list \<Rightarrow> int" where
  "bytes_in cs = int (sum_list (map length cs))"

lemma bytes_in_simps [simp]: "bytes_in [] = 0" "bytes_in (c # cs) = int (length c) + bytes_in cs"
  "bytes_in (cs @ ds) = bytes_in cs + bytes_in ds"
  by (simp_all add: bytes_in_def)

lemma bytes_in_nonneg: "0 \<le> bytes_in cs"
  by (simp add: bytes_in_def)

definition roomy :: "clientStream \<Rightarrow> int \<Rightarrow> bytes list \<Rightarrow> bool" where
  "roomy s b cs \<longleftrightarrow>
     int (length (cl_chunks s)) + int (length cs) \<le> cl_max_chunks s \<and>
     cl_bytes s + bytes_in cs \<le> cl_max_bytes s \<and> b + bytes_in cs \<le> cl_max_total s"

lemma push_accepts:
  assumes "is_frame bs i dl" "length bs \<le> 2 ^ 63" "cl_lastSeq s + 1 = int i" "\<not> cl_ended s" "cl_err s = None"
    and "roomy s b (chunks_of [bs ! i])"
  shows "push conv dl (s, b) =
    (s\<lparr>cl_lastSeq := int i, cl_chunks := cl_chunks s @ chunks_of [bs ! i],
       cl_bytes := cl_bytes s + int (length (bs ! i)), cl_ended := (Suc i = length bs)\<rparr>, b + int (length (bs ! i)))"
proof -
  note r = frame_reads [OF assms(1,2)]
  have "push conv dl (s, b) = push_body (Suc i = length bs) (bs ! i) (s\<lparr>cl_lastSeq := int i\<rparr>, b)"
    using assms(3,4) r by (simp add: push_def Let_def)
  then show ?thesis
    using assms(4-6) by (cases "bs ! i = []") (auto simp: push_body_def Let_def roomy_def chunks_of_def)
qed

lemma in_order_push:
  assumes "length bs \<le> 2 ^ 63" "list_all2 (is_frame bs) [k..<length bs] dls" "k < length bs"
    and "cl_lastSeq s + 1 = int k" "\<not> cl_ended s" "cl_err s = None" "roomy s b (chunks_of (drop k bs))"
  shows "\<exists>s1 b1. fold (push conv) dls (s, b) = (s1, b1) \<and> finished s1 \<and>
    cl_chunks s1 = cl_chunks s @ chunks_of (drop k bs)"
  using assms(2-)
proof (induction "length bs - k" arbitrary: k s b dls)
  case (Suc n)
  have up: "[k..<length bs] = k # [Suc k..<length bs]" using Suc.prems by (simp add: upt_conv_Cons)
  then obtain d ds where dls: "dls = d # ds" "is_frame bs k d" "list_all2 (is_frame bs) [Suc k..<length bs] ds"
    using Suc.prems(1) by (auto simp: list_all2_Cons1)
  have dr: "drop k bs = bs ! k # drop (Suc k) bs" using Suc.prems by (simp add: Cons_nth_drop_Suc)
  have room: "roomy s b (chunks_of [bs ! k])"
    using Suc.prems(6) bytes_in_nonneg [of "chunks_of (drop (Suc k) bs)"] unfolding dr
    by (auto simp: roomy_def chunks_of_def)
  define s1 where "s1 = s\<lparr>cl_lastSeq := int k, cl_chunks := cl_chunks s @ chunks_of [bs ! k],
       cl_bytes := cl_bytes s + int (length (bs ! k)), cl_ended := (Suc k = length bs)\<rparr>"
  have push: "push conv d (s, b) = (s1, b + int (length (bs ! k)))"
    unfolding s1_def by (rule push_accepts [OF dls(2) assms(1) Suc.prems(3-5) room])
  show ?case
  proof (cases "Suc k = length bs")
    case True
    then show ?thesis using dls Suc.prems(5) push by (auto simp: dr s1_def finished_def)
  next
    case False
    have "roomy s1 (b + int (length (bs ! k))) (chunks_of (drop (Suc k) bs))"
      using Suc.prems(6) unfolding dr by (auto simp: roomy_def chunks_of_def s1_def)
    moreover have "n = length bs - Suc k" "Suc k < length bs" using Suc.hyps(2) Suc.prems(2) False by simp_all
    ultimately show ?thesis
      using Suc.hyps(1) [of "Suc k" ds s1 "b + int (length (bs ! k))"] dls(1,3) False Suc.prems(5) push
      by (auto simp: s1_def dr chunks_of_def)
  qed
qed simp

section \<open>Properties\<close>

text \<open>
  C4. Streams are never silently shortened. A handler sends its messages and returns, every
  publication of that run having succeeded; the frames reach the caller in any order, lost or repeated any number of times,
  while the caller reads, other streams use up the shared buffer, the dispatcher fails the
  stream or the caller releases it. The caller reads a prefix of what was sent, and
  when the stream ends without an error and is drained it has read all of it.
\<close>

theorem stream_end_to_end:
  assumes "\<And>h op. env_err E h op = None" "d_ReplyTo (sc_d sc) \<noteq> ''''"
    and "serveStream E sc (map (\<lambda>d. (None, Inr d)) ds) err None h = (res, h1)"
    and "length (stream_bodies sc ds err) \<le> 2 ^ 63"
    and "\<And>dl. Push dl \<in> set ops \<Longrightarrow> delivered_from (new_calls h h1) dl"
    and "client_run conv ops (newStream i mc mb mt, b, []) = (s, b1, got)"
  shows "(\<exists>n. got = take n (chunks_of (stream_bodies sc ds err))) \<and>
    (finished s \<and> cl_chunks s = [] \<longrightarrow> got = chunks_of (stream_bodies sc ds err))"
proof -
  let ?bs = "stream_bodies sc ds err"
  have "h1 = h @ stream_frames sc 0 ?bs" using serveStream_ok [OF assms(1,2), of ds err h] assms(3) by simp
  then have "client_inv ?bs (client_run conv ops (newStream i mc mb mt, b, []))"
    using assms(5) by (intro client_inv_run client_inv_new assms(4) delivered_is_frame) auto
  then have "client_inv ?bs (s, b1, got)" using assms(6) by simp
  then show ?thesis using prefix_of_chunks [of got "cl_chunks s"]
    by (auto simp: client_inv_def finished_def split: option.splits)
qed

definition sc1 :: stream_ctx where
  "sc1 = \<lparr>sc_consumer = ctx_late, sc_pub = 0, sc_d = delivery1, sc_method = ''Chat.Say'', sc_expose = False, sc_pw = leb128\<rparr>"

definition frame0 :: Delivery where
  "frame0 = delivery1\<lparr>d_Headers := frame_headers 0 False, d_Body := result_body sc1 ''hi''\<rparr>"

lemma frame0_delivered:
  "delivered_from (stream_frames sc1 0 (stream_bodies sc1 [''hi'', ''yo''] None)) frame0"
  by (rule frame_delivered [of sc1 0 False "result_body sc1 ''hi''" None])
     (simp_all add: stream_bodies_def stream_error_def frame0_def)

theorem stream_end_to_end_witness:
  "\<exists>s b got n. client_run (\<lambda>_. 0) [Push frame0, Next] (newStream ''c1'' 8 100 100, 0, []) = (s, b, got) \<and>
     got = take n (chunks_of (stream_bodies sc1 [''hi'', ''yo''] None))"
proof -
  obtain s b got where r: "client_run (\<lambda>_. 0) [Push frame0, Next] (newStream ''c1'' 8 100 100, 0, []) = (s, b, got)"
    using prod_cases3 by blast
  have E: "env_err reliable h op = None" for h op by (simp add: reliable_def)
  have R: "d_ReplyTo (sc_d sc1) \<noteq> ''''" by (simp add: sc1_def delivery1_def)
  have S: "serveStream reliable sc1 (map (\<lambda>d. (None, Inr d)) [''hi'', ''yo'']) None None [] =
      (\<lparr>hr_reply = None, hr_err = None, hr_errReply = None, hr_handled = False\<rparr>,
       stream_frames sc1 0 (stream_bodies sc1 [''hi'', ''yo''] None))"
    using serveStream_ok [OF E R, of "[''hi'', ''yo'']" None "[]"] by simp
  have L: "length (stream_bodies sc1 [''hi'', ''yo''] None) \<le> 2 ^ 63" by (simp add: stream_bodies_def stream_error_def)
  have D: "delivered_from (new_calls [] (stream_frames sc1 0 (stream_bodies sc1 [''hi'', ''yo''] None))) dl"
    if "Push dl \<in> set [Push frame0, Next]" for dl
    using that frame0_delivered by (simp add: new_calls_def)
  show ?thesis using stream_end_to_end [OF E R S L D r] r by blast
qed

text \<open>
  A stream that is delivered in order and fits the buffer limits arrives whole: after
  the last frame the stream is finished and holds every chunk in order.
\<close>

theorem stream_in_order_complete:
  assumes "length bs \<le> 2 ^ 63" "bs \<noteq> []" "list_all2 (is_frame bs) [0..<length bs] dls"
    and "int (length (chunks_of bs)) \<le> mc" "bytes_in (chunks_of bs) \<le> mb" "b + bytes_in (chunks_of bs) \<le> mt"
  shows "\<exists>s1 b1. fold (push conv) dls (newStream i mc mb mt, b) = (s1, b1) \<and> finished s1 \<and> cl_chunks s1 = chunks_of bs"
  using in_order_push [OF assms(1,3), of "newStream i mc mb mt" b conv] assms(2,4-6)
  by (simp add: newStream_def roomy_def)

theorem stream_in_order_complete_witness:
  "\<exists>s1 b1. fold (push (\<lambda>_. 0))
      [delivery1\<lparr>d_Headers := frame_headers 0 False, d_Body := ''a''\<rparr>,
       delivery1\<lparr>d_Headers := frame_headers 1 True, d_Body := ''bc''\<rparr>]
      (newStream ''c1'' 8 100 100, 0) = (s1, b1) \<and> finished s1 \<and> cl_chunks s1 = [''a'', ''bc'']"
  using stream_in_order_complete [of "[''a'', ''bc'']"
      "[delivery1\<lparr>d_Headers := frame_headers 0 False, d_Body := ''a''\<rparr>,
        delivery1\<lparr>d_Headers := frame_headers 1 True, d_Body := ''bc''\<rparr>]" 8 100 0 100 "\<lambda>_. 0" "''c1''"]
  by (simp add: is_frame_def chunks_of_def upt_rec)

text \<open>
  C30. However publishing fails and whenever the caller cancels, a run of a streaming handler
  publishes frames numbered consecutively from 0 of which only the last may be final or
  unconfirmed, and a run that reports success to a caller that still listens has ended with
  a confirmed final frame.
\<close>

theorem stream_frames_numbered:
  assumes "serveStream E sc sends err cx h = (res, h1)"
  shows "\<exists>t. h1 = h @ t \<and> numbered sc 0 t \<and>
    (hr_err res = None \<and> d_ReplyTo (sc_d sc) \<noteq> '''' \<and> \<not> caller_cancelled cx \<longrightarrow> ends_final sc t)"
  by (rule serveStream_frames [OF assms])

theorem stream_frames_numbered_witness:
  "\<exists>t. snd (serveStream reliable sc1 [(None, Inr ''hi'')] None None []) = t \<and> numbered sc1 0 t"
  using stream_frames_numbered [of reliable sc1 "[(None, Inr ''hi'')]" None None "[]"]
  by (metis append_Nil prod.collapse)

end
