(* ===== verification/PubChan.thy ===== *)
theory PubChan imports Amqp begin

text \<open>
  The publishing channel of \<open>pubchan.go\<close>. A publication passes through the goroutine that
  called \<open>publish\<close>, the writer and the loop that reads confirms and returns; every
  communication between them, and with the broker, is one step of a relation on the
  channel's state, so the steps of any number of publications interleave freely.

  A publication is its index in \<open>pc_pubs\<close>. The fields \<open>pb_admitted\<close>, \<open>pb_written\<close> and
  \<open>pb_confirm\<close> record history the code does not store: that the publication got a slot,
  that its write completed, and the broker's confirm.
\<close>

section \<open>Model\<close>

datatype phase = WaitSlot | WaitSend | WaitCommit | WaitConfirm | Returned "err option"

record pendingPublish =
  pb_ctx :: "err option"
  pb_exchange :: string
  pb_key :: string
  pb_mandatory :: bool
  pb_msg :: Publishing
  pb_committed :: bool
  pb_returned :: bool
  pb_sentAt :: "int option"
  pb_settled :: bool
  pb_err :: "err option"
  pb_sendErr :: "err option"
  pb_phase :: phase
  pb_admitted :: bool
  pb_written :: bool
  pb_confirm :: "bool option"

record pubChannel =
  pc_timeout :: duration
  pc_cap :: nat
  pc_slots :: nat
  pc_pending :: "(nat \<times> nat) list"
  pc_closed :: bool
  pc_closeErr :: string
  pc_pubs :: "pendingPublish list"
  pc_writing :: "(nat \<times> nat) option"
  pc_nextSeqNo :: nat
  pc_retired :: bool

definition newPubChannel :: "duration \<Rightarrow> nat \<Rightarrow> pubChannel" where
  "newPubChannel timeout cap =
     \<lparr>pc_timeout = timeout, pc_cap = cap, pc_slots = 0, pc_pending = [], pc_closed = False,
      pc_closeErr = '''', pc_pubs = [], pc_writing = None, pc_nextSeqNo = 1, pc_retired = False\<rparr>"

definition upd :: "nat \<Rightarrow> (pendingPublish \<Rightarrow> pendingPublish) \<Rightarrow> pubChannel \<Rightarrow> pubChannel" where
  "upd i f s = s\<lparr>pc_pubs := (pc_pubs s)[i := f (pc_pubs s ! i)]\<rparr>"

text \<open>\<open>pendingPublish.settle\<close>: only the first outcome counts, and it gives the slot back.\<close>

definition settle_pub :: "nat \<Rightarrow> err option \<Rightarrow> err option \<Rightarrow> pubChannel \<Rightarrow> pubChannel" where
  "settle_pub i verdict sendErr s =
     (if pb_settled (pc_pubs s ! i) then s
      else (upd i (\<lambda>p. p\<lparr>pb_settled := True, pb_err := verdict, pb_sendErr := sendErr\<rparr>) s)
        \<lparr>pc_slots := pc_slots s - 1\<rparr>)"

text \<open>
  \<open>markReturned\<close>: the loop over the pending map, in whatever order the map is iterated,
  keeping the match with the smallest tag.
\<close>

definition return_matches :: "pubChannel \<Rightarrow> string \<Rightarrow> string \<Rightarrow> string \<Rightarrow> nat \<Rightarrow> bool" where
  "return_matches s mid x k i \<longleftrightarrow>
     (let p = pc_pubs s ! i
      in pb_mandatory p \<and> \<not> pb_returned p \<and> p_MessageId (pb_msg p) = mid \<and> pb_exchange p = x \<and> pb_key p = k)"

fun oldest_match :: "(nat \<Rightarrow> bool) \<Rightarrow> (nat \<times> nat) list \<Rightarrow> (nat \<times> nat) option \<Rightarrow> (nat \<times> nat) option" where
  "oldest_match m [] best = best"
| "oldest_match m ((tag, i) # ps) best =
     oldest_match m ps
       (if m i \<and> (case best of None \<Rightarrow> True | Some (t, _) \<Rightarrow> tag < t) then Some (tag, i) else best)"

definition markReturned :: "string \<Rightarrow> string \<Rightarrow> string \<Rightarrow> pubChannel \<Rightarrow> pubChannel" where
  "markReturned mid x k s =
     (case oldest_match (return_matches s mid x k) (pc_pending s) None of
        None \<Rightarrow> s
      | Some (t, i) \<Rightarrow> upd i (\<lambda>p. p\<lparr>pb_returned := True\<rparr>) s)"

definition resolve :: "nat \<Rightarrow> bool \<Rightarrow> pubChannel \<Rightarrow> pubChannel" where
  "resolve tag acked s =
     (case map_of (pc_pending s) tag of
        None \<Rightarrow> s
      | Some i \<Rightarrow>
          let verdict =
            (if \<not> acked then Some (Sentinel ErrPublishNacked)
             else if pb_returned (pc_pubs s ! i) then Some (Sentinel ErrUnroutable) else None)
          in settle_pub i verdict None
               (upd i (\<lambda>p. p\<lparr>pb_confirm := Some acked\<rparr>)
                  (s\<lparr>pc_pending := filter (\<lambda>(t, j). t \<noteq> tag) (pc_pending s)\<rparr>)))"

definition shutdown :: "string \<Rightarrow> pubChannel \<Rightarrow> pubChannel" where
  "shutdown reason s =
     fold (\<lambda>(t, i). settle_pub i (Some (Sentinel ErrChannelClosed)) None) (pc_pending s)
       (s\<lparr>pc_pending := [], pc_closeErr := reason, pc_closed := True\<rparr>)"

text \<open>
  \<open>send\<close>, in the two halves between which confirms can arrive: the decision and the
  registration, then the outcome of the write.
\<close>

definition send_register :: "nat \<Rightarrow> pubChannel \<Rightarrow> pubChannel" where
  "send_register i s =
     (upd i (\<lambda>p. p\<lparr>pb_committed := True\<rparr>) s)
       \<lparr>pc_pending := (pc_nextSeqNo s, i) # filter (\<lambda>(t, j). t \<noteq> pc_nextSeqNo s) (pc_pending s),
        pc_writing := Some (i, pc_nextSeqNo s)\<rparr>"

definition send_begin :: "nat \<Rightarrow> pubChannel \<Rightarrow> pubChannel" where
  "send_begin i s =
     (case pb_ctx (pc_pubs s ! i) of
        Some e \<Rightarrow> settle_pub i None (Some e) s
      | None \<Rightarrow>
          if pc_closed s then settle_pub i None (Some errChannelGone) s else send_register i s)"

definition write_error :: "pendingPublish \<Rightarrow> err \<Rightarrow> err" where
  "write_error p e =
     (if errors_is_val e amqpErrClosed then errChannelGone
      else wrap1 (''protobus: publish to '' @ pb_exchange p @ '' -> '' @ pb_key p @ '': '' @ error_text e) e)"

definition send_end :: "nat \<Rightarrow> nat \<Rightarrow> err option \<Rightarrow> int \<Rightarrow> pubChannel \<Rightarrow> pubChannel" where
  "send_end i tag res now s =
     (case res of
        None \<Rightarrow>
          (upd i (\<lambda>p. p\<lparr>pb_sentAt := Some now, pb_written := True\<rparr>) s)
            \<lparr>pc_writing := None, pc_nextSeqNo := pc_nextSeqNo s + 1\<rparr>
      | Some e \<Rightarrow>
          settle_pub i None (Some (write_error (pc_pubs s ! i) e))
            (s\<lparr>pc_pending := filter (\<lambda>(t, j). (t, j) \<noteq> (tag, i)) (pc_pending s), pc_writing := None\<rparr>))"

text \<open>The steps of \<open>publish\<close>, by what the calling goroutine is waiting for.\<close>

definition new_publication :: "string \<Rightarrow> string \<Rightarrow> bool \<Rightarrow> Publishing \<Rightarrow> err option \<Rightarrow> pendingPublish" where
  "new_publication x k mandatory msg cx =
     \<lparr>pb_ctx = cx, pb_exchange = x, pb_key = k, pb_mandatory = mandatory, pb_msg = msg,
      pb_committed = False, pb_returned = False, pb_sentAt = None, pb_settled = False, pb_err = None,
      pb_sendErr = None, pb_phase = (case cx of None \<Rightarrow> WaitSlot | Some e \<Rightarrow> Returned (Some e)),
      pb_admitted = False, pb_written = False, pb_confirm = None\<rparr>"

definition stalled :: "pubChannel \<Rightarrow> err" where
  "stalled s =
     wrap1 (sentinel_text errPublishStalled @ '' ('' @ duration_string (pc_timeout s) @ '')'') (Sentinel errPublishStalled)"

definition publish_fail :: "pendingPublish \<Rightarrow> err \<Rightarrow> string \<Rightarrow> err" where
  "publish_fail p e detail = PublishError e (p_MessageId (pb_msg p)) (pb_exchange p) (pb_key p) detail"

definition outcome :: "pubChannel \<Rightarrow> nat \<Rightarrow> err option" where
  "outcome s i =
     (let p = pc_pubs s ! i in
      case pb_sendErr p of
        Some e \<Rightarrow> Some e
      | None \<Rightarrow>
          (case pb_err p of
             Some e \<Rightarrow> Some (publish_fail p e (if errors_is e ErrChannelClosed then pc_closeErr s else ''''))
           | None \<Rightarrow> None))"

definition return_with :: "nat \<Rightarrow> err option \<Rightarrow> pubChannel \<Rightarrow> pubChannel" where
  "return_with i r s = upd i (\<lambda>p. p\<lparr>pb_phase := Returned r\<rparr>) s"

definition acquire_slot :: "nat \<Rightarrow> pubChannel \<Rightarrow> pubChannel" where
  "acquire_slot i s =
     (upd i (\<lambda>p. p\<lparr>pb_phase := WaitSend, pb_admitted := True\<rparr>) s)\<lparr>pc_slots := pc_slots s + 1\<rparr>"

definition await_commit :: "nat \<Rightarrow> pubChannel \<Rightarrow> pubChannel" where
  "await_commit i s = upd i (\<lambda>p. p\<lparr>pb_phase := WaitCommit\<rparr>) s"

text \<open>
  \<open>retireIfWedged\<close>: the channel is retired when the oldest written publication still
  pending has waited for its confirm longer than the timeout.
\<close>

definition sent_times :: "pubChannel \<Rightarrow> int list" where
  "sent_times s = List.map_filter (\<lambda>(t, i). pb_sentAt (pc_pubs s ! i)) (pc_pending s)"

definition retireIfWedged :: "int \<Rightarrow> pubChannel \<Rightarrow> pubChannel" where
  "retireIfWedged now s =
     (case sent_times s of
        [] \<Rightarrow> s
      | t # ts \<Rightarrow> if now - fold min ts t < pc_timeout s then s else s\<lparr>pc_retired := True\<rparr>)"

section \<open>Steps\<close>

text \<open>
  \<open>send_raced\<close> is the writer whose context or channel ended after its checks and before the
  registration. The loop stops reading once the channel has closed; what had already
  arrived is drained first, which are the steps \<open>returned\<close> and \<open>confirm\<close> before \<open>close\<close>.
\<close>

definition waits :: "pubChannel \<Rightarrow> nat \<Rightarrow> phase \<Rightarrow> bool" where
  "waits s i ph \<longleftrightarrow> i < length (pc_pubs s) \<and> pb_phase (pc_pubs s ! i) = ph"

inductive pstep :: "pubChannel \<Rightarrow> pubChannel \<Rightarrow> bool" where
  publish: "cx \<in> {None, Some (Sentinel ctxCanceled), Some (Sentinel ctxDeadlineExceeded)} \<Longrightarrow>
    pstep s (s\<lparr>pc_pubs := pc_pubs s @ [new_publication x k mandatory msg cx]\<rparr>)"
| ctx_done: "i < length (pc_pubs s) \<Longrightarrow> pb_ctx (pc_pubs s ! i) = None \<Longrightarrow>
    e \<in> {Sentinel ctxCanceled, Sentinel ctxDeadlineExceeded} \<Longrightarrow> pstep s (upd i (\<lambda>p. p\<lparr>pb_ctx := Some e\<rparr>) s)"
| slot: "waits s i WaitSlot \<Longrightarrow> pc_slots s < pc_cap s \<Longrightarrow> pstep s (acquire_slot i s)"
| slot_closed: "waits s i WaitSlot \<Longrightarrow> pc_closed s \<Longrightarrow> pstep s (return_with i (Some errChannelGone) s)"
| slot_ctx: "waits s i WaitSlot \<Longrightarrow> pb_ctx (pc_pubs s ! i) = Some e \<Longrightarrow> pstep s (return_with i (Some e) s)"
| slot_stalled: "waits s i WaitSlot \<Longrightarrow> pstep s (return_with i (Some (stalled s)) (retireIfWedged now s))"
| send: "waits s i WaitSend \<Longrightarrow> pc_writing s = None \<Longrightarrow> pstep s (send_begin i (await_commit i s))"
| send_raced: "waits s i WaitSend \<Longrightarrow> pc_writing s = None \<Longrightarrow> pstep s (send_register i (await_commit i s))"
| send_closed: "waits s i WaitSend \<Longrightarrow> pc_closed s \<Longrightarrow>
    pstep s (return_with i (Some errChannelGone) (settle_pub i None (Some errChannelGone) s))"
| send_ctx: "waits s i WaitSend \<Longrightarrow> pb_ctx (pc_pubs s ! i) = Some e \<Longrightarrow>
    pstep s (return_with i (Some e) (settle_pub i None (Some e) s))"
| send_stalled: "waits s i WaitSend \<Longrightarrow>
    pstep s (return_with i (Some (stalled s)) (retireIfWedged now (settle_pub i None None s)))"
| written: "pc_writing s = Some (i, tag) \<Longrightarrow> pstep s (send_end i tag res now s)"
| committed: "waits s i WaitCommit \<Longrightarrow> pb_committed (pc_pubs s ! i) \<Longrightarrow>
    pstep s (upd i (\<lambda>p. p\<lparr>pb_phase := WaitConfirm\<rparr>) s)"
| settled: "waits s i WaitCommit \<or> waits s i WaitConfirm \<Longrightarrow> pb_settled (pc_pubs s ! i) \<Longrightarrow>
    pstep s (return_with i (outcome s i) s)"
| confirm_timeout: "waits s i WaitConfirm \<Longrightarrow>
    pstep s (return_with i (Some (publish_fail (pc_pubs s ! i) (Sentinel ErrPublishConfirmTimeout)
      (''no confirm within '' @ duration_string (pc_timeout s)))) s)"
| confirm_ctx: "waits s i WaitConfirm \<Longrightarrow> pb_ctx (pc_pubs s ! i) = Some e \<Longrightarrow>
    pstep s (return_with i (Some (publish_fail (pc_pubs s ! i) e ''gave up waiting for the confirm'')) s)"
| returned: "\<not> pc_closed s \<Longrightarrow> pstep s (markReturned mid x k s)"
| confirm: "\<not> pc_closed s \<Longrightarrow> pstep s (resolve tag acked s)"
| close: "\<not> pc_closed s \<Longrightarrow> pstep s (shutdown reason s)"

inductive preachable :: "duration \<Rightarrow> nat \<Rightarrow> pubChannel \<Rightarrow> bool" for timeout cap where
  init: "preachable timeout cap (newPubChannel timeout cap)"
| step: "preachable timeout cap s \<Longrightarrow> pstep s s1 \<Longrightarrow> preachable timeout cap s1"

section \<open>Lemmas\<close>

lemma pubs_upd [simp]:
  "pc_pubs (upd i f s) = (pc_pubs s)[i := f (pc_pubs s ! i)]"
  "pc_slots (upd i f s) = pc_slots s" "pc_cap (upd i f s) = pc_cap s" "pc_pending (upd i f s) = pc_pending s"
  "pc_closed (upd i f s) = pc_closed s" "pc_writing (upd i f s) = pc_writing s"
  "pc_nextSeqNo (upd i f s) = pc_nextSeqNo s" "pc_closeErr (upd i f s) = pc_closeErr s"
  "pc_timeout (upd i f s) = pc_timeout s"
  by (simp_all add: upd_def)

text \<open>A publication holds a slot from admission until it is settled.\<close>

definition holds_slot :: "pendingPublish \<Rightarrow> bool" where
  "holds_slot p \<longleftrightarrow> pb_admitted p \<and> \<not> pb_settled p"

definition holders :: "pendingPublish list \<Rightarrow> nat" where
  "holders ps = length (filter holds_slot ps)"

lemma holders_update:
  "i < length ps \<Longrightarrow> holders (ps[i := q]) + (if holds_slot (ps ! i) then 1 else 0) =
     holders ps + (if holds_slot q then 1 else 0)"
proof (induction ps arbitrary: i)
  case (Cons p ps)
  then show ?case by (cases i) (auto simp: holders_def)
qed simp

lemma holders_snoc: "holders (ps @ [p]) = holders ps + (if holds_slot p then 1 else 0)"
  by (simp add: holders_def)

text \<open>How a settled publication was settled, given what the broker said.\<close>

definition verdict_ok :: "pendingPublish \<Rightarrow> bool" where
  "verdict_ok p \<longleftrightarrow>
     pb_err p = None \<and> pb_confirm p = Some True \<and> \<not> pb_returned p \<or>
     pb_err p = Some (Sentinel ErrPublishNacked) \<and> pb_confirm p = Some False \<or>
     pb_err p = Some (Sentinel ErrUnroutable) \<and> pb_confirm p = Some True \<and> pb_returned p \<or>
     pb_err p = Some (Sentinel ErrChannelClosed)"

text \<open>What the error of a returned publish says about the message.\<close>

definition result_ok :: "bool \<Rightarrow> pendingPublish \<Rightarrow> err option \<Rightarrow> bool" where
  "result_ok writing p r \<longleftrightarrow>
     (case r of
        None \<Rightarrow> pb_confirm p = Some True \<and> \<not> pb_returned p
      | Some e \<Rightarrow>
          if is_PublishError e
          then (\<exists>x. pe_Err e = Sentinel x) \<and>
            (\<not> Ambiguous e \<longrightarrow> pb_confirm p = Some False \<or> pb_confirm p = Some True \<and> pb_returned p)
          else \<not> pb_written p \<and> \<not> writing)"

text \<open>
  The invariant of one publication. \<open>pend\<close>: it is registered as pending; \<open>wr\<close>: its write
  is in progress.
\<close>

definition base_ok :: "pendingPublish \<Rightarrow> bool" where
  "base_ok p \<longleftrightarrow>
     pb_ctx p \<in> {None, Some (Sentinel ctxCanceled), Some (Sentinel ctxDeadlineExceeded)} \<and>
     (pb_settled p \<longrightarrow> pb_admitted p) \<and> (pb_committed p \<longrightarrow> pb_admitted p) \<and>
     (pb_written p \<longrightarrow> pb_committed p) \<and> (pb_returned p \<longrightarrow> pb_mandatory p \<and> pb_committed p) \<and>
     (\<not> pb_committed p \<longrightarrow> pb_confirm p = None) \<and> (\<not> pb_settled p \<longrightarrow> pb_sendErr p = None) \<and>
     (\<forall>e. pb_sendErr p = Some e \<longrightarrow> \<not> pb_written p \<and> \<not> is_PublishError e) \<and>
     (pb_committed p \<and> pb_settled p \<and> pb_sendErr p = None \<longrightarrow> verdict_ok p)"

definition link_ok :: "bool \<Rightarrow> bool \<Rightarrow> pendingPublish \<Rightarrow> bool" where
  "link_ok pend wr p \<longleftrightarrow>
     (pend \<longrightarrow> pb_committed p \<and> \<not> pb_settled p \<and> pb_confirm p = None) \<and>
     (wr \<longrightarrow> pb_committed p \<and> \<not> pb_written p \<and> pb_sendErr p = None)"

definition phase_ok :: "bool \<Rightarrow> pendingPublish \<Rightarrow> bool" where
  "phase_ok wr p \<longleftrightarrow>
     (case pb_phase p of
        WaitSlot \<Rightarrow> \<not> pb_admitted p
      | WaitSend \<Rightarrow> pb_admitted p \<and> \<not> pb_committed p \<and> \<not> pb_settled p
      | WaitCommit \<Rightarrow> pb_admitted p \<and> (pb_committed p \<or> pb_sendErr p \<noteq> None)
      | WaitConfirm \<Rightarrow> pb_committed p
      | Returned r \<Rightarrow> result_ok wr p r)"

definition pub_ok :: "bool \<Rightarrow> bool \<Rightarrow> pendingPublish \<Rightarrow> bool" where
  "pub_ok pend wr p \<longleftrightarrow> base_ok p \<and> link_ok pend wr p \<and> phase_ok wr p"

definition is_pending :: "pubChannel \<Rightarrow> nat \<Rightarrow> bool" where
  "is_pending s i \<longleftrightarrow> i \<in> snd ` set (pc_pending s)"

definition is_writing :: "pubChannel \<Rightarrow> nat \<Rightarrow> bool" where
  "is_writing s i \<longleftrightarrow> (\<exists>t. pc_writing s = Some (i, t))"

definition pc_inv :: "pubChannel \<Rightarrow> bool" where
  "pc_inv s \<longleftrightarrow>
     pc_slots s = holders (pc_pubs s) \<and> pc_slots s \<le> pc_cap s \<and>
     distinct (map fst (pc_pending s)) \<and> distinct (map snd (pc_pending s)) \<and>
     (\<forall>i. is_pending s i \<or> is_writing s i \<longrightarrow> i < length (pc_pubs s)) \<and>
     (\<forall>i t. pc_writing s = Some (i, t) \<and> is_pending s i \<longrightarrow> (t, i) \<in> set (pc_pending s)) \<and>
     (\<forall>i < length (pc_pubs s). pub_ok (is_pending s i) (is_writing s i) (pc_pubs s ! i))"

lemma pc_inv_init: "pc_inv (newPubChannel timeout cap)"
  by (simp add: pc_inv_def newPubChannel_def holders_def is_pending_def is_writing_def)

lemma result_ok_mono: "result_ok b p r \<Longrightarrow> result_ok False p r"
  by (auto simp: result_ok_def split: option.splits if_splits)

lemma pub_ok_mono: "pub_ok a b p \<Longrightarrow> (a1 \<longrightarrow> a) \<Longrightarrow> (b1 \<longrightarrow> b) \<Longrightarrow> pub_ok a1 b1 p"
proof -
  assume ok: "pub_ok a b p" and i: "a1 \<longrightarrow> a" "b1 \<longrightarrow> b"
  have "link_ok a1 b1 p" using ok i by (auto simp: pub_ok_def link_ok_def)
  moreover have "phase_ok b1 p"
  proof (cases b1)
    case False
    then show ?thesis using ok result_ok_mono by (auto simp: pub_ok_def phase_ok_def split: phase.split)
  qed (use ok i in \<open>simp add: pub_ok_def\<close>)
  ultimately show ?thesis using ok by (simp add: pub_ok_def)
qed

lemma observers_simps [simp]:
  "verdict_ok (p\<lparr>pb_phase := ph\<rparr>) = verdict_ok p" "result_ok b (p\<lparr>pb_phase := ph\<rparr>) r = result_ok b p r"
  "base_ok (p\<lparr>pb_phase := ph\<rparr>) = base_ok p" "link_ok a b (p\<lparr>pb_phase := ph\<rparr>) = link_ok a b p"
  by (simp_all add: verdict_ok_def result_ok_def base_ok_def link_ok_def split: option.split)

lemma pc_invD:
  assumes "pc_inv s" "i < length (pc_pubs s)"
  shows "pub_ok (is_pending s i) (is_writing s i) (pc_pubs s ! i)"
  using assms by (simp add: pc_inv_def)

lemma is_pending_upd [simp]: "is_pending (upd i f s) = is_pending s" "is_writing (upd i f s) = is_writing s"
  by (simp_all add: fun_eq_iff is_pending_def is_writing_def)

lemma is_pending_slots [simp]:
  "is_pending (s\<lparr>pc_slots := n\<rparr>) = is_pending s" "is_writing (s\<lparr>pc_slots := n\<rparr>) = is_writing s"
  by (simp_all add: fun_eq_iff is_pending_def is_writing_def)

text \<open>Replacing publication \<open>i\<close>, with what that does to the slots and the pending table.\<close>

lemma pc_invI:
  assumes "pc_inv s" "i < length (pc_pubs s)" "pc_pubs s1 = (pc_pubs s)[i := q]" "pc_cap s1 = pc_cap s"
    and "pc_slots s1 + (if holds_slot (pc_pubs s ! i) then 1 else 0) = pc_slots s + (if holds_slot q then 1 else 0)"
    and "pc_slots s1 \<le> pc_cap s"
    and "distinct (map fst (pc_pending s1))" "distinct (map snd (pc_pending s1))"
    and "\<And>j. j \<noteq> i \<Longrightarrow> is_pending s1 j \<longrightarrow> is_pending s j" "\<And>j. j \<noteq> i \<Longrightarrow> is_writing s1 j \<longrightarrow> is_writing s j"
    and "pub_ok (is_pending s1 i) (is_writing s1 i) q"
    and "\<And>j t. pc_writing s1 = Some (j, t) \<Longrightarrow> is_pending s1 j \<Longrightarrow> (t, j) \<in> set (pc_pending s1)"
  shows "pc_inv s1"
proof -
  have "pc_slots s1 = holders (pc_pubs s1)"
    using holders_update [OF assms(2), of q] assms(1,3,5) by (simp add: pc_inv_def split: if_splits)
  moreover have "pub_ok (is_pending s1 j) (is_writing s1 j) (pc_pubs s1 ! j)" if "j < length (pc_pubs s)" for j
  proof (cases "j = i")
    case True
    then show ?thesis using assms(2,3,11) by simp
  next
    case False
    then show ?thesis
      using pub_ok_mono [OF pc_invD [OF assms(1) that] assms(9) assms(10)] assms(3) by simp
  qed
  moreover have "j < length (pc_pubs s)" if "is_pending s1 j \<or> is_writing s1 j" for j
  proof (cases "j = i")
    case False
    then show ?thesis using that assms(1,9,10) unfolding pc_inv_def by blast
  qed (use assms(2) in simp)
  ultimately show ?thesis
    unfolding pc_inv_def using assms(3,4,6-8,12) by (simp only: length_list_update) blast
qed

text \<open>The common case: neither the pending table nor the writer changes.\<close>

lemma pc_inv_change:
  assumes "pc_inv s" "i < length (pc_pubs s)" "pc_pubs s1 = (pc_pubs s)[i := q]" "pc_cap s1 = pc_cap s"
    and "pc_slots s1 + (if holds_slot (pc_pubs s ! i) then 1 else 0) = pc_slots s + (if holds_slot q then 1 else 0)"
    and "pc_slots s1 \<le> pc_cap s" "pc_pending s1 = pc_pending s" "pc_writing s1 = pc_writing s"
    and "pub_ok (is_pending s i) (is_writing s i) q"
  shows "pc_inv s1"
proof -
  have "is_pending s1 = is_pending s" "is_writing s1 = is_writing s"
    using assms(7,8) by (simp_all add: fun_eq_iff is_pending_def is_writing_def)
  then show ?thesis
    using assms by (intro pc_invI [OF assms(1-6)]) (simp_all add: pc_inv_def)
qed

lemma pc_inv_upd:
  assumes "pc_inv s" "i < length (pc_pubs s)"
    and "pub_ok (is_pending s i) (is_writing s i) (f (pc_pubs s ! i))"
    and "holds_slot (f (pc_pubs s ! i)) = holds_slot (pc_pubs s ! i)"
  shows "pc_inv (upd i f s)"
  using assms by (intro pc_inv_change [OF assms(1,2)]) (simp_all add: pc_inv_def)

lemma slots_pos: "pc_inv s \<Longrightarrow> i < length (pc_pubs s) \<Longrightarrow> holds_slot (pc_pubs s ! i) \<Longrightarrow> 0 < pc_slots s"
  by (auto simp: pc_inv_def holders_def filter_empty_conv)

lemma pc_inv_settle:
  assumes inv: "pc_inv s" and i: "i < length (pc_pubs s)" and adm: "pb_admitted (pc_pubs s ! i)"
    and ok: "\<not> pb_settled (pc_pubs s ! i) \<Longrightarrow> pub_ok (is_pending s i) (is_writing s i)
      ((pc_pubs s ! i)\<lparr>pb_settled := True, pb_err := v, pb_sendErr := e\<rparr>)"
  shows "pc_inv (settle_pub i v e s)"
proof (cases "pb_settled (pc_pubs s ! i)")
  case True
  then show ?thesis using inv by (simp add: settle_pub_def)
next
  case False
  then have "holds_slot (pc_pubs s ! i)" using adm by (simp add: holds_slot_def)
  with slots_pos [OF inv i] have "0 < pc_slots s" "pc_slots s \<le> pc_cap s" using inv by (simp_all add: pc_inv_def)
  then show ?thesis
    using ok [OF False] False adm
    by (intro pc_inv_change [OF inv i]) (simp_all add: settle_pub_def holds_slot_def)
qed

lemma settle_fields [simp]:
  "pc_pending (settle_pub i v e s) = pc_pending s" "pc_writing (settle_pub i v e s) = pc_writing s"
  "length (pc_pubs (settle_pub i v e s)) = length (pc_pubs s)"
  "is_pending (settle_pub i v e s) = is_pending s" "is_writing (settle_pub i v e s) = is_writing s"
  by (simp_all add: settle_pub_def fun_eq_iff is_pending_def is_writing_def)

lemma settle_nth:
  assumes "i < length (pc_pubs s)"
  shows "pc_pubs (settle_pub i v e s) ! j =
    (if j = i \<and> \<not> pb_settled (pc_pubs s ! i)
     then (pc_pubs s ! i)\<lparr>pb_settled := True, pb_err := v, pb_sendErr := e\<rparr> else pc_pubs s ! j)"
  using assms by (auto simp: settle_pub_def nth_list_update)

lemma pc_inv_pending:
  assumes "pc_inv s" "set ps \<subseteq> set (pc_pending s)" "distinct (map fst ps)" "distinct (map snd ps)"
    and "w = pc_writing s \<or> w = None"
    and "\<And>i t. w = Some (i, t) \<Longrightarrow> i \<in> snd ` set ps \<Longrightarrow> (t, i) \<in> set ps"
  shows "pc_inv (s\<lparr>pc_pending := ps, pc_writing := w\<rparr>)"
proof -
  let ?s = "s\<lparr>pc_pending := ps, pc_writing := w\<rparr>"
  have m1: "is_pending ?s i \<longrightarrow> is_pending s i" for i
    using assms(2) by (auto simp: is_pending_def)
  have m2: "is_writing ?s i \<longrightarrow> is_writing s i" for i
    using assms(5) by (elim disjE) (simp_all add: is_writing_def)
  have "pub_ok (is_pending ?s i) (is_writing ?s i) (pc_pubs s ! i)" if "i < length (pc_pubs s)" for i
    by (rule pub_ok_mono [OF pc_invD [OF assms(1) that] m1 m2])
  moreover have "i < length (pc_pubs s)" if "is_pending ?s i \<or> is_writing ?s i" for i
    using that m1 m2 assms(1) unfolding pc_inv_def by blast
  moreover have "(t, i) \<in> set ps" if "w = Some (i, t) \<and> is_pending ?s i" for i t
    using that assms(6) by (simp add: is_pending_def)
  ultimately show ?thesis
    using assms(1,3,4) by (simp add: pc_inv_def) blast
qed

lemma retired_fields [simp]:
  "is_pending (s\<lparr>pc_retired := b\<rparr>) = is_pending s" "is_writing (s\<lparr>pc_retired := b\<rparr>) = is_writing s"
  "pc_inv (s\<lparr>pc_retired := b\<rparr>) = pc_inv s"
  by (simp_all add: fun_eq_iff is_pending_def is_writing_def pc_inv_def)

lemma retire_cases: "retireIfWedged now s = s \<or> retireIfWedged now s = s\<lparr>pc_retired := True\<rparr>"
  by (simp add: retireIfWedged_def split: list.split)

lemma retire_fields [simp]:
  "pc_pubs (retireIfWedged now s) = pc_pubs s" "pc_inv (retireIfWedged now s) = pc_inv s"
  "is_pending (retireIfWedged now s) = is_pending s" "is_writing (retireIfWedged now s) = is_writing s"
  using retire_cases [of now s] by auto

section \<open>Every step keeps the invariant\<close>

lemma not_publish [simp]: "\<not> is_PublishError errChannelGone" "\<not> is_PublishError (stalled s)"
  "\<not> is_PublishError (write_error p e)" "is_PublishError (publish_fail p x d)"
  by (simp_all only: errChannelGone_def stalled_def write_error_def publish_fail_def err.disc simp_thms
      split: if_split)

lemma return_with_inv:
  assumes "pc_inv s" "i < length (pc_pubs s)" "result_ok (is_writing s i) (pc_pubs s ! i) r"
  shows "pc_inv (return_with i r s)"
  unfolding return_with_def
proof (rule pc_inv_upd [OF assms(1,2)])
  show "pub_ok (is_pending s i) (is_writing s i) ((pc_pubs s ! i)\<lparr>pb_phase := Returned r\<rparr>)"
    using pc_invD [OF assms(1,2)] assms(3) by (simp add: pub_ok_def phase_ok_def)
qed (simp add: holds_slot_def)

lemma pub_ok_unsent:
  assumes "pub_ok pend wr p" "pb_phase p = WaitSlot \<or> pb_phase p = WaitSend"
  shows "\<not> pb_committed p" "\<not> pb_settled p" "\<not> pb_returned p" "\<not> pb_written p" "\<not> pend" "\<not> wr"
    "pb_admitted p \<longleftrightarrow> pb_phase p = WaitSend"
    "pb_confirm p = None"
    "pb_ctx p \<in> {None, Some (Sentinel ctxCanceled), Some (Sentinel ctxDeadlineExceeded)}"
proof -
  have b: "base_ok p" and l: "link_ok pend wr p" and ph: "phase_ok wr p" using assms(1) by (simp_all add: pub_ok_def)
  have i: "pb_settled p \<longrightarrow> pb_admitted p" "pb_committed p \<longrightarrow> pb_admitted p" "pb_written p \<longrightarrow> pb_committed p"
    "pb_returned p \<longrightarrow> pb_committed p"
    using b unfolding base_ok_def by blast+
  show a: "pb_admitted p \<longleftrightarrow> pb_phase p = WaitSend" using assms(2) ph by (elim disjE) (simp_all add: phase_ok_def)
  show c: "\<not> pb_committed p" "\<not> pb_settled p" using assms(2) ph i a by (elim disjE; simp add: phase_ok_def)+
  then show "\<not> pb_returned p" "\<not> pb_written p" using i by blast+
  show "\<not> pend" "\<not> wr" using l c unfolding link_ok_def by blast+
  show "pb_confirm p = None" using b c unfolding base_ok_def by blast
  show "pb_ctx p \<in> {None, Some (Sentinel ctxCanceled), Some (Sentinel ctxDeadlineExceeded)}"
    using b unfolding base_ok_def by blast
qed

lemma waiting_unsent:
  assumes "pc_inv s" "waits s i WaitSlot \<or> waits s i WaitSend"
  shows "i < length (pc_pubs s)" "pub_ok (is_pending s i) (is_writing s i) (pc_pubs s ! i)"
    "pb_phase (pc_pubs s ! i) = WaitSlot \<or> pb_phase (pc_pubs s ! i) = WaitSend"
  using assms pc_invD by (auto simp: waits_def)

lemma unsent_result:
  assumes "pc_inv s" "waits s i WaitSlot \<or> waits s i WaitSend" "\<not> is_PublishError e"
  shows "result_ok (is_writing s i) (pc_pubs s ! i) (Some e)"
  using pub_ok_unsent [OF waiting_unsent(2,3) [OF assms(1,2)]] assms(3) by (simp add: result_ok_def)

text \<open>A publication that waits for the writer and is settled unsent.\<close>

lemma unsent_inv:
  assumes inv: "pc_inv s" and w: "waits s i WaitSend"
    and q: "q = (pc_pubs s ! i)\<lparr>pb_settled := True, pb_err := None, pb_sendErr := e, pb_phase := ph\<rparr>"
    and e: "\<And>x. e = Some x \<Longrightarrow> \<not> is_PublishError x"
    and ph: "ph = WaitCommit \<and> e \<noteq> None \<or> (\<exists>r. ph = Returned (Some r) \<and> \<not> is_PublishError r)"
    and s1: "pc_pubs s1 = (pc_pubs s)[i := q]" "pc_cap s1 = pc_cap s" "pc_slots s1 = pc_slots s - 1"
      "pc_pending s1 = pc_pending s" "pc_writing s1 = pc_writing s"
  shows "pc_inv s1"
proof -
  note u = waiting_unsent [OF inv disjI2 [OF w]]
  note p = pub_ok_unsent [OF u(2,3)]
  have ph1: "pb_phase (pc_pubs s ! i) = WaitSend" using w by (simp add: waits_def)
  then have h: "holds_slot (pc_pubs s ! i)" "\<not> holds_slot q" using p by (simp_all add: holds_slot_def q)
  with slots_pos [OF inv u(1)] have "0 < pc_slots s" "pc_slots s \<le> pc_cap s" using inv by (simp_all add: pc_inv_def)
  moreover have "pub_ok (is_pending s i) (is_writing s i) q"
    using p ph1 e ph by (cases e) (auto simp: pub_ok_def base_ok_def link_ok_def phase_ok_def q result_ok_def)
  ultimately show ?thesis
    using h s1 by (intro pc_inv_change [OF inv u(1) s1(1)]) simp_all
qed

lemma ctx_not_publish: "pc_inv s \<Longrightarrow> i < length (pc_pubs s) \<Longrightarrow> pb_ctx (pc_pubs s ! i) = Some e \<Longrightarrow> \<not> is_PublishError e"
  using pc_invD [of s i] by (auto simp: pub_ok_def base_ok_def)

lemma await_commit_fields [simp]:
  "length (pc_pubs (await_commit i s)) = length (pc_pubs s)" "pc_writing (await_commit i s) = pc_writing s"
  "pc_closed (await_commit i s) = pc_closed s" "pc_nextSeqNo (await_commit i s) = pc_nextSeqNo s"
  "pc_pending (await_commit i s) = pc_pending s"
  by (simp_all add: await_commit_def)

lemma send_register_inv:
  assumes inv: "pc_inv s" and w: "waits s i WaitSend" and idle: "pc_writing s = None"
  shows "pc_inv (send_register i (await_commit i s))"
proof -
  note u = waiting_unsent [OF inv disjI2 [OF w]]
  note p = pub_ok_unsent [OF u(2,3)]
  have ph: "pb_phase (pc_pubs s ! i) = WaitSend" using w by (simp add: waits_def)
  let ?n = "pc_nextSeqNo s"
  let ?q = "(pc_pubs s ! i)\<lparr>pb_phase := WaitCommit, pb_committed := True\<rparr>"
  define s1 where "s1 = send_register i (await_commit i s)"
  have pubs: "pc_pubs s1 = (pc_pubs s)[i := ?q]"
    using u(1) by (simp add: s1_def send_register_def await_commit_def)
  have pend: "pc_pending s1 = (?n, i) # filter (\<lambda>(t, j). t \<noteq> ?n) (pc_pending s)"
    and wr: "pc_writing s1 = Some (i, ?n)" and sl: "pc_slots s1 = pc_slots s" "pc_cap s1 = pc_cap s"
    by (simp_all add: s1_def send_register_def await_commit_def)
  have np: "i \<notin> snd ` set (pc_pending s)" using p(5) by (simp add: is_pending_def)
  have old: "distinct (map fst (pc_pending s))" "distinct (map snd (pc_pending s))" "pc_slots s \<le> pc_cap s"
    using inv by (simp_all add: pc_inv_def)
  have "pc_inv s1"
  proof (rule pc_invI [OF inv u(1) pubs sl(2)])
    show "distinct (map fst (pc_pending s1))" using old(1) by (auto simp: pend distinct_map_filter)
    show "distinct (map snd (pc_pending s1))" using old(2) np by (auto simp: pend distinct_map_filter)
    show "pub_ok (is_pending s1 i) (is_writing s1 i) ?q"
      using pc_invD [OF inv u(1)] p ph by (auto simp: pub_ok_def base_ok_def link_ok_def phase_ok_def)
    show "(t, j) \<in> set (pc_pending s1)" if "pc_writing s1 = Some (j, t)" for j t
      using that by (simp add: wr pend)
  qed (use old(3) sl in \<open>auto simp: is_pending_def is_writing_def pend wr holds_slot_def\<close>)
  then show ?thesis by (simp add: s1_def)
qed

lemma send_begin_inv:
  assumes inv: "pc_inv s" and w: "waits s i WaitSend" and idle: "pc_writing s = None"
  shows "pc_inv (send_begin i (await_commit i s))"
proof -
  note u = waiting_unsent [OF inv disjI2 [OF w]]
  note p = pub_ok_unsent [OF u(2,3)]
  have swap: "q\<lparr>pb_phase := ph, pb_settled := True, pb_err := None, pb_sendErr := e\<rparr> =
      q\<lparr>pb_settled := True, pb_err := None, pb_sendErr := e, pb_phase := ph\<rparr>" for q :: pendingPublish and ph e
    by simp
  have unsent: "pc_inv (settle_pub i None (Some e) (await_commit i s))" if "\<not> is_PublishError e" for e
    using p(2) u(1) that
    by (intro unsent_inv [OF inv w swap [where q = "pc_pubs s ! i" and ph = WaitCommit and e = "Some e"]]) (simp_all add: settle_pub_def await_commit_def)
  show ?thesis
  proof (cases "pb_ctx (pc_pubs s ! i)")
    case None
    then show ?thesis using send_register_inv [OF assms] unsent u(1)
      by (simp add: send_begin_def await_commit_def)
  next
    case (Some e)
    then show ?thesis using unsent [of e] p(9) u(1)
      by (auto simp: send_begin_def await_commit_def)
  qed
qed

lemma withdraw_inv:
  assumes inv: "pc_inv s" and w: "waits s i WaitSend"
    and "\<And>x. e = Some x \<Longrightarrow> \<not> is_PublishError x" "\<not> is_PublishError r"
  shows "pc_inv (return_with i (Some r) (settle_pub i None e s))"
  using pub_ok_unsent(2) [OF waiting_unsent(2,3) [OF inv disjI2 [OF w]]] waiting_unsent(1) [OF inv disjI2 [OF w]] assms(3,4)
  by (intro unsent_inv [OF inv w refl, of e "Returned (Some r)"]) (auto simp: settle_pub_def return_with_def)

text \<open>Settling a committed publication that is no longer pending.\<close>

lemma settle_committed_inv:
  assumes inv: "pc_inv s" and i: "i < length (pc_pubs s)" and c: "pb_committed (pc_pubs s ! i)"
    and np: "\<not> is_pending s i"
    and v: "\<not> pb_settled (pc_pubs s ! i) \<Longrightarrow> verdict_ok ((pc_pubs s ! i)\<lparr>pb_err := v\<rparr>)"
  shows "pc_inv (settle_pub i v None s)"
proof -
  note p = pc_invD [OF inv i]
  let ?p = "pc_pubs s ! i"
  have ret: "result_ok (is_writing s i) (?p\<lparr>pb_settled := True, pb_err := v, pb_sendErr := None\<rparr>) r =
      result_ok (is_writing s i) ?p r" for r
    by (simp add: result_ok_def split: option.split)
  have vd: "verdict_ok (?p\<lparr>pb_settled := True, pb_err := v, pb_sendErr := None\<rparr>) = verdict_ok (?p\<lparr>pb_err := v\<rparr>)"
    by (simp add: verdict_ok_def)
  have adm: "pb_admitted ?p" using p c by (auto simp: pub_ok_def base_ok_def)
  show ?thesis
  proof (rule pc_inv_settle [OF inv i adm])
    assume ns: "\<not> pb_settled ?p"
    have "base_ok (?p\<lparr>pb_settled := True, pb_err := v, pb_sendErr := None\<rparr>)"
      using p adm v [OF ns] vd by (simp add: pub_ok_def base_ok_def)
    moreover have "link_ok (is_pending s i) (is_writing s i) (?p\<lparr>pb_settled := True, pb_err := v, pb_sendErr := None\<rparr>)"
      using p np by (simp add: pub_ok_def link_ok_def)
    moreover have "phase_ok (is_writing s i) (?p\<lparr>pb_settled := True, pb_err := v, pb_sendErr := None\<rparr>)"
      using p c ret by (auto simp: pub_ok_def phase_ok_def split: phase.splits)
    ultimately show "pub_ok (is_pending s i) (is_writing s i) (?p\<lparr>pb_settled := True, pb_err := v, pb_sendErr := None\<rparr>)"
      by (simp add: pub_ok_def)
  qed
qed

lemma send_end_inv:
  assumes inv: "pc_inv s" and w: "pc_writing s = Some (i, tag)"
  shows "pc_inv (send_end i tag res now s)"
proof -
  have i: "i < length (pc_pubs s)" and wr: "is_writing s i"
    using inv w by (auto simp: pc_inv_def is_writing_def)
  note p = pc_invD [OF inv i]
  let ?p = "pc_pubs s ! i"
  have c: "pb_committed ?p" "\<not> pb_written ?p" "pb_sendErr ?p = None" "pb_admitted ?p"
    using p wr by (auto simp: pub_ok_def link_ok_def base_ok_def)
  have phase: "\<And>r. pb_phase ?p = Returned r \<Longrightarrow> result_ok True ?p r"
    using p wr by (simp add: pub_ok_def phase_ok_def)
  let ?ps = "filter (\<lambda>(t, j). (t, j) \<noteq> (tag, i)) (pc_pending s)"
  have idle: "pc_inv (s\<lparr>pc_pending := ?ps, pc_writing := None\<rparr>)"
    by (rule pc_inv_pending [OF inv]) (use inv in \<open>auto simp: pc_inv_def intro: distinct_map_filter\<close>)
  show ?thesis
  proof (cases res)
    case None
    let ?q = "?p\<lparr>pb_sentAt := Some now, pb_written := True\<rparr>"
    have ret: "result_ok False ?q r" if "pb_phase ?p = Returned r" for r
      using phase [OF that] by (auto simp: result_ok_def split: option.splits if_splits)
    have vd: "verdict_ok ?q = verdict_ok ?p" by (simp add: verdict_ok_def)
    have q: "pub_ok (is_pending s i) False ?q"
      using p c ret vd wr by (auto simp: pub_ok_def base_ok_def link_ok_def phase_ok_def split: phase.splits)
    define s1 where "s1 = send_end i tag res now s"
    have s1: "pc_pubs s1 = (pc_pubs s)[i := ?q]" "pc_cap s1 = pc_cap s" "pc_slots s1 = pc_slots s"
      "pc_pending s1 = pc_pending s" "pc_writing s1 = None"
      by (simp_all add: s1_def send_end_def None)
    have "pc_inv s1"
      using inv q by (intro pc_invI [OF inv i s1(1,2)])
        (auto simp: s1 is_pending_def is_writing_def holds_slot_def pc_inv_def)
    then show ?thesis by (simp add: s1_def)
  next
    case (Some e)
    let ?s = "s\<lparr>pc_pending := ?ps, pc_writing := None\<rparr>"
    let ?q = "?p\<lparr>pb_settled := True, pb_err := None, pb_sendErr := Some (write_error ?p e)\<rparr>"
    have np: "\<not> is_pending ?s i"
    proof
      assume "is_pending ?s i"
      then obtain a where a: "(a, i) \<in> set (pc_pending s)" "a \<noteq> tag" by (auto simp: is_pending_def)
      then have "(tag, i) \<in> set (pc_pending s)" using inv w unfolding pc_inv_def is_pending_def by force
      moreover have "distinct (map snd (pc_pending s))" using inv by (simp add: pc_inv_def)
      ultimately show False using a distinct_snd_unique by metis
    qed
    have ret: "result_ok False ?q r" if "pb_phase ?p = Returned r" for r
      using phase [OF that] by (auto simp: result_ok_def split: option.splits if_splits)
    have "pub_ok False False ?q"
      using p c ret by (auto simp: pub_ok_def base_ok_def link_ok_def phase_ok_def split: phase.splits)
    then have "pc_inv (settle_pub i None (Some (write_error ?p e)) ?s)"
      using i c np by (intro pc_inv_settle [OF idle]) (simp_all add: is_writing_def)
    then show ?thesis by (simp add: send_end_def Some)
  qed
qed

text \<open>The return is attributed to the pending match with the smallest tag.\<close>

lemma oldest_match_cases:
  "oldest_match m ps best = Some (t, i) \<Longrightarrow> best = Some (t, i) \<or> (t, i) \<in> set ps \<and> m i"
proof (induction ps arbitrary: best)
  case (Cons p ps)
  obtain tag j where p: "p = (tag, j)" by fastforce
  from Cons.IH [of "if m j \<and> (case best of None \<Rightarrow> True | Some (t, _) \<Rightarrow> tag < t) then Some (tag, j) else best"] Cons.prems
  show ?case by (auto simp: p split: if_splits)
qed simp

lemma oldest_match_least:
  "oldest_match m ps best = Some (t, i) \<Longrightarrow>
   (\<forall>(u, j) \<in> set ps. m j \<longrightarrow> t \<le> u) \<and> (\<forall>u j. best = Some (u, j) \<longrightarrow> t \<le> u)"
proof (induction ps arbitrary: best)
  case (Cons p ps)
  obtain tag j where p: "p = (tag, j)" by fastforce
  from Cons.IH [of "if m j \<and> (case best of None \<Rightarrow> True | Some (t, _) \<Rightarrow> tag < t) then Some (tag, j) else best"] Cons.prems
  show ?case by (fastforce simp: p split: if_splits option.splits)
qed simp

lemma oldest_match_None: "oldest_match m ps best = None \<longleftrightarrow> best = None \<and> (\<forall>(u, j) \<in> set ps. \<not> m j)"
  by (induction m ps best rule: oldest_match.induct) auto

text \<open>A pending publication whose caller has returned got an ambiguous error.\<close>

lemma pending_result:
  assumes "pub_ok True wr p" "pb_phase p = Returned r" "pb_written q = pb_written p"
  shows "result_ok wr q r"
  using assms by (auto simp: pub_ok_def phase_ok_def link_ok_def result_ok_def split: option.splits if_splits)

lemma pub_ok_returned:
  assumes "pub_ok True wr p" "pb_mandatory p"
  shows "pub_ok True wr (p\<lparr>pb_returned := True\<rparr>)"
  using assms pending_result [OF assms(1), of _ "p\<lparr>pb_returned := True\<rparr>"]
  by (auto simp: pub_ok_def base_ok_def link_ok_def phase_ok_def split: phase.splits)

lemma pub_ok_confirmed:
  assumes "pub_ok True wr p"
  shows "pub_ok False wr (p\<lparr>pb_confirm := Some a\<rparr>)"
  using assms pending_result [OF assms, of _ "p\<lparr>pb_confirm := Some a\<rparr>"]
  by (auto simp: pub_ok_def base_ok_def link_ok_def phase_ok_def split: phase.splits)

lemma markReturned_inv:
  assumes inv: "pc_inv s"
  shows "pc_inv (markReturned mid x k s)"
proof (cases "oldest_match (return_matches s mid x k) (pc_pending s) None")
  case (Some a)
  obtain t i where a: "a = (t, i)" by fastforce
  have m: "(t, i) \<in> set (pc_pending s)" "return_matches s mid x k i"
    using oldest_match_cases [of "return_matches s mid x k" "pc_pending s" None t i] Some a by simp_all
  have pend: "is_pending s i" using m(1) by (force simp: is_pending_def)
  then have i: "i < length (pc_pubs s)" using inv by (simp add: pc_inv_def)
  have "pub_ok True (is_writing s i) (pc_pubs s ! i)" using pc_invD [OF inv i] pend by simp
  then show ?thesis
    using m(2) pend Some a i
    by (auto simp: markReturned_def return_matches_def Let_def holds_slot_def intro!: pc_inv_upd [OF inv i] pub_ok_returned)
qed (simp add: markReturned_def inv)

lemma resolve_inv:
  assumes inv: "pc_inv s"
  shows "pc_inv (resolve tag acked s)"
proof (cases "map_of (pc_pending s) tag")
  case (Some i)
  then have m: "(tag, i) \<in> set (pc_pending s)" by (rule map_of_SomeD)
  then have pend: "is_pending s i" by (force simp: is_pending_def)
  then have i: "i < length (pc_pubs s)" using inv by (simp add: pc_inv_def)
  have p: "pub_ok True (is_writing s i) (pc_pubs s ! i)" using pc_invD [OF inv i] pend by simp
  let ?p = "pc_pubs s ! i"
  define ps where "ps = filter (\<lambda>(t, j). t \<noteq> tag) (pc_pending s)"
  have d: "distinct (map fst (pc_pending s))" "distinct (map snd (pc_pending s))" using inv by (simp_all add: pc_inv_def)
  have sub: "set ps \<subseteq> set (pc_pending s)" by (auto simp: ps_def)
  have np: "i \<notin> snd ` set ps" using distinct_snd_unique [OF d(2)] m by (auto simp: ps_def)
  define s1 where "s1 = upd i (\<lambda>p. p\<lparr>pb_confirm := Some acked\<rparr>) (s\<lparr>pc_pending := ps\<rparr>)"
  have pubs: "pc_pubs s1 = (pc_pubs s)[i := ?p\<lparr>pb_confirm := Some acked\<rparr>]" "pc_cap s1 = pc_cap s"
    by (simp_all add: s1_def)
  have inv1: "pc_inv s1"
  proof (rule pc_invI [OF inv i pubs])
    show "pub_ok (is_pending s1 i) (is_writing s1 i) (?p\<lparr>pb_confirm := Some acked\<rparr>)"
      using pub_ok_confirmed [OF p] np by (simp add: s1_def is_pending_def is_writing_def)
    show "(t, j) \<in> set (pc_pending s1)" if w: "pc_writing s1 = Some (j, t)" and pj: "is_pending s1 j" for j t
    proof -
      obtain u where u: "(u, j) \<in> set ps" using pj by (auto simp: s1_def is_pending_def)
      then have uj: "(u, j) \<in> set (pc_pending s)" using sub by blast
      then have "is_pending s j" by (force simp: is_pending_def)
      then have "(t, j) \<in> set (pc_pending s)" using inv w by (simp add: pc_inv_def s1_def)
      then have "t = u" using uj distinct_snd_unique [OF d(2)] by blast
      then show ?thesis using u by (simp add: s1_def)
    qed
  qed (use inv sub d in \<open>auto simp: s1_def holds_slot_def pc_inv_def is_pending_def is_writing_def ps_def
        intro: distinct_map_filter\<close>)
  have "pb_committed ?p" "\<not> pb_settled ?p" using p by (simp_all add: pub_ok_def link_ok_def)
  then have "pc_inv (settle_pub i (if \<not> acked then Some (Sentinel ErrPublishNacked)
      else if pb_returned ?p then Some (Sentinel ErrUnroutable) else None) None s1)"
    using i np by (intro settle_committed_inv [OF inv1]) (auto simp: s1_def is_pending_def verdict_ok_def)
  then show ?thesis by (simp add: resolve_def Some Let_def s1_def ps_def)
qed (simp add: resolve_def inv)

lemma shutdown_inv:
  assumes inv: "pc_inv s"
  shows "pc_inv (shutdown reason s)"
proof -
  have settle_all: "pc_inv (fold (\<lambda>(t, i). settle_pub i (Some (Sentinel ErrChannelClosed)) None) ps s1)"
    if "pc_inv s1" "pc_pending s1 = []" "\<And>t i. (t, i) \<in> set ps \<Longrightarrow> i < length (pc_pubs s1) \<and> pb_committed (pc_pubs s1 ! i)"
    for ps s1 using that
  proof (induction ps arbitrary: s1)
    case (Cons p ps)
    obtain t i where p: "p = (t, i)" by fastforce
    then have i: "i < length (pc_pubs s1)" "pb_committed (pc_pubs s1 ! i)" using Cons.prems(3) by auto
    let ?s = "settle_pub i (Some (Sentinel ErrChannelClosed)) None s1"
    have "pc_inv ?s"
      using i Cons.prems(1,2) by (intro settle_committed_inv) (simp_all add: is_pending_def verdict_ok_def)
    moreover have "j < length (pc_pubs ?s) \<and> pb_committed (pc_pubs ?s ! j)" if "(u, j) \<in> set ps" for u j
      using Cons.prems(3) [of u j] that i by (auto simp: settle_nth)
    ultimately have "pc_inv (fold (\<lambda>(t, i). settle_pub i (Some (Sentinel ErrChannelClosed)) None) ps ?s)"
      using Cons.prems(2) by (intro Cons.IH) simp_all
    then show ?case by (simp add: p)
  qed simp
  let ?s = "s\<lparr>pc_pending := [], pc_closeErr := reason, pc_closed := True\<rparr>"
  have w: "pc_inv (s\<lparr>pc_pending := [], pc_writing := pc_writing s\<rparr>)"
    by (rule pc_inv_pending [OF inv]) auto
  have "pc_inv ?s" using w by (simp add: pc_inv_def is_pending_def is_writing_def)
  moreover have "i < length (pc_pubs s) \<and> pb_committed (pc_pubs s ! i)" if "(t, i) \<in> set (pc_pending s)" for t i
  proof -
    have "is_pending s i" using that by (force simp: is_pending_def)
    then show ?thesis using inv pc_invD [OF inv, of i] by (auto simp: pc_inv_def pub_ok_def link_ok_def)
  qed
  ultimately show ?thesis unfolding shutdown_def by (intro settle_all) simp_all
qed

lemma outcome_ok:
  assumes inv: "pc_inv s" and w: "waits s i WaitCommit \<or> waits s i WaitConfirm" and st: "pb_settled (pc_pubs s ! i)"
  shows "i < length (pc_pubs s)" "result_ok (is_writing s i) (pc_pubs s ! i) (outcome s i)"
proof -
  show i: "i < length (pc_pubs s)" using w by (auto simp: waits_def)
  note p = pc_invD [OF inv i]
  let ?p = "pc_pubs s ! i"
  show "result_ok (is_writing s i) ?p (outcome s i)"
  proof (cases "pb_sendErr ?p")
    case (Some e)
    then show ?thesis using p by (auto simp: outcome_def result_ok_def pub_ok_def base_ok_def link_ok_def)
  next
    case None
    then have "pb_committed ?p" using w p by (auto simp: waits_def pub_ok_def phase_ok_def)
    then have "verdict_ok ?p" using p st None by (auto simp: pub_ok_def base_ok_def)
    then show ?thesis
      using None
      by (auto simp: outcome_def Let_def result_ok_def verdict_ok_def publish_fail_def Ambiguous_def errors_is_def)
  qed
qed

lemma pc_inv_step: "pstep s s1 \<Longrightarrow> pc_inv s \<Longrightarrow> pc_inv s1"
proof (induction rule: pstep.induct)
  case (publish cx s x k mandatory msg)
  let ?p = "new_publication x k mandatory msg cx"
  have "pub_ok False False ?p"
    using publish(1) by (auto simp: new_publication_def pub_ok_def base_ok_def link_ok_def phase_ok_def result_ok_def)
  moreover have "\<not> is_pending s (length (pc_pubs s))" "\<not> is_writing s (length (pc_pubs s))"
    using publish(2) by (auto simp: pc_inv_def)
  ultimately show ?case
    using publish(2)
    by (auto simp: pc_inv_def holders_snoc holds_slot_def new_publication_def nth_append is_pending_def is_writing_def
        less_Suc_eq)
next
  case (ctx_done i s e)
  have "verdict_ok (p\<lparr>pb_ctx := Some e\<rparr>) = verdict_ok p" "result_ok b (p\<lparr>pb_ctx := Some e\<rparr>) r = result_ok b p r" for p b r
    by (simp_all add: verdict_ok_def result_ok_def split: option.split)
  then have "pub_ok (is_pending s i) (is_writing s i) ((pc_pubs s ! i)\<lparr>pb_ctx := Some e\<rparr>)"
    using pc_invD [OF ctx_done(4,1)] ctx_done(3)
    by (auto simp: pub_ok_def base_ok_def link_ok_def phase_ok_def split: phase.splits)
  then show ?case using ctx_done by (intro pc_inv_upd) (simp_all add: holds_slot_def)
next
  case (slot s i)
  note u = waiting_unsent [OF slot(3) disjI1 [OF slot(1)]]
  note p = pub_ok_unsent [OF u(2,3)]
  let ?q = "(pc_pubs s ! i)\<lparr>pb_phase := WaitSend, pb_admitted := True\<rparr>"
  have "pub_ok (is_pending s i) (is_writing s i) ?q"
    using p u(2) by (auto simp: pub_ok_def base_ok_def link_ok_def phase_ok_def)
  then show ?case
    using slot p u(1) by (intro pc_inv_change [OF slot(3) u(1)]) (auto simp: acquire_slot_def holds_slot_def waits_def)
next
  case (slot_closed s i)
  then show ?case by (intro return_with_inv unsent_result waiting_unsent(1)) simp_all
next
  case (slot_ctx s i e)
  have "i < length (pc_pubs s)" using slot_ctx(1) by (simp add: waits_def)
  then show ?case
    using slot_ctx ctx_not_publish by (intro return_with_inv unsent_result) simp_all
next
  case (slot_stalled s i now)
  then show ?case using unsent_result [of s i "stalled s"] waiting_unsent(1) [of s i]
    by (intro return_with_inv) simp_all
next
  case (send s i)
  then show ?case by (intro send_begin_inv)
next
  case (send_raced s i)
  then show ?case by (intro send_register_inv)
next
  case (send_closed s i)
  then show ?case by (intro withdraw_inv) auto
next
  case (send_ctx s i e)
  have "i < length (pc_pubs s)" using send_ctx(1) by (simp add: waits_def)
  then have "\<not> is_PublishError e" using ctx_not_publish send_ctx by blast
  then show ?case using send_ctx by (intro withdraw_inv) auto
next
  case (send_stalled s i now)
  have "pc_inv (return_with i (Some (stalled s)) (settle_pub i None None s))"
    using send_stalled by (intro withdraw_inv) auto
  moreover have "return_with i r (s1\<lparr>pc_retired := True\<rparr>) = (return_with i r s1)\<lparr>pc_retired := True\<rparr>" for r s1
    by (simp add: return_with_def upd_def)
  ultimately show ?case
    using retire_cases [of now "settle_pub i None None s"] by auto
next
  case (written s i tag res now)
  then show ?case by (intro send_end_inv)
next
  case (committed s i)
  have i: "i < length (pc_pubs s)" using committed(1) by (simp add: waits_def)
  then show ?case
    using pc_invD [OF committed(3) i] committed
    by (intro pc_inv_upd) (simp_all add: holds_slot_def pub_ok_def phase_ok_def)
next
  case (settled s i)
  then show ?case by (intro return_with_inv outcome_ok)
next
  case (confirm_timeout s i)
  then show ?case
    by (intro return_with_inv) (simp_all add: waits_def result_ok_def publish_fail_def Ambiguous_def errors_is_def)
next
  case (confirm_ctx s i e)
  have i: "i < length (pc_pubs s)" using confirm_ctx(1) by (simp add: waits_def)
  have "e \<in> {Sentinel ctxCanceled, Sentinel ctxDeadlineExceeded}"
    using pc_invD [OF confirm_ctx(3) i] confirm_ctx(2) by (auto simp: pub_ok_def base_ok_def)
  then show ?case using confirm_ctx i
    by (intro return_with_inv) (auto simp: result_ok_def publish_fail_def Ambiguous_def errors_is_def)
next
  case (returned s mid x k)
  then show ?case by (intro markReturned_inv)
next
  case (confirm s tag acked)
  then show ?case by (intro resolve_inv)
next
  case (close s reason)
  then show ?case by (intro shutdown_inv)
qed

lemma retire_cap: "pc_cap (retireIfWedged now s) = pc_cap s"
  using retire_cases [of now s] by auto

lemma shutdown_cap: "pc_cap (shutdown reason s) = pc_cap s"
proof -
  have "pc_cap (fold (\<lambda>(t, i). settle_pub i v e) ps s) = pc_cap s" for v e s and ps :: "(nat \<times> nat) list"
    by (induction ps arbitrary: s) (auto simp: settle_pub_def)
  then show ?thesis by (simp add: shutdown_def)
qed

lemma preachable_inv: "preachable timeout cap s \<Longrightarrow> pc_inv s \<and> pc_cap s = cap"
proof (induction rule: preachable.induct)
  case (step s s1)
  have "pc_cap s1 = pc_cap s" using step(2)
    by (cases rule: pstep.cases)
       (simp_all add: acquire_slot_def return_with_def send_begin_def send_register_def await_commit_def settle_pub_def
          send_end_def markReturned_def resolve_def shutdown_cap Let_def retire_cap split: option.split)
  then show ?case using step pc_inv_step by simp
next
  case init
  have "pc_cap (newPubChannel timeout cap) = cap" by (simp add: newPubChannel_def)
  then show ?case using pc_inv_init by blast
qed

text \<open>Everything pending holds a slot.\<close>

lemma pending_le_slots:
  assumes inv: "pc_inv s"
  shows "length (pc_pending s) \<le> pc_slots s"
proof -
  let ?H = "{i. i < length (pc_pubs s) \<and> holds_slot (pc_pubs s ! i)}"
  have "snd ` set (pc_pending s) \<subseteq> ?H"
  proof
    fix i assume "i \<in> snd ` set (pc_pending s)"
    then have pend: "is_pending s i" by (simp add: is_pending_def)
    then have i: "i < length (pc_pubs s)" using inv by (simp add: pc_inv_def)
    then show "i \<in> ?H"
      using pc_invD [OF inv i] pend by (auto simp: pub_ok_def link_ok_def base_ok_def holds_slot_def)
  qed
  then have "card (snd ` set (pc_pending s)) \<le> card ?H" by (intro card_mono) simp_all
  moreover have "card (snd ` set (pc_pending s)) = length (pc_pending s)"
    using inv distinct_card [of "map snd (pc_pending s)"] by (simp add: pc_inv_def)
  moreover have "card ?H = pc_slots s"
    using inv length_filter_conv_card [of holds_slot "pc_pubs s"] by (simp add: pc_inv_def holders_def)
  ultimately show ?thesis by simp
qed

text \<open>A publish that reports its channel gone put nothing on the wire, and can be made again.\<close>

lemma gone_not_written:
  assumes "preachable timeout cap s" "i < length (pc_pubs s)" "pb_phase (pc_pubs s ! i) = Returned (Some e)"
    and "errors_is_val e errChannelGone"
  shows "\<not> pb_written (pc_pubs s ! i)"
proof -
  have "pub_ok (is_pending s i) (is_writing s i) (pc_pubs s ! i)"
    using preachable_inv [OF assms(1)] pc_invD assms(2) by blast
  then have r: "result_ok (is_writing s i) (pc_pubs s ! i) (Some e)"
    using assms(3) by (simp add: pub_ok_def phase_ok_def)
  have "\<not> is_PublishError e"
  proof
    assume "is_PublishError e"
    moreover from this r obtain x where "pe_Err e = Sentinel x" by (auto simp: result_ok_def)
    ultimately show False using assms(4) by (cases e) (auto simp: errors_is_val_def errChannelGone_def)
  qed
  then show ?thesis using r by (simp add: result_ok_def)
qed

section \<open>Properties\<close>


text \<open>One publication taken through to its confirm.\<close>

definition run_start :: pubChannel where
  "run_start = (newPubChannel 5 1)\<lparr>pc_pubs := pc_pubs (newPubChannel 5 1) @ [new_publication ''x'' ''k'' True empty_publishing None]\<rparr>"

definition run_sent :: pubChannel where
  "run_sent = send_end 0 1 None 7 (send_begin 0 (await_commit 0 (acquire_slot 0 run_start)))"

definition run_done :: pubChannel where
  "run_done = return_with 0 (outcome (resolve 1 True run_sent) 0) (resolve 1 True run_sent)"

lemmas run_defs = run_start_def run_sent_def run_done_def newPubChannel_def new_publication_def acquire_slot_def
  await_commit_def send_begin_def send_register_def send_end_def resolve_def settle_pub_def outcome_def
  return_with_def upd_def waits_def

lemma run_sent_reachable: "preachable 5 1 run_sent"
proof -
  have "preachable 5 1 run_start"
    unfolding run_start_def by (rule preachable.step [OF preachable.init pstep.publish]) simp
  then have "preachable 5 1 (acquire_slot 0 run_start)"
    by (rule preachable.step [OF _ pstep.slot]) (simp_all add: run_defs)
  then have "preachable 5 1 (send_begin 0 (await_commit 0 (acquire_slot 0 run_start)))"
    by (rule preachable.step [OF _ pstep.send]) (simp_all add: run_defs)
  then show ?thesis
    unfolding run_sent_def by (rule preachable.step [OF _ pstep.written]) (simp add: run_defs)
qed

lemma run_done_reachable: "preachable 5 1 run_done"
proof -
  have "preachable 5 1 (resolve 1 True run_sent)"
    by (rule preachable.step [OF run_sent_reachable pstep.confirm]) (simp add: run_defs)
  then show ?thesis
    unfolding run_done_def by (rule preachable.step [OF _ pstep.settled]) (simp_all add: run_defs)
qed

lemma run_done_returned: "0 < length (pc_pubs run_done)" "pb_phase (pc_pubs run_done ! 0) = Returned None"
  by (simp_all add: run_defs)


text \<open>
  C19. The outstanding-publish limit holds in every reachable state: the slots in use are
  exactly the publications admitted and not settled, and neither they nor the pending table
  exceed the channel's capacity.
\<close>

theorem outstanding_bounded:
  assumes "preachable timeout cap s"
  shows "length (filter (\<lambda>p. pb_admitted p \<and> \<not> pb_settled p) (pc_pubs s)) = pc_slots s \<and> pc_slots s \<le> cap \<and>
    length (pc_pending s) \<le> pc_slots s"
proof -
  have "pc_inv s" "pc_cap s = cap" using preachable_inv [OF assms] by simp_all
  moreover have "holds_slot = (\<lambda>p. pb_admitted p \<and> \<not> pb_settled p)" by (simp add: fun_eq_iff holds_slot_def)
  ultimately show ?thesis using pending_le_slots by (simp add: pc_inv_def holders_def)
qed

theorem outstanding_bounded_witness:
  "length (pc_pending run_sent) \<le> pc_slots run_sent \<and> pc_slots run_sent \<le> 1 \<and> pc_pending run_sent = [(1, 0)]"
  using outstanding_bounded [OF run_sent_reachable] by (simp add: run_defs)

text \<open>The choice among the matching publications does not depend on the order of the walk.\<close>

lemma oldest_match_iff:
  assumes "distinct (map fst ps)"
  shows "oldest_match f ps None = Some (t, i) \<longleftrightarrow>
    (t, i) \<in> set ps \<and> f i \<and> list_all (\<lambda>(u, j). f j \<longrightarrow> t \<le> u) ps" (is "?L \<longleftrightarrow> ?R")
proof
  show ?R if ?L
    using that oldest_match_cases [of f ps None t i] oldest_match_least [of f ps None t i] by (auto simp: list_all_iff)
  assume r: ?R
  then obtain u j where o: "oldest_match f ps None = Some (u, j)"
    using oldest_match_None [of f ps None] by (cases "oldest_match f ps None") auto
  have m: "(u, j) \<in> set ps" "f j" "t \<le> u" "u \<le> t"
    using oldest_match_cases [OF o] oldest_match_least [OF o] r by (auto simp: list_all_iff)
  then have "i = j" using r assms eq_key_imp_eq_value [of ps t] by auto
  then show ?L using o m by simp
qed

lemma nth_update_if: "i < length xs \<Longrightarrow> xs[b := v] ! i = (if b = i then v else xs ! i)"
  by (simp add: nth_list_update)

text \<open>
  A message the broker returns as unroutable marks exactly one publication: the
  oldest unsettled mandatory one with that message id, exchange and routing key. The
  characterisation does not mention the order in which the pending table is walked.
\<close>

theorem return_goes_to_oldest:
  assumes "preachable timeout cap s" "i < length (pc_pubs s)"
  shows "pb_returned (pc_pubs (markReturned mid x k s) ! i) \<longleftrightarrow>
    pb_returned (pc_pubs s ! i) \<or>
    (\<exists>t. (t, i) \<in> set (pc_pending s) \<and> return_matches s mid x k i \<and>
      list_all (\<lambda>(u, j). return_matches s mid x k j \<longrightarrow> t \<le> u) (pc_pending s))"
proof -
  have "distinct (map fst (pc_pending s))" using preachable_inv [OF assms(1)] by (simp add: pc_inv_def)
  with assms(2) show ?thesis
    by (cases "oldest_match (return_matches s mid x k) (pc_pending s) None")
      (auto simp: markReturned_def nth_update_if oldest_match_iff [of "pc_pending s" "return_matches s mid x k" _ i, symmetric])
qed

theorem return_goes_to_oldest_witness:
  "0 < length (pc_pubs run_sent) \<and> pb_returned (pc_pubs (markReturned [] ''x'' ''k'' run_sent) ! 0)"
  using return_goes_to_oldest [OF run_sent_reachable, of 0 "[]" "''x''" "''k''"]
  by (simp add: run_defs return_matches_def empty_publishing_def)

end
