(* ===== verification/Session.thy ===== *)
theory Session imports Amqp begin

text \<open>
  The connection of a bus, \<open>session.go\<close>, and what \<open>bus.go\<close> does with it: attaching a
  component and closing. The supervisor goroutine, any number of goroutines attaching
  components, one closing the bus and the broker dropping connections interleave. The steps
  follow the critical sections of the code and its calls that block. The first connection is
  installed and marked ready in one step, and the components of a lost connection and its
  observers are told of it in one step.

  A connection, a ready channel and a component's registration are natural numbers.
  \<open>sy_restored\<close> is the connection a component was last restored on and not told it lost,
  \<open>sy_closes\<close> counts the calls of its \<open>close\<close> by the bus.
\<close>

section \<open>The session\<close>

datatype ConnectionEvent =
    EventDisconnected err
  | EventReconnecting nat duration
  | EventReconnected nat
  | EventGaveUp nat "err option"

record session =
  s_conn :: "nat option"
  s_gen :: u64
  s_ready :: nat
  s_chans :: nat
  s_closedCh :: "nat list"
  s_isReady :: bool
  s_comps :: "nat list"
  s_doneErr :: "err option"
  s_cancelled :: bool
  s_panic :: bool

definition newSession :: session where
  "newSession =
     \<lparr>s_conn = None, s_gen = 0, s_ready = 0, s_chans = 1, s_closedCh = [], s_isReady = False, s_comps = [],
      s_doneErr = None, s_cancelled = False, s_panic = False\<rparr>"

definition finish_session :: "err \<Rightarrow> session \<Rightarrow> session" where
  "finish_session e s = (if s_doneErr s = None then s\<lparr>s_doneErr := Some e\<rparr> else s)"

text \<open>Closing a channel that is closed already panics.\<close>

definition markReady :: "session \<Rightarrow> session" where
  "markReady s =
     (if s_doneErr s \<noteq> None then s
      else if \<not> s_isReady s
      then s\<lparr>s_isReady := True, s_panic := s_panic s \<or> s_ready s \<in> set (s_closedCh s),
             s_closedCh := s_ready s # s_closedCh s\<rparr>
      else s)"

definition markNotReady :: "session \<Rightarrow> session" where
  "markNotReady s =
     (if s_isReady s then s\<lparr>s_isReady := False, s_ready := s_chans s, s_chans := s_chans s + 1\<rparr> else s)"

definition install :: "nat \<Rightarrow> session \<Rightarrow> session" where
  "install c s = s\<lparr>s_conn := Some c, s_gen := s_gen s + 1\<rparr>"

definition register :: "nat \<Rightarrow> session \<Rightarrow> session" where
  "register r s = s\<lparr>s_comps := s_comps s @ [r]\<rparr>"

definition unregister :: "nat \<Rightarrow> session \<Rightarrow> session" where
  "unregister r s = s\<lparr>s_comps := remove1 r (s_comps s)\<rparr>"

definition current :: "session \<Rightarrow> nat option \<times> u64 \<times> bool" where
  "current s = (s_conn s, s_gen s, s_isReady s \<and> s_doneErr s = None)"

definition gave_up :: "nat \<Rightarrow> err" where
  "gave_up attempts =
     wrap1 (sentinel_text ErrNotReady @ '': gave up reconnecting after '' @ format_int (int attempts) @ '' attempts'')
       (Sentinel ErrNotReady)"

definition restore_error :: "string \<Rightarrow> err \<Rightarrow> err" where
  "restore_error ty e = wrap1 (''restoring '' @ ty @ '': '' @ error_text e) e"

section \<open>The whole system\<close>

text \<open>Where the supervisor, an attaching goroutine and the closing one have got to.\<close>

datatype sup =
    SupNone
  | SupWatch
  | SupNotify err
  | SupTry nat "err option"
  | SupSleep nat "err option"
  | SupDialed nat nat
  | SupRestore nat nat
  | SupRestoring nat nat "nat list"
  | SupFailed nat nat err
  | SupRestored nat nat
  | SupAnnounce nat nat
  | SupReady nat
  | SupGaveUp nat "err option"
  | SupEnd

datatype att =
    AttNone
  | AttWait
  | AttSnap nat
  | AttReady
  | AttLocked
  | AttChecked
  | AttRestoring nat
  | AttRegister nat
  | AttEnrol
  | AttOk
  | AttFail err
  | AttAbandoned

datatype closing =
    ClNone
  | ClFail "nat list"
  | ClClosing "nat list"
  | ClCancelled
  | ClConn "nat option"
  | ClWait
  | ClLast "nat option"
  | ClDone

datatype actor = Supervisor | Attacher nat

record sys =
  sy_s :: session
  sy_mu :: "actor option"
  sy_closed :: bool
  sy_closers :: "nat list"
  sy_open :: "nat list"
  sy_conns :: nat
  sy_sup :: sup
  sy_att :: "nat \<Rightarrow> att"
  sy_close :: closing
  sy_restored :: "nat \<Rightarrow> nat option"
  sy_closes :: "nat \<Rightarrow> nat"
  sy_events :: "ConnectionEvent list"

definition sys0 :: sys where
  "sys0 =
     \<lparr>sy_s = newSession, sy_mu = None, sy_closed = False, sy_closers = [], sy_open = [], sy_conns = 0,
      sy_sup = SupNone, sy_att = \<lambda>_. AttNone, sy_close = ClNone, sy_restored = \<lambda>_. None, sy_closes = \<lambda>_. 0,
      sy_events = []\<rparr>"

definition goto_sup :: "sup \<Rightarrow> sys \<Rightarrow> sys" where
  "goto_sup p y = y\<lparr>sy_sup := p\<rparr>"

definition goto_att :: "nat \<Rightarrow> att \<Rightarrow> sys \<Rightarrow> sys" where
  "goto_att r p y = y\<lparr>sy_att := (sy_att y)(r := p)\<rparr>"

definition goto_close :: "closing \<Rightarrow> sys \<Rightarrow> sys" where
  "goto_close p y = y\<lparr>sy_close := p\<rparr>"

definition on_session :: "(session \<Rightarrow> session) \<Rightarrow> sys \<Rightarrow> sys" where
  "on_session f y = y\<lparr>sy_s := f (sy_s y)\<rparr>"

definition lock :: "actor \<Rightarrow> sys \<Rightarrow> sys" where
  "lock a y = y\<lparr>sy_mu := Some a\<rparr>"

definition unlock :: "sys \<Rightarrow> sys" where
  "unlock y = y\<lparr>sy_mu := None\<rparr>"

definition emit :: "ConnectionEvent \<Rightarrow> sys \<Rightarrow> sys" where
  "emit e y = y\<lparr>sy_events := sy_events y @ [e]\<rparr>"

text \<open>\<open>conn.Close\<close>, and a successful dial.\<close>

definition close_conn :: "nat \<Rightarrow> sys \<Rightarrow> sys" where
  "close_conn c y = y\<lparr>sy_open := filter (\<lambda>x. x \<noteq> c) (sy_open y)\<rparr>"

definition opened :: "sys \<Rightarrow> sys" where
  "opened y = y\<lparr>sy_open := sy_conns y # sy_open y, sy_conns := sy_conns y + 1\<rparr>"

definition close_comp :: "nat \<Rightarrow> sys \<Rightarrow> sys" where
  "close_comp r y = y\<lparr>sy_closes := (sy_closes y)(r := sy_closes y r + 1)\<rparr>"

definition restore_comp :: "nat \<Rightarrow> nat \<Rightarrow> sys \<Rightarrow> sys" where
  "restore_comp r c y = y\<lparr>sy_restored := (sy_restored y)(r := Some c)\<rparr>"

text \<open>\<open>connect\<close>: the dial of the first connection answers with an error or a connection.\<close>

definition connect :: "err option \<Rightarrow> sys \<Rightarrow> err option \<times> sys" where
  "connect res y =
     (case res of
        Some e \<Rightarrow> (Some (wrap1 (''protobus: connect: '' @ error_text e) e), y)
      | None \<Rightarrow>
          let c = sy_conns y; y1 = opened y in
          if s_cancelled (sy_s y) then (Some (Sentinel ErrClosed), close_conn c y1)
          else (None, goto_sup SupWatch (on_session (markReady \<circ> install c) y1)))"

definition lost_all :: "err \<Rightarrow> sys \<Rightarrow> sys" where
  "lost_all cause y =
     emit (EventDisconnected cause)
       (y\<lparr>sy_restored := \<lambda>r. if r \<in> set (s_comps (sy_s y)) then None else sy_restored y r\<rparr>)"

text \<open>
  \<open>giveUp\<close> takes two steps: it finishes the session under the session's lock, which wakes
  every waiter, and tells the observers after that.
\<close>

definition giveUp :: "nat \<Rightarrow> err option \<Rightarrow> sys \<Rightarrow> sys" where
  "giveUp attempts prev y = goto_sup (SupGaveUp attempts prev) (on_session (finish_session (gave_up attempts)) y)"

definition giveUp_emit :: "nat \<Rightarrow> err option \<Rightarrow> sys \<Rightarrow> sys" where
  "giveUp_emit attempts prev y = goto_sup SupEnd (emit (EventGaveUp attempts prev) y)"

definition exhausted :: "int \<Rightarrow> nat \<Rightarrow> bool" where
  "exhausted maxRetries attempt \<longleftrightarrow> maxRetries > 0 \<and> int attempt > maxRetries"

section \<open>Steps\<close>

text \<open>\<open>supervise\<close>, \<open>lost\<close>, \<open>reconnect\<close> and \<open>runRestorers\<close>.\<close>

inductive sup_step :: "int \<Rightarrow> sys \<Rightarrow> sys \<Rightarrow> bool" for maxRetries where
  sup_stop: "sy_sup y = SupWatch \<Longrightarrow> s_cancelled (sy_s y) \<Longrightarrow> sup_step maxRetries y (goto_sup SupEnd y)"
| sup_lost: "sy_sup y = SupWatch \<Longrightarrow> s_conn (sy_s y) = Some c \<Longrightarrow> c \<notin> set (sy_open y) \<Longrightarrow>
    \<not> s_cancelled (sy_s y) \<Longrightarrow> sup_step maxRetries y (goto_sup (SupNotify cause) (on_session markNotReady y))"
| sup_notify: "sy_sup y = SupNotify cause \<Longrightarrow>
    sup_step maxRetries y (goto_sup (SupTry 1 None) (lost_all cause y))"
| sup_give_up: "sy_sup y = SupTry n prev \<Longrightarrow> exhausted maxRetries n \<Longrightarrow>
    sup_step maxRetries y (giveUp (n - 1) prev y)"
| sup_gave_up: "sy_sup y = SupGaveUp n prev \<Longrightarrow> sup_step maxRetries y (giveUp_emit n prev y)"
| sup_try: "sy_sup y = SupTry n prev \<Longrightarrow> \<not> exhausted maxRetries n \<Longrightarrow>
    sup_step maxRetries y (goto_sup (SupSleep n prev) (emit (EventReconnecting n delay) y))"
| sup_sleep_end: "sy_sup y = SupSleep n prev \<Longrightarrow> s_cancelled (sy_s y) \<Longrightarrow> sup_step maxRetries y (goto_sup SupEnd y)"
| sup_dial_fail: "sy_sup y = SupSleep n prev \<Longrightarrow> sup_step maxRetries y (goto_sup (SupTry (n + 1) (Some e)) y)"
| sup_dial: "sy_sup y = SupSleep n prev \<Longrightarrow> sup_step maxRetries y (goto_sup (SupDialed n (sy_conns y)) (opened y))"
| sup_install: "sy_sup y = SupDialed n c \<Longrightarrow>
    sup_step maxRetries y (goto_sup (SupRestore n c) (on_session (install c) y))"
| sup_lock: "sy_sup y = SupRestore n c \<Longrightarrow> sy_mu y = None \<Longrightarrow>
    sup_step maxRetries y (goto_sup (SupRestoring n c (s_comps (sy_s y))) (lock Supervisor y))"
| sup_restore_cancelled: "sy_sup y = SupRestoring n c (r # rs) \<Longrightarrow> s_cancelled (sy_s y) \<Longrightarrow>
    sup_step maxRetries y (goto_sup (SupFailed n c (Sentinel ctxCanceled)) (unlock y))"
| sup_restore_fail: "sy_sup y = SupRestoring n c (r # rs) \<Longrightarrow>
    sup_step maxRetries y (goto_sup (SupFailed n c (restore_error ty e)) (unlock y))"
| sup_restore: "sy_sup y = SupRestoring n c (r # rs) \<Longrightarrow>
    sup_step maxRetries y (goto_sup (SupRestoring n c rs) (restore_comp r c y))"
| sup_restore_done: "sy_sup y = SupRestoring n c [] \<Longrightarrow>
    sup_step maxRetries y (goto_sup (SupRestored n c) (unlock y))"
| sup_failed: "sy_sup y = SupFailed n c e \<Longrightarrow>
    sup_step maxRetries y
      (goto_sup (if s_cancelled (sy_s y) then SupEnd else SupTry (n + 1) (Some e)) (close_conn c y))"
| sup_restored_cancelled: "sy_sup y = SupRestored n c \<Longrightarrow> s_cancelled (sy_s y) \<Longrightarrow>
    sup_step maxRetries y (goto_sup SupEnd (close_conn c y))"
| sup_restored_dead: "sy_sup y = SupRestored n c \<Longrightarrow> c \<notin> set (sy_open y) \<Longrightarrow>
    sup_step maxRetries y (goto_sup (SupTry (n + 1) (Some amqpErrClosed)) y)"
| sup_restored: "sy_sup y = SupRestored n c \<Longrightarrow> \<not> s_cancelled (sy_s y) \<Longrightarrow>
    sup_step maxRetries y (goto_sup (SupAnnounce n c) y)"
| sup_announce: "sy_sup y = SupAnnounce n c \<Longrightarrow>
    sup_step maxRetries y (goto_sup (SupReady n) (on_session markReady y))"
| sup_ready: "sy_sup y = SupReady n \<Longrightarrow> sup_step maxRetries y (goto_sup SupWatch (emit (EventReconnected n) y))"

text \<open>
  How \<open>whenReady\<close> may return, having first read the ready channel \<open>k\<close>: ready, the outcome of
  a finished session, the context's error, or its timeout.
\<close>

definition not_ready_within :: "duration \<Rightarrow> err" where
  "not_ready_within limit =
     wrap1 (sentinel_text ErrNotReady @ '': the connection did not become ready within '' @ duration_string limit)
       (Sentinel ErrNotReady)"

definition whenReady :: "session \<Rightarrow> nat \<Rightarrow> duration \<Rightarrow> err option \<Rightarrow> bool" where
  "whenReady s k limit res \<longleftrightarrow>
     res = None \<and> k \<in> set (s_closedCh s) \<or>
     res \<noteq> None \<and>
       (res = s_doneErr s \<or>
        res \<in> {Some (Sentinel ctxCanceled), Some (Sentinel ctxDeadlineExceeded), Some (not_ready_within limit)})"

text \<open>\<open>attach\<close> and \<open>attachOnce\<close> for the registration \<open>r\<close>.\<close>

inductive att_step :: "nat \<Rightarrow> sys \<Rightarrow> sys \<Rightarrow> bool" for r where
  att_begin: "sy_att y r = AttNone \<Longrightarrow> att_step r y (goto_att r AttWait y)"
| att_snap: "sy_att y r = AttWait \<Longrightarrow> att_step r y (goto_att r (AttSnap (s_ready (sy_s y))) y)"
| att_ready: "sy_att y r = AttSnap k \<Longrightarrow> whenReady (sy_s y) k limit None \<Longrightarrow> att_step r y (goto_att r AttReady y)"
| att_waited: "sy_att y r = AttSnap k \<Longrightarrow> whenReady (sy_s y) k limit (Some e) \<Longrightarrow> att_step r y (goto_att r (AttFail e) y)"
| att_lock: "sy_att y r = AttReady \<Longrightarrow> sy_mu y = None \<Longrightarrow>
    att_step r y (goto_att r AttLocked (lock (Attacher r) y))"
| att_closed: "sy_att y r = AttLocked \<Longrightarrow> sy_closed y \<Longrightarrow>
    att_step r y (goto_att r (AttFail (Sentinel ErrClosed)) (unlock y))"
| att_checked: "sy_att y r = AttLocked \<Longrightarrow> \<not> sy_closed y \<Longrightarrow> att_step r y (goto_att r AttChecked y)"
| att_not_ready: "sy_att y r = AttChecked \<Longrightarrow> current (sy_s y) = (co, g, False) \<Longrightarrow>
    att_step r y (goto_att r AttWait (unlock y))"
| att_current: "sy_att y r = AttChecked \<Longrightarrow> current (sy_s y) = (Some c, g, True) \<Longrightarrow>
    att_step r y (goto_att r (AttRestoring c) y)"
| att_restored: "sy_att y r = AttRestoring c \<Longrightarrow>
    att_step r y (goto_att r (AttRegister c) (restore_comp r c y))"
| att_restore_retry: "sy_att y r = AttRestoring c \<Longrightarrow> c \<notin> set (sy_open y) \<Longrightarrow>
    att_step r y (goto_att r AttWait (unlock y))"
| att_restore_fail: "sy_att y r = AttRestoring c \<Longrightarrow> att_step r y (goto_att r (AttFail e) (unlock y))"
| att_register: "sy_att y r = AttRegister c \<Longrightarrow>
    att_step r y (goto_att r AttEnrol (on_session (register r) y))"
| att_enrol_closed: "sy_att y r = AttEnrol \<Longrightarrow> sy_closed y \<Longrightarrow>
    att_step r y (goto_att r AttAbandoned (unlock (close_comp r (on_session (unregister r) y))))"
| att_enrol: "sy_att y r = AttEnrol \<Longrightarrow> \<not> sy_closed y \<Longrightarrow>
    att_step r y (goto_att r AttOk (unlock (y\<lparr>sy_closers := sy_closers y @ [r]\<rparr>)))"
| att_unregister: "sy_att y r = AttOk \<Longrightarrow> att_step r y (on_session (unregister r) y)"

text \<open>\<open>Bus.Close\<close>, ending in \<open>session.close\<close>; a second call returns at once and takes no step.\<close>

definition drop_conn :: "nat option \<Rightarrow> sys \<Rightarrow> sys" where
  "drop_conn co y = (case co of None \<Rightarrow> y | Some c \<Rightarrow> close_conn c y)"

inductive close_step :: "sys \<Rightarrow> sys \<Rightarrow> bool" where
  close_begin: "sy_close y = ClNone \<Longrightarrow> \<not> sy_closed y \<Longrightarrow>
    close_step y (goto_close (ClFail (sy_closers y)) (y\<lparr>sy_closed := True, sy_closers := []\<rparr>))"
| close_finish: "sy_close y = ClFail rs \<Longrightarrow>
    close_step y (goto_close (ClClosing (rev rs)) (on_session (finish_session (Sentinel ErrClosed)) y))"
| close_one: "sy_close y = ClClosing (r # rs) \<Longrightarrow>
    close_step y (goto_close (ClClosing rs) (close_comp r (on_session (unregister r) y)))"

inductive sclose_step :: "sys \<Rightarrow> sys \<Rightarrow> bool" where
  close_cancel: "sy_close y = ClClosing [] \<Longrightarrow>
    sclose_step y (goto_close ClCancelled
      (on_session (\<lambda>s. (finish_session (Sentinel ErrClosed) s)\<lparr>s_cancelled := True\<rparr>) y))"
| close_read: "sy_close y = ClCancelled \<Longrightarrow>
    sclose_step y (goto_close (ClConn (s_conn (sy_s y))) (on_session (\<lambda>s. s\<lparr>s_isReady := False\<rparr>) y))"
| close_drop: "sy_close y = ClConn co \<Longrightarrow> sclose_step y (goto_close ClWait (drop_conn co y))"
| close_wait: "sy_close y = ClWait \<Longrightarrow> sy_sup y = SupNone \<or> sy_sup y = SupEnd \<Longrightarrow>
    sclose_step y (goto_close (ClLast (s_conn (sy_s y))) y)"
| close_last: "sy_close y = ClLast co \<Longrightarrow> sclose_step y (goto_close ClDone (drop_conn co y))"

inductive sstep :: "int \<Rightarrow> sys \<Rightarrow> sys \<Rightarrow> bool" for maxRetries where
  dialled: "sy_sup y = SupNone \<Longrightarrow> sstep maxRetries y (snd (connect res y))"
| dropped: "sstep maxRetries y (close_conn c y)"
| supervised: "sup_step maxRetries y y1 \<Longrightarrow> sstep maxRetries y y1"
| attached: "att_step r y y1 \<Longrightarrow> sstep maxRetries y y1"
| closed: "close_step y y1 \<Longrightarrow> sstep maxRetries y y1"
| sclosed: "sclose_step y y1 \<Longrightarrow> sstep maxRetries y y1"

inductive sreachable :: "int \<Rightarrow> sys \<Rightarrow> bool" for maxRetries where
  start: "sreachable maxRetries sys0"
| step: "sreachable maxRetries y \<Longrightarrow> sstep maxRetries y y1 \<Longrightarrow> sreachable maxRetries y1"

section \<open>Invariants\<close>

lemma drop_conn_eq: "drop_conn co y = y\<lparr>sy_open := filter (\<lambda>x. Some x \<noteq> co) (sy_open y)\<rparr>"
  by (cases co) (simp_all add: drop_conn_def close_conn_def)

lemmas sys_defs = goto_sup_def goto_att_def goto_close_def on_session_def lock_def unlock_def emit_def close_conn_def
  opened_def close_comp_def restore_comp_def drop_conn_eq
lemmas ses_defs = finish_session_def markReady_def markNotReady_def install_def register_def unregister_def

text \<open>What each operation of the session leaves alone.\<close>

lemma ses_simps [simp]:
  "s_conn (finish_session e s) = s_conn s" "s_isReady (finish_session e s) = s_isReady s" "s_comps (finish_session e s) = s_comps s" "s_cancelled (finish_session e s) = s_cancelled s"
  "s_conn (markReady s) = s_conn s" "s_comps (markReady s) = s_comps s" "s_doneErr (markReady s) = s_doneErr s" "s_cancelled (markReady s) = s_cancelled s"
  "s_conn (markNotReady s) = s_conn s" "s_comps (markNotReady s) = s_comps s" "s_doneErr (markNotReady s) = s_doneErr s" "s_cancelled (markNotReady s) = s_cancelled s"
  "s_isReady (install c s) = s_isReady s" "s_comps (install c s) = s_comps s" "s_doneErr (install c s) = s_doneErr s" "s_cancelled (install c s) = s_cancelled s"
  "s_conn (register r s) = s_conn s" "s_isReady (register r s) = s_isReady s" "s_doneErr (register r s) = s_doneErr s" "s_cancelled (register r s) = s_cancelled s"
  "s_conn (unregister r s) = s_conn s" "s_isReady (unregister r s) = s_isReady s" "s_doneErr (unregister r s) = s_doneErr s" "s_cancelled (unregister r s) = s_cancelled s"
  "s_doneErr (finish_session e s) = (if s_doneErr s = None then Some e else s_doneErr s)"
  "s_isReady (markReady s) \<longleftrightarrow> s_isReady s \<or> s_doneErr s = None" "\<not> s_isReady (markNotReady s)"
  "s_conn (install c s) = Some c" "s_comps (register r s) = s_comps s @ [r]"
  "s_comps (unregister r s) = remove1 r (s_comps s)"
  by (simp_all add: ses_defs)

text \<open>
  The ready channel: closed exactly while ready, except that a finished session keeps it
  closed when it stops being ready, and then never closes it again.
\<close>

definition chan_inv :: "session \<Rightarrow> bool" where
  "chan_inv s \<longleftrightarrow>
     \<not> s_panic s \<and> s_ready s < s_chans s \<and> list_all (\<lambda>k. k < s_chans s) (s_closedCh s) \<and>
     (s_isReady s \<longrightarrow> s_ready s \<in> set (s_closedCh s)) \<and>
     (s_ready s \<in> set (s_closedCh s) \<longrightarrow> s_isReady s \<or> s_doneErr s \<noteq> None) \<and>
     (s_cancelled s \<longrightarrow> s_doneErr s \<noteq> None)"

lemma chan_inv_ops:
  "chan_inv s \<Longrightarrow> chan_inv (finish_session e s)" "chan_inv s \<Longrightarrow> chan_inv (markReady s)"
  "chan_inv s \<Longrightarrow> chan_inv (markNotReady s)" "chan_inv s \<Longrightarrow> chan_inv (install c s)"
  "chan_inv s \<Longrightarrow> chan_inv (register r s)" "chan_inv s \<Longrightarrow> chan_inv (unregister r s)"
  "chan_inv s \<Longrightarrow> chan_inv ((finish_session e s)\<lparr>s_cancelled := True\<rparr>)"
  by (auto simp: chan_inv_def ses_defs list_all_iff)

text \<open>The closing goroutine clears the ready flag only after it has finished the session.\<close>

fun cancels :: "closing \<Rightarrow> bool" where
  "cancels ClNone = False"
| "cancels (ClFail rs) = False"
| "cancels (ClClosing rs) = False"
| "cancels _ = True"

fun past_wait :: "closing \<Rightarrow> bool" where
  "past_wait (ClLast co) = True"
| "past_wait ClDone = True"
| "past_wait _ = False"

definition done_inv :: "sys \<Rightarrow> bool" where
  "done_inv y \<longleftrightarrow> chan_inv (sy_s y) \<and>
     (sy_close y \<in> range ClClosing \<longrightarrow> s_doneErr (sy_s y) \<noteq> None) \<and>
     (s_cancelled (sy_s y) \<longleftrightarrow> cancels (sy_close y))"

lemma done_inv_step: "sstep maxRetries y y1 \<Longrightarrow> done_inv y \<Longrightarrow> done_inv y1"
proof (induction rule: sstep.induct)
  case (dialled y res)
  then show ?case by (cases res) (auto simp: connect_def Let_def done_inv_def sys_defs chan_inv_ops)
next
  case (supervised y y1)
  then show ?case by (cases rule: sup_step.cases) (auto simp: done_inv_def sys_defs lost_all_def giveUp_def giveUp_emit_def chan_inv_ops)
next
  case (attached r y y1)
  then show ?case by (cases rule: att_step.cases) (auto simp: done_inv_def sys_defs chan_inv_ops)
next
  case (closed y y1)
  then show ?case by (cases rule: close_step.cases) (auto simp: done_inv_def sys_defs chan_inv_ops)
next
  case (sclosed y y1)
  then show ?case by (cases rule: sclose_step.cases) (auto simp: done_inv_def sys_defs chan_inv_def finish_session_def split: option.splits)
qed (simp add: done_inv_def sys_defs)

text \<open>Who holds \<open>restoreMu\<close>.\<close>

fun locked :: "att \<Rightarrow> bool" where
  "locked AttLocked = True"
| "locked AttChecked = True"
| "locked (AttRestoring c) = True"
| "locked (AttRegister c) = True"
| "locked AttEnrol = True"
| "locked _ = False"

definition mu_inv :: "sys \<Rightarrow> bool" where
  "mu_inv y \<longleftrightarrow>
     (sy_mu y = Some Supervisor \<longleftrightarrow> (\<exists>n c todo. sy_sup y = SupRestoring n c todo)) \<and>
     (\<forall>r. sy_mu y = Some (Attacher r) \<longleftrightarrow> locked (sy_att y r))"

lemma mu_inv_keep:
  assumes "mu_inv y" "sy_mu z = sy_mu y" "sy_sup z = sy_sup y" "\<And>r. locked (sy_att z r) = locked (sy_att y r)"
  shows "mu_inv z"
  using assms by (simp add: mu_inv_def)

lemma mu_inv_lock:
  assumes "mu_inv y" "sy_mu y = None" "locked p"
  shows "mu_inv (goto_att r p (lock (Attacher r) y))"
  using assms by (auto simp: mu_inv_def sys_defs)

lemma mu_inv_unlock:
  assumes "mu_inv y" "locked (sy_att y r)" "\<not> locked p" "sy_sup z = sy_sup y" "sy_att z = sy_att y" "sy_mu z = None"
  shows "mu_inv (goto_att r p z)"
proof -
  have "sy_mu y = Some (Attacher r)" using assms(1,2) by (simp add: mu_inv_def)
  then have "\<not> (\<exists>n c todo. sy_sup y = SupRestoring n c todo)" "locked (sy_att y q) \<longleftrightarrow> q = r" for q
    using assms(1) by (auto simp: mu_inv_def)
  then show ?thesis using assms(3-6) by (simp add: mu_inv_def sys_defs)
qed

lemma mu_inv_att: "att_step r y y1 \<Longrightarrow> mu_inv y \<Longrightarrow> mu_inv y1"
proof (induction rule: att_step.induct)
  case (att_lock y)
  then show ?case by (simp add: mu_inv_lock)
qed ((erule mu_inv_keep; force simp: sys_defs) | (erule mu_inv_unlock; force simp: sys_defs))+

lemma mu_inv_step: "sstep maxRetries y y1 \<Longrightarrow> mu_inv y \<Longrightarrow> mu_inv y1"
proof (induction rule: sstep.induct)
  case (dialled y res)
  then show ?case by (cases res) (auto simp: connect_def Let_def mu_inv_def sys_defs)
next
  case (supervised y y1)
  then show ?case by (cases rule: sup_step.cases) (auto simp: mu_inv_def sys_defs lost_all_def giveUp_def giveUp_emit_def)
next
  case (closed y y1)
  then show ?case by (cases rule: close_step.cases) (simp_all add: mu_inv_def sys_defs)
next
  case (sclosed y y1)
  then show ?case by (cases rule: sclose_step.cases) (simp_all add: mu_inv_def sys_defs)
next
  case (attached r y y1)
  then show ?case by (simp add: mu_inv_att)
qed (simp add: mu_inv_def sys_defs)

text \<open>The connections the session has open, by where the supervisor is: never two lineages.\<close>

fun owned :: "sup \<Rightarrow> nat option \<Rightarrow> nat list \<Rightarrow> bool" where
  "owned SupNone co op \<longleftrightarrow> op = [] \<and> co = None"
| "owned SupWatch co op \<longleftrightarrow> set op \<subseteq> set_option co \<and> co \<noteq> None"
| "owned (SupNotify _) co op \<longleftrightarrow> op = [] \<and> co \<noteq> None"
| "owned (SupTry _ _) co op \<longleftrightarrow> op = [] \<and> co \<noteq> None"
| "owned (SupSleep _ _) co op \<longleftrightarrow> op = [] \<and> co \<noteq> None"
| "owned (SupDialed _ c) co op \<longleftrightarrow> set op \<subseteq> {c} \<and> co \<noteq> None"
| "owned (SupRestore _ c) co op \<longleftrightarrow> set op \<subseteq> {c} \<and> co = Some c"
| "owned (SupRestoring _ c _) co op \<longleftrightarrow> set op \<subseteq> {c} \<and> co = Some c"
| "owned (SupFailed _ c _) co op \<longleftrightarrow> set op \<subseteq> {c} \<and> co = Some c"
| "owned (SupRestored _ c) co op \<longleftrightarrow> set op \<subseteq> {c} \<and> co = Some c"
| "owned (SupAnnounce _ c) co op \<longleftrightarrow> set op \<subseteq> {c} \<and> co = Some c"
| "owned (SupReady _) co op \<longleftrightarrow> set op \<subseteq> set_option co \<and> co \<noteq> None"
| "owned (SupGaveUp _ _) co op \<longleftrightarrow> op = [] \<and> co \<noteq> None"
| "owned SupEnd co op \<longleftrightarrow> set op \<subseteq> set_option co \<and> co \<noteq> None"

fun may_be_ready :: "sup \<Rightarrow> bool" where
  "may_be_ready SupWatch = True"
| "may_be_ready (SupReady _) = True"
| "may_be_ready SupEnd = True"
| "may_be_ready _ = False"

definition conn_inv :: "sys \<Rightarrow> bool" where
  "conn_inv y \<longleftrightarrow>
     owned (sy_sup y) (s_conn (sy_s y)) (sy_open y) \<and>
     (s_isReady (sy_s y) \<longrightarrow> may_be_ready (sy_sup y)) \<and>
     (\<forall>co. sy_close y = ClLast co \<longrightarrow> co = s_conn (sy_s y)) \<and>
     (past_wait (sy_close y) \<longrightarrow> sy_sup y \<in> {SupNone, SupEnd}) \<and>
     (sy_close y = ClDone \<longrightarrow> sy_open y = []) \<and>
     (s_cancelled (sy_s y) \<longleftrightarrow> cancels (sy_close y))"

lemma owned_drop: "owned p co op \<Longrightarrow> owned p co (filter f op)"
  by (cases p) auto

lemma filter_not_in [simp]: "set op \<subseteq> {c} \<Longrightarrow> filter (\<lambda>x. x \<noteq> c) op = []"
  by (auto simp: filter_empty_conv)

lemma only_gone: "set op \<subseteq> {c} \<Longrightarrow> c \<notin> set op \<Longrightarrow> op = []"
  by (cases op) auto

lemma closing_facts [simp]:
  "\<not> past_wait p \<Longrightarrow> p \<noteq> ClLast co" "\<not> past_wait p \<Longrightarrow> p \<noteq> ClDone" "\<not> cancels p \<Longrightarrow> \<not> past_wait p"
  by (cases p; simp)+

lemma conn_inv_sup: "sup_step maxRetries y y1 \<Longrightarrow> conn_inv y \<Longrightarrow> conn_inv y1"
proof (induction rule: sup_step.induct)
  case (sup_lost y c cause)
  then have "sy_open y = []" using only_gone [of "sy_open y" c] by (simp add: conn_inv_def)
  with sup_lost show ?case by (auto simp: conn_inv_def sys_defs)
next
  case (sup_restored_dead y n c)
  then have "sy_open y = []" using only_gone [of "sy_open y" c] by (simp add: conn_inv_def)
  with sup_restored_dead show ?case by (auto simp: conn_inv_def sys_defs)
qed (simp_all add: conn_inv_def sys_defs lost_all_def giveUp_def giveUp_emit_def)

lemma conn_inv_close: "close_step y y1 \<Longrightarrow> conn_inv y \<Longrightarrow> conn_inv y1"
  by (induction rule: close_step.induct) (simp_all add: conn_inv_def sys_defs)

lemma conn_inv_sclose: "sclose_step y y1 \<Longrightarrow> conn_inv y \<Longrightarrow> conn_inv y1"
proof (induction rule: sclose_step.induct)
  case (close_last y co)
  then have "list_all (\<lambda>x. Some x = co) (sy_open y)" by (cases "s_conn (sy_s y)") (auto simp: conn_inv_def list_all_iff)
  then have "filter (\<lambda>x. Some x \<noteq> co) (sy_open y) = []" by (auto simp: list_all_iff filter_empty_conv)
  with close_last show ?case by (simp add: conn_inv_def sys_defs) (auto)
qed (simp_all add: conn_inv_def sys_defs owned_drop)

lemma conn_inv_step: "sstep maxRetries y y1 \<Longrightarrow> conn_inv y \<Longrightarrow> conn_inv y1"
proof (induction rule: sstep.induct)
  case (dialled y res)
  then show ?case by (cases res) (auto simp: connect_def Let_def conn_inv_def sys_defs)
next
  case (dropped y c)
  then show ?case by (simp add: conn_inv_def sys_defs owned_drop)
next
  case (attached r y y1)
  then show ?case by (cases rule: att_step.cases) (simp_all add: conn_inv_def sys_defs)
qed (simp_all add: conn_inv_sup conn_inv_close conn_inv_sclose)

text \<open>
  What has been restored. A component being attached holds \<open>restoreMu\<close> from the moment it
  has read a ready connection, so until it is enrolled no reconnection can get past its
  restorers; and when the connection is ready every enrolled component is on it.
\<close>

fun before_restore :: "sup \<Rightarrow> bool" where
  "before_restore (SupRestoring _ _ _) = False"
| "before_restore (SupFailed _ _ _) = False"
| "before_restore (SupRestored _ _) = False"
| "before_restore (SupAnnounce _ _) = False"
| "before_restore _ = True"

fun restored_upto :: "sup \<Rightarrow> bool \<Rightarrow> nat list option" where
  "restored_upto (SupRestoring _ _ todo) rdy = Some todo"
| "restored_upto (SupRestored _ _) rdy = Some []"
| "restored_upto (SupAnnounce _ _) rdy = Some []"
| "restored_upto _ rdy = (if rdy then Some [] else None)"

fun attaching :: "att \<Rightarrow> nat option" where
  "attaching (AttRestoring c) = Some c"
| "attaching (AttRegister c) = Some c"
| "attaching _ = None"

definition reg_ok :: "sup \<Rightarrow> bool \<Rightarrow> nat option \<Rightarrow> bool \<Rightarrow> nat \<Rightarrow> att \<Rightarrow> nat option \<Rightarrow> bool" where
  "reg_ok p rdy co enrolled r a rs \<longleftrightarrow>
     (enrolled \<longrightarrow> (a = AttEnrol \<or> a = AttOk) \<and> p \<noteq> SupNone \<and>
        (\<forall>todo. restored_upto p rdy = Some todo \<and> r \<notin> set todo \<longrightarrow> rs = co)) \<and>
     (\<forall>c. attaching a = Some c \<longrightarrow> before_restore p \<and> p \<noteq> SupNone \<and> (rdy \<longrightarrow> co = Some c)) \<and>
     (\<forall>c. a = AttRegister c \<longrightarrow> rs = Some c)"

definition reg_at :: "sys \<Rightarrow> nat \<Rightarrow> bool" where
  "reg_at y r =
     reg_ok (sy_sup y) (s_isReady (sy_s y)) (s_conn (sy_s y)) (r \<in> set (s_comps (sy_s y))) r (sy_att y r) (sy_restored y r)"

definition restored_inv :: "sys \<Rightarrow> bool" where
  "restored_inv y \<longleftrightarrow> distinct (s_comps (sy_s y)) \<and> (\<forall>r. reg_at y r)"

lemma ready_before_restore [simp]: "may_be_ready p \<Longrightarrow> before_restore p" "may_be_ready p \<Longrightarrow> p \<noteq> SupNone"
  by (cases p; simp)+

lemma attaching_locked: "attaching p = Some c \<Longrightarrow> locked p"
  by (cases p) simp_all

lemma restored_upto_before: "before_restore p \<Longrightarrow> restored_upto p b = (if b then Some [] else None)"
  by (cases p) simp_all

lemma nobody_attaching: "mu_inv y \<Longrightarrow> \<not> locked (sy_att y r) \<Longrightarrow> attaching (sy_att y r) = None \<and> sy_att y r \<noteq> AttRegister c"
  using attaching_locked [of "sy_att y r"] by (cases "attaching (sy_att y r)") auto

lemma restored_inv_sup:
  assumes "sup_step maxRetries y y1" "mu_inv y" "conn_inv y" "restored_inv y"
  shows "restored_inv y1"
proof -
  have comps: "s_comps (sy_s y1) = s_comps (sy_s y)"
    using assms(1) by (cases rule: sup_step.cases) (simp_all add: sys_defs lost_all_def giveUp_def giveUp_emit_def)
  have "reg_at y1 r" for r
  proof -
    have r: "reg_at y r" using assms(4) by (simp add: restored_inv_def)
    have l: "\<not> locked (sy_att y r)" if "sy_mu y = None \<or> sy_sup y = SupRestoring n c todo" for n c todo
      using that assms(2) by (auto simp: mu_inv_def)
    show ?thesis
      using assms(1,3) r l nobody_attaching [OF assms(2), of r]
      by (cases rule: sup_step.cases)
        (auto simp: reg_at_def reg_ok_def conn_inv_def sys_defs lost_all_def giveUp_def giveUp_emit_def split: if_splits)
  qed
  with comps assms(4) show ?thesis by (simp add: restored_inv_def)
qed

text \<open>A step of one attaching goroutine leaves the other registrations alone.\<close>

lemma restored_inv_upd:
  assumes "restored_inv y" "sy_sup z = sy_sup y" "s_isReady (sy_s z) = s_isReady (sy_s y)" "s_conn (sy_s z) = s_conn (sy_s y)"
    and "distinct (s_comps (sy_s z))"
    and "\<And>q. q \<noteq> r \<Longrightarrow> q \<in> set (s_comps (sy_s z)) \<longleftrightarrow> q \<in> set (s_comps (sy_s y))"
    and "\<And>q. q \<noteq> r \<Longrightarrow> sy_att z q = sy_att y q \<and> sy_restored z q = sy_restored y q"
    and "reg_at y r \<Longrightarrow> reg_at z r"
  shows "restored_inv z"
proof -
  have "reg_at z q" for q
  proof (cases "q = r")
    case False
    then show ?thesis using assms(1-4) assms(6,7) [of q] by (simp add: restored_inv_def reg_at_def)
  qed (use assms(1,8) in \<open>simp add: restored_inv_def\<close>)
  with assms(5) show ?thesis by (simp add: restored_inv_def)
qed

lemma restored_inv_att:
  assumes st: "att_step r y y1" and mu: "mu_inv y" and conn: "conn_inv y" and inv: "restored_inv y"
  shows "restored_inv y1"
proof (rule restored_inv_upd [OF inv, of _ r])
  have comps: "distinct (s_comps (sy_s y))" "r \<in> set (s_comps (sy_s y)) \<longrightarrow> sy_att y r \<in> {AttEnrol, AttOk}"
    using inv by (auto simp: restored_inv_def reg_at_def reg_ok_def)
  show "distinct (s_comps (sy_s y1))"
    using st comps by (cases rule: att_step.cases) (auto simp: sys_defs)
  show "reg_at y r \<Longrightarrow> reg_at y1 r"
    using st conn comps(1)
    by (cases rule: att_step.cases)
      (auto simp: reg_at_def reg_ok_def conn_inv_def current_def sys_defs restored_upto_before)
qed (use st in \<open>cases rule: att_step.cases; simp add: sys_defs\<close>)+

lemma restored_inv_close:
  assumes "restored_inv y" "sy_sup z = sy_sup y" "sy_att z = sy_att y" "sy_restored z = sy_restored y"
    and "s_conn (sy_s z) = s_conn (sy_s y)" "s_isReady (sy_s z) \<longrightarrow> s_isReady (sy_s y)"
    and "distinct (s_comps (sy_s z))" "set (s_comps (sy_s z)) \<subseteq> set (s_comps (sy_s y))"
  shows "restored_inv z"
proof -
  have up: "restored_upto p a = Some todo \<Longrightarrow> a \<longrightarrow> b \<Longrightarrow> restored_upto p b = Some todo" for p a b todo
    by (cases p; cases a) simp_all
  have "\<forall>todo. restored_upto (sy_sup y) (s_isReady (sy_s z)) = Some todo \<longrightarrow>
      restored_upto (sy_sup y) (s_isReady (sy_s y)) = Some todo"
    using up assms(6) by blast
  then have "reg_at y r \<Longrightarrow> reg_at z r" for r
    using assms(6,8) unfolding reg_at_def reg_ok_def assms(2-5) by blast
  with assms(1,7) show ?thesis by (simp add: restored_inv_def)
qed

lemma restored_inv_step:
  assumes "sstep maxRetries y y1" "mu_inv y" "conn_inv y" "restored_inv y"
  shows "restored_inv y1"
  using assms
proof (induction rule: sstep.induct)
  case (dialled y res)
  then have "reg_at y r" for r by (simp add: restored_inv_def)
  then have "attaching (sy_att y r) = None" "r \<notin> set (s_comps (sy_s y))" "\<And>c. sy_att y r = AttRegister c \<Longrightarrow> False" for r
    using dialled.hyps by (cases "attaching (sy_att y r)"; force simp: reg_at_def reg_ok_def)+
  with dialled show ?case
    by (cases res) (auto simp: connect_def Let_def restored_inv_def reg_at_def reg_ok_def sys_defs)
next
  case (dropped y c)
  then show ?case by (simp add: restored_inv_def reg_at_def sys_defs)
next
  case (closed y y1)
  have "distinct (s_comps (sy_s y))" using closed.prems by (simp add: restored_inv_def)
  then show ?case
    by (intro restored_inv_close [OF closed.prems(3)])
      (use closed.hyps in \<open>cases rule: close_step.cases; auto simp: sys_defs\<close>)+
next
  case (sclosed y y1)
  have "distinct (s_comps (sy_s y))" using sclosed.prems by (simp add: restored_inv_def)
  then show ?case
    by (intro restored_inv_close [OF sclosed.prems(3)])
      (use sclosed.hyps in \<open>cases rule: sclose_step.cases; auto simp: sys_defs\<close>)+
qed (auto intro: restored_inv_sup restored_inv_att)

text \<open>Closing: each component the bus took on is closed once, by \<open>Close\<close> or by its own \<open>attach\<close>.\<close>

fun to_close :: "closing \<Rightarrow> nat list" where
  "to_close (ClFail rs) = rs"
| "to_close (ClClosing rs) = rs"
| "to_close _ = []"

fun taken_on :: "att \<Rightarrow> nat" where
  "taken_on AttOk = 1"
| "taken_on AttAbandoned = 1"
| "taken_on _ = 0"

definition close_inv :: "sys \<Rightarrow> bool" where
  "close_inv y \<longleftrightarrow>
     (sy_closed y \<longleftrightarrow> sy_close y \<noteq> ClNone) \<and> (sy_closed y \<longrightarrow> sy_closers y = []) \<and>
     (\<forall>r. sy_closes y r + count_list (sy_closers y) r + count_list (to_close (sy_close y)) r = taken_on (sy_att y r))"

lemma close_inv_att:
  assumes "close_inv y" "\<And>q. q \<noteq> r \<Longrightarrow> sy_closes z q + count_list (sy_closers z) q = sy_closes y q + count_list (sy_closers y) q"
    and "\<And>q. q \<noteq> r \<Longrightarrow> sy_att z q = sy_att y q" "sy_close z = sy_close y" "sy_closed z = sy_closed y"
    and "sy_closed y \<longrightarrow> sy_closers z = sy_closers y"
    and "sy_closes z r + count_list (sy_closers z) r + taken_on (sy_att y r) =
         sy_closes y r + count_list (sy_closers y) r + taken_on (sy_att z r)"
  shows "close_inv z"
proof -
  have "sy_closes z q + count_list (sy_closers z) q + count_list (to_close (sy_close z)) q = taken_on (sy_att z q)" for q
  proof -
    have "sy_closes y q + count_list (sy_closers y) q + count_list (to_close (sy_close y)) q = taken_on (sy_att y q)"
      using assms(1) by (simp add: close_inv_def)
    then show ?thesis using assms(2,3) [of q] assms(4,7) by (cases "q = r") (simp_all, linarith?)
  qed
  then show ?thesis using assms(1,4-6) by (simp add: close_inv_def)
qed

lemma close_inv_step: "sstep maxRetries y y1 \<Longrightarrow> close_inv y \<Longrightarrow> close_inv y1"
proof (induction rule: sstep.induct)
  case (dialled y res)
  then show ?case by (cases res) (simp_all add: connect_def Let_def close_inv_def sys_defs)
next
  case (supervised y y1)
  then show ?case by (cases rule: sup_step.cases) (simp_all add: close_inv_def sys_defs lost_all_def giveUp_def giveUp_emit_def)
next
  case (attached r y y1)
  show ?case
    by (rule close_inv_att [OF attached.prems, where r = r];
        use attached.hyps in \<open>cases rule: att_step.cases; simp add: sys_defs\<close>)
next
  case (closed y y1)
  from closed.hyps show ?case
  proof (cases rule: close_step.cases)
    case (close_one r rs)
    have c: "sy_closes y q + count_list (r # rs) q = taken_on (sy_att y q)" for q
      using closed.prems close_one by (auto simp: close_inv_def simp del: count_list.simps(2))
    have "Suc (sy_closes y r + count_list rs r) = taken_on (sy_att y r)" using c [of r] by simp
    moreover have "sy_closes y q + count_list rs q = taken_on (sy_att y q)" if "q \<noteq> r" for q using c [of q] that by simp
    ultimately show ?thesis using close_one closed.prems by (simp add: close_inv_def sys_defs)
  qed (use closed.prems in \<open>auto simp: close_inv_def sys_defs\<close>)
next
  case (sclosed y y1)
  then show ?case by (cases rule: sclose_step.cases) (auto simp: close_inv_def sys_defs)
qed (simp add: close_inv_def sys_defs)

text \<open>
  What observers may see: after a disconnection, attempts numbered from 1 without a gap and
  at most \<open>maxRetries\<close> of them, then the reconnection by the last attempt or, when they are
  used up, the end.
\<close>

datatype link_state = LinkUp | LinkDown nat | LinkGivenUp

fun link_event :: "int \<Rightarrow> link_state \<Rightarrow> ConnectionEvent \<Rightarrow> link_state option" where
  "link_event mx LinkUp (EventDisconnected e) = Some (LinkDown 0)"
| "link_event mx (LinkDown n) (EventReconnecting k d) =
     (if k = n + 1 \<and> \<not> exhausted mx k then Some (LinkDown k) else None)"
| "link_event mx (LinkDown n) (EventReconnected k) = (if k = n \<and> n \<noteq> 0 then Some LinkUp else None)"
| "link_event mx (LinkDown n) (EventGaveUp k e) =
     (if k = n \<and> mx > 0 \<and> int n = mx then Some LinkGivenUp else None)"
| "link_event mx _ _ = None"

fun link_run :: "int \<Rightarrow> link_state \<Rightarrow> ConnectionEvent list \<Rightarrow> link_state option" where
  "link_run mx st [] = Some st"
| "link_run mx st (e # es) = Option.bind (link_event mx st e) (\<lambda>st1. link_run mx st1 es)"

lemma link_run_snoc: "link_run mx st (es @ [e]) = Option.bind (link_run mx st es) (\<lambda>st1. link_event mx st1 e)"
  by (induction es arbitrary: st) (simp_all split: Option.bind_splits)

fun link_agrees :: "int \<Rightarrow> sup \<Rightarrow> link_state \<Rightarrow> bool" where
  "link_agrees mx SupNone st \<longleftrightarrow> st = LinkUp"
| "link_agrees mx SupWatch st \<longleftrightarrow> st = LinkUp"
| "link_agrees mx (SupNotify _) st \<longleftrightarrow> st = LinkUp"
| "link_agrees mx (SupTry n _) st \<longleftrightarrow> n \<noteq> 0 \<and> st = LinkDown (n - 1) \<and> \<not> exhausted mx (n - 1)"
| "link_agrees mx (SupSleep n _) st \<longleftrightarrow> n \<noteq> 0 \<and> st = LinkDown n \<and> \<not> exhausted mx n"
| "link_agrees mx (SupDialed n _) st \<longleftrightarrow> n \<noteq> 0 \<and> st = LinkDown n \<and> \<not> exhausted mx n"
| "link_agrees mx (SupRestore n _) st \<longleftrightarrow> n \<noteq> 0 \<and> st = LinkDown n \<and> \<not> exhausted mx n"
| "link_agrees mx (SupRestoring n _ _) st \<longleftrightarrow> n \<noteq> 0 \<and> st = LinkDown n \<and> \<not> exhausted mx n"
| "link_agrees mx (SupFailed n _ _) st \<longleftrightarrow> n \<noteq> 0 \<and> st = LinkDown n \<and> \<not> exhausted mx n"
| "link_agrees mx (SupRestored n _) st \<longleftrightarrow> n \<noteq> 0 \<and> st = LinkDown n \<and> \<not> exhausted mx n"
| "link_agrees mx (SupAnnounce n _) st \<longleftrightarrow> n \<noteq> 0 \<and> st = LinkDown n \<and> \<not> exhausted mx n"
| "link_agrees mx (SupReady n) st \<longleftrightarrow> n \<noteq> 0 \<and> st = LinkDown n \<and> \<not> exhausted mx n"
| "link_agrees mx (SupGaveUp n _) st \<longleftrightarrow> st = LinkDown n \<and> mx > 0 \<and> int n = mx"
| "link_agrees mx SupEnd st \<longleftrightarrow> True"

fun giving_up :: "sup \<Rightarrow> bool" where
  "giving_up (SupGaveUp _ _) = True"
| "giving_up _ = False"

definition events_inv :: "int \<Rightarrow> sys \<Rightarrow> bool" where
  "events_inv mx y \<longleftrightarrow>
     (case link_run mx LinkUp (sy_events y) of
        None \<Rightarrow> False
      | Some st \<Rightarrow> link_agrees mx (sy_sup y) st \<and>
          (s_doneErr (sy_s y) = None \<or> s_doneErr (sy_s y) = Some (Sentinel ErrClosed) \<or>
           s_doneErr (sy_s y) = Some (gave_up (nat mx)) \<and> mx > 0 \<and> (st = LinkGivenUp \<or> giving_up (sy_sup y))) \<and>
          (st = LinkGivenUp \<longrightarrow> sy_sup y = SupEnd) \<and>
          (st = LinkGivenUp \<or> giving_up (sy_sup y) \<longrightarrow> s_doneErr (sy_s y) \<noteq> None))"

lemma exhausted_exactly: "exhausted mx n \<Longrightarrow> n \<noteq> 0 \<Longrightarrow> \<not> exhausted mx (n - 1) \<Longrightarrow> 0 < mx \<and> int (n - 1) = mx \<and> n - 1 = nat mx"
  by (auto simp: exhausted_def)

lemma events_inv_sup: "sup_step maxRetries y y1 \<Longrightarrow> events_inv maxRetries y \<Longrightarrow> events_inv maxRetries y1"
proof (induction rule: sup_step.induct)
  case (sup_gave_up y n prev)
  then show ?case by (auto simp: events_inv_def sys_defs giveUp_emit_def link_run_snoc split: option.splits)
next
  case (sup_give_up y n prev)
  then have "n \<noteq> 0" "\<not> exhausted maxRetries (n - 1)" by (auto simp: events_inv_def split: option.splits)
  with sup_give_up exhausted_exactly [of maxRetries n] show ?case
    by (auto simp: events_inv_def sys_defs giveUp_def split: option.splits)
next
  case (sup_notify y cause)
  then show ?case by (auto simp: events_inv_def sys_defs lost_all_def link_run_snoc exhausted_def split: option.splits)
qed (auto simp: events_inv_def sys_defs link_run_snoc split: option.splits if_splits)

lemma events_inv_keep:
  "events_inv mx y \<Longrightarrow> sy_events z = sy_events y \<Longrightarrow> sy_sup z = sy_sup y \<Longrightarrow>
   s_doneErr (sy_s z) = s_doneErr (sy_s y) \<or> s_doneErr (sy_s z) = Some (Sentinel ErrClosed) \<Longrightarrow> events_inv mx z"
  by (auto simp: events_inv_def split: option.splits)

lemma events_inv_step: "sstep maxRetries y y1 \<Longrightarrow> events_inv maxRetries y \<Longrightarrow> events_inv maxRetries y1"
proof (induction rule: sstep.induct)
  case (dialled y res)
  then show ?case
    by (cases res) (auto simp: connect_def Let_def events_inv_def sys_defs split: option.splits)
next
  case (supervised y y1)
  then show ?case by (simp add: events_inv_sup)
next
  case (attached r y y1)
  show ?case by (rule events_inv_keep [OF attached.prems];
    use attached.hyps in \<open>cases rule: att_step.cases; simp add: sys_defs\<close>)
next
  case (closed y y1)
  show ?case by (rule events_inv_keep [OF closed.prems];
    use closed.hyps in \<open>cases rule: close_step.cases; simp add: sys_defs\<close>)
next
  case (sclosed y y1)
  show ?case by (rule events_inv_keep [OF sclosed.prems];
    use sclosed.hyps in \<open>cases rule: sclose_step.cases; simp add: sys_defs\<close>)
next
  case (dropped y c)
  show ?case by (rule events_inv_keep [OF dropped]) (simp_all add: sys_defs)
qed

definition sys_inv :: "int \<Rightarrow> sys \<Rightarrow> bool" where
  "sys_inv mx y \<longleftrightarrow> done_inv y \<and> mu_inv y \<and> conn_inv y \<and> restored_inv y \<and> close_inv y \<and> events_inv mx y"

lemma sys_inv_reachable: "sreachable mx y \<Longrightarrow> sys_inv mx y"
proof (induction rule: sreachable.induct)
  case start
  show ?case
    by (auto simp: sys_inv_def done_inv_def chan_inv_def mu_inv_def conn_inv_def restored_inv_def reg_at_def reg_ok_def
        close_inv_def events_inv_def sys0_def newSession_def)
next
  case (step y y1)
  then show ?case
    unfolding sys_inv_def
    by (blast intro: done_inv_step mu_inv_step conn_inv_step restored_inv_step close_inv_step events_inv_step)
qed

text \<open>The first outcome of a session stays.\<close>

lemma done_stable: "sstep mx y y1 \<Longrightarrow> s_doneErr (sy_s y) = Some e \<Longrightarrow> s_doneErr (sy_s y1) = Some e"
proof (induction rule: sstep.induct)
  case (dialled y res)
  then show ?case by (cases res) (simp_all add: connect_def Let_def sys_defs)
next
  case (supervised y y1)
  then show ?case by (cases rule: sup_step.cases) (simp_all add: sys_defs lost_all_def giveUp_def giveUp_emit_def)
next
  case (attached r y y1)
  then show ?case by (cases rule: att_step.cases) (simp_all add: sys_defs)
next
  case (closed y y1)
  then show ?case by (cases rule: close_step.cases) (simp_all add: sys_defs)
next
  case (sclosed y y1)
  then show ?case by (cases rule: sclose_step.cases) (simp_all add: sys_defs)
qed (simp add: sys_defs)

text \<open>How far an attempt to reconnect has got.\<close>

fun sup_phase :: "sup \<Rightarrow> nat" where
  "sup_phase (SupNotify _) = 9"
| "sup_phase (SupTry _ _) = 8"
| "sup_phase (SupSleep _ _) = 7"
| "sup_phase (SupDialed _ _) = 6"
| "sup_phase (SupRestore _ _) = 5"
| "sup_phase (SupRestoring _ _ _) = 4"
| "sup_phase (SupFailed _ _ _) = 3"
| "sup_phase (SupRestored _ _) = 2"
| "sup_phase (SupAnnounce _ _) = 1"
| "sup_phase _ = 0"

fun sup_attempt :: "sup \<Rightarrow> nat" where
  "sup_attempt (SupTry n _) = n"
| "sup_attempt (SupSleep n _) = n"
| "sup_attempt (SupDialed n _) = n"
| "sup_attempt (SupRestore n _) = n"
| "sup_attempt (SupRestoring n _ _) = n"
| "sup_attempt (SupFailed n _ _) = n"
| "sup_attempt (SupRestored n _) = n"
| "sup_attempt (SupAnnounce n _) = n"
| "sup_attempt (SupReady n) = n"
| "sup_attempt (SupGaveUp n _) = n + 1"
| "sup_attempt _ = 0"

fun sup_todo :: "sup \<Rightarrow> nat" where
  "sup_todo (SupRestoring _ _ todo) = length todo"
| "sup_todo _ = 0"

definition sup_left :: "int \<Rightarrow> sup \<Rightarrow> nat" where
  "sup_left mx p = (if p = SupEnd then 0 else nat (mx + 2) - sup_attempt p)"

lemma sup_progress:
  assumes "0 < mx" "sup_step mx y z" "events_inv mx y" "sy_sup y \<noteq> SupWatch" "sy_sup z \<noteq> SupWatch"
  shows "(sy_sup z, sy_sup y) \<in> measures [sup_left mx, sup_phase, sup_todo]"
proof -
  have "0 < sup_attempt (sy_sup y) \<longrightarrow> int (sup_attempt (sy_sup y)) < mx + 2"
      "sup_phase (sy_sup y) < 8 \<and> 0 < sup_phase (sy_sup y) \<longrightarrow> int (sup_attempt (sy_sup y)) \<le> mx"
    using assms(1,3) by (cases "sy_sup y"; auto simp: events_inv_def exhausted_def split: option.splits)+
  with assms(2,1,4,5) show ?thesis
    by (cases rule: sup_step.cases) (auto simp: sup_left_def sys_defs lost_all_def giveUp_def giveUp_emit_def)
qed

section \<open>Properties\<close>

text \<open>
  C8. Ready means restored. Whenever the session reports its connection ready, in any
  interleaving of reconnections, components being attached or detached and the bus closing,
  every component enrolled in restoration has its topology on that very connection.
\<close>

theorem ready_means_restored:
  assumes "sreachable mx y" "current (sy_s y) = (co, g, True)"
  shows "co \<noteq> None \<and> list_all (\<lambda>r. sy_restored y r = co) (s_comps (sy_s y))"
proof -
  have c: "s_isReady (sy_s y)" "s_conn (sy_s y) = co" using assms(2) by (auto simp: current_def)
  have inv: "conn_inv y" "restored_inv y" "done_inv y" using sys_inv_reachable [OF assms(1)] by (simp_all add: sys_inv_def)
  from inv(1) c have p: "may_be_ready (sy_sup y)" by (simp add: conn_inv_def)
  then have "restored_upto (sy_sup y) True = Some []" by (cases "sy_sup y") simp_all
  then have "sy_restored y r = co" if "r \<in> set (s_comps (sy_s y))" for r
    using inv(2) c that by (auto simp: restored_inv_def reg_at_def reg_ok_def)
  moreover have "co \<noteq> None" using inv(1) p c by (cases "sy_sup y") (auto simp: conn_inv_def)
  ultimately show ?thesis by (simp add: list_all_iff)
qed

text \<open>
  C9. Closing leaves nothing behind. Once \<open>Close\<close> has returned no connection is open, every
  component the bus ever took on has been closed exactly once (by \<open>Close\<close>, or by the \<open>attach\<close>
  that lost the race with it), no other has been touched, and the session is never ready.
\<close>

theorem close_releases_everything:
  assumes "sreachable mx y" "sy_close y = ClDone"
  shows "sy_open y = [] \<and> (\<forall>r. sy_closes y r = taken_on (sy_att y r)) \<and> \<not> snd (snd (current (sy_s y)))"
proof -
  have "conn_inv y" "close_inv y" "done_inv y" using sys_inv_reachable [OF assms(1)] by (simp_all add: sys_inv_def)
  then show ?thesis
    using assms(2) by (auto simp: conn_inv_def close_inv_def done_inv_def chan_inv_def current_def)
qed

text \<open>
  One connection lineage: there is never more than one open connection, and no step
  closes the ready channel twice, which would panic.
\<close>

theorem one_connection:
  assumes "sreachable mx y"
  shows "card (set (sy_open y)) \<le> 1 \<and> \<not> s_panic (sy_s y)"
proof -
  have "owned (sy_sup y) (s_conn (sy_s y)) (sy_open y)" "chan_inv (sy_s y)"
    using sys_inv_reachable [OF assms] by (simp_all add: sys_inv_def conn_inv_def done_inv_def)
  moreover have "\<exists>c. set (sy_open y) \<subseteq> {c}" if "owned p co (sy_open y)" for p co
    using that by (cases p; cases co) auto
  ultimately show ?thesis
    by (metis chan_inv_def card.empty card.insert card_mono empty_iff finite.emptyI finite_insert One_nat_def)
qed

text \<open>
  C29. What observers see is well formed: after each disconnection the attempts are numbered
  from 1 without a gap and there are at most \<open>MaxRetries\<close> of them, the reconnection carries
  the number of the last attempt, and giving up comes after exactly \<open>MaxRetries\<close> attempts.
  The session ends with \<open>ErrClosed\<close> or with the error of giving up, after exactly \<open>MaxRetries\<close>
  attempts have been announced. The two halves of giving up show in order: between them the
  session has ended and the event is still to come, and whoever sees the event finds the
  session ended.
\<close>

theorem connection_events_well_formed:
  assumes "sreachable mx y"
  shows "\<exists>st. link_run mx LinkUp (sy_events y) = Some st \<and>
    (s_doneErr (sy_s y) \<in> {None, Some (Sentinel ErrClosed)} \<or>
     s_doneErr (sy_s y) = Some (gave_up (nat mx)) \<and> mx > 0 \<and>
       (st = LinkGivenUp \<or> st = LinkDown (nat mx) \<and> (\<exists>prev. sy_sup y = SupGaveUp (nat mx) prev))) \<and>
    (st = LinkGivenUp \<longrightarrow> s_doneErr (sy_s y) \<noteq> None \<and> sy_sup y = SupEnd)"
proof -
  have "events_inv mx y" using sys_inv_reachable [OF assms] by (simp add: sys_inv_def)
  then show ?thesis by (cases "sy_sup y") (auto simp: events_inv_def split: option.splits)
qed

text \<open>
  C28. Reconnection ends: with a retry limit, the supervisor cannot work on an outage forever.
  Whatever the broker answers and however other goroutines interleave, the steps it takes
  between losing the connection and either reconnecting or stopping are well founded.
\<close>

theorem reconnect_terminates:
  assumes "0 < mx"
  shows "wf {(sy_sup z, sy_sup y) | y z. sreachable mx y \<and> sup_step mx y z \<and> sy_sup y \<noteq> SupWatch \<and> sy_sup z \<noteq> SupWatch}"
proof (rule wf_subset [OF wf_measures [of "[sup_left mx, sup_phase, sup_todo]"]], clarify)
  fix y z
  assume "sreachable mx y" "sup_step mx y z" "sy_sup y \<noteq> SupWatch" "sy_sup z \<noteq> SupWatch"
  moreover from this have "events_inv mx y" using sys_inv_reachable by (simp add: sys_inv_def)
  ultimately show "(sy_sup z, sy_sup y) \<in> measures [sup_left mx, sup_phase, sup_todo]"
    using sup_progress [OF assms] by blast
qed

text \<open>
  The end is final: a session that has finished keeps its first outcome and is never
  reported ready again.
\<close>

theorem finished_for_good:
  assumes "(sstep mx)\<^sup>*\<^sup>* y z" "s_doneErr (sy_s y) = Some e"
  shows "s_doneErr (sy_s z) = Some e \<and> \<not> snd (snd (current (sy_s z)))"
proof -
  from assms have "s_doneErr (sy_s z) = Some e"
    by (induction rule: rtranclp_induct) (auto dest: done_stable)
  then show ?thesis by (simp add: current_def)
qed

section \<open>Witnesses\<close>

text \<open>A run: connect, attach a component, lose the connection, reconnect with one attempt, close.\<close>

definition run_up :: sys where
  "run_up = snd (connect None sys0)"

definition run_holding :: sys where
  "run_holding = goto_att 0 AttLocked (lock (Attacher 0) (goto_att 0 AttReady (goto_att 0 (AttSnap 0) (goto_att 0 AttWait run_up))))"

definition run_attached :: sys where
  "run_attached =
     (let y = goto_att 0 AttEnrol (on_session (register 0) (goto_att 0 (AttRegister 0) (restore_comp 0 0
                (goto_att 0 (AttRestoring 0) (goto_att 0 AttChecked run_holding)))))
      in goto_att 0 AttOk (unlock (y\<lparr>sy_closers := sy_closers y @ [0]\<rparr>)))"

definition run_down :: sys where
  "run_down = goto_sup (SupTry 1 None) (lost_all amqpErrClosed
     (goto_sup (SupNotify amqpErrClosed) (on_session markNotReady (close_conn 0 run_attached))))"

definition run_redialled :: sys where
  "run_redialled =
     (let y = goto_sup (SupSleep 1 None) (emit (EventReconnecting 1 100) run_down);
          z = goto_sup (SupRestore 1 1) (on_session (install 1) (goto_sup (SupDialed 1 1) (opened y)))
      in goto_sup (SupRestoring 1 1 [0]) (lock Supervisor z))"

definition run_again :: sys where
  "run_again = goto_sup SupWatch (emit (EventReconnected 1) (goto_sup (SupReady 1) (on_session markReady (goto_sup (SupAnnounce 1 1)
     (goto_sup (SupRestored 1 1) (unlock (goto_sup (SupRestoring 1 1 []) (restore_comp 0 1 run_redialled))))))))"

definition run_closing :: sys where
  "run_closing =
     (let y = goto_close (ClFail (sy_closers run_again)) (run_again\<lparr>sy_closed := True, sy_closers := []\<rparr>);
          z = goto_close (ClClosing (rev [0])) (on_session (finish_session (Sentinel ErrClosed)) y)
      in goto_close (ClClosing []) (close_comp 0 (on_session (unregister 0) z)))"

definition run_closed :: sys where
  "run_closed =
     (let y = goto_close ClCancelled (on_session (\<lambda>s. (finish_session (Sentinel ErrClosed) s)\<lparr>s_cancelled := True\<rparr>) run_closing);
          z = goto_close ClWait (drop_conn (Some 1) (goto_close (ClConn (Some 1)) (on_session (\<lambda>s. s\<lparr>s_isReady := False\<rparr>) y)))
      in goto_close ClDone (drop_conn (Some 1) (goto_close (ClLast (Some 1)) (goto_sup SupEnd z))))"

lemmas run_state_defs = run_up_def run_holding_def run_attached_def run_down_def run_redialled_def run_again_def
  run_closing_def run_closed_def connect_def sys0_def newSession_def sys_defs ses_defs lost_all_def Let_def current_def
  exhausted_def whenReady_def

lemma run_up_reachable: "sreachable 3 run_up"
  unfolding run_up_def by (rule sreachable.step [OF sreachable.start sstep.dialled]) (simp add: sys0_def)

lemma sup_reach: "sreachable mx y \<Longrightarrow> sup_step mx y z \<Longrightarrow> z = z1 \<Longrightarrow> sreachable mx z1"
  by (auto intro: sreachable.step sstep.supervised)

lemma att_reach: "sreachable mx y \<Longrightarrow> att_step 0 y z \<Longrightarrow> z = z1 \<Longrightarrow> sreachable mx z1"
  by (auto intro: sreachable.step sstep.attached)

lemma close_reach: "sreachable mx y \<Longrightarrow> close_step y z \<Longrightarrow> z = z1 \<Longrightarrow> sreachable mx z1"
  by (auto intro: sreachable.step sstep.closed)

lemma sclose_reach: "sreachable mx y \<Longrightarrow> sclose_step y z \<Longrightarrow> z = z1 \<Longrightarrow> sreachable mx z1"
  by (auto intro: sreachable.step sstep.sclosed)

lemma run_holding_reachable: "sreachable 3 run_holding"
proof -
  note run_up_reachable
  then have "sreachable 3 (goto_att 0 AttWait run_up)"
    by (rule att_reach [OF _ att_begin]) (simp_all add: run_state_defs)
  then have "sreachable 3 (goto_att 0 (AttSnap 0) (goto_att 0 AttWait run_up))"
    by (rule att_reach [OF _ att_snap]) (simp_all add: run_state_defs)
  then have "sreachable 3 (goto_att 0 AttReady (goto_att 0 (AttSnap 0) (goto_att 0 AttWait run_up)))"
    by (rule att_reach [OF _ att_ready]) (simp_all add: run_state_defs)
  then have "sreachable 3 (goto_att 0 AttLocked (lock (Attacher 0) (goto_att 0 AttReady (goto_att 0 (AttSnap 0) (goto_att 0 AttWait run_up)))))"
    by (rule att_reach [OF _ att_lock]) (simp_all add: run_state_defs)
  then show ?thesis by (simp add: run_holding_def Let_def)
qed

lemma run_attached_reachable: "sreachable 3 run_attached"
proof -
  note run_holding_reachable
  then have "sreachable 3 (goto_att 0 AttChecked run_holding)"
    by (rule att_reach [OF _ att_checked]) (simp_all add: run_state_defs)
  then have "sreachable 3 (goto_att 0 (AttRestoring 0) (goto_att 0 AttChecked run_holding))"
    by (rule att_reach [OF _ att_current]) (simp_all add: run_state_defs)
  then have "sreachable 3 (goto_att 0 (AttRegister 0) (restore_comp 0 0 (goto_att 0 (AttRestoring 0) (goto_att 0 AttChecked run_holding))))"
    by (rule att_reach [OF _ att_restored]) (simp_all add: run_state_defs)
  then have "sreachable 3 (goto_att 0 AttEnrol (on_session (register 0) (goto_att 0 (AttRegister 0) (restore_comp 0 0 (goto_att 0 (AttRestoring 0) (goto_att 0 AttChecked run_holding))))))"
    by (rule att_reach [OF _ att_register]) (simp_all add: run_state_defs)
  then have "sreachable 3 (goto_att 0 AttOk (unlock ((goto_att 0 AttEnrol (on_session (register 0) (goto_att 0 (AttRegister 0) (restore_comp 0 0 (goto_att 0 (AttRestoring 0) (goto_att 0 AttChecked run_holding))))))\<lparr>sy_closers := sy_closers (goto_att 0 AttEnrol (on_session (register 0) (goto_att 0 (AttRegister 0) (restore_comp 0 0 (goto_att 0 (AttRestoring 0) (goto_att 0 AttChecked run_holding)))))) @ [0]\<rparr>)))"
    by (rule att_reach [OF _ att_enrol]) (simp_all add: run_state_defs)
  then show ?thesis by (simp add: run_attached_def Let_def)
qed

lemma run_down_reachable: "sreachable 3 run_down"
proof -
  note run_attached_reachable
  then have "sreachable 3 (close_conn 0 run_attached)" by (rule sreachable.step [OF _ sstep.dropped])
  then have "sreachable 3 (goto_sup (SupNotify amqpErrClosed) (on_session markNotReady (close_conn 0 run_attached)))"
    by (rule sup_reach [OF _ sup_lost [where c = 0]]) (simp_all add: run_state_defs)
  then have "sreachable 3 (goto_sup (SupTry 1 None) (lost_all amqpErrClosed (goto_sup (SupNotify amqpErrClosed) (on_session markNotReady (close_conn 0 run_attached)))))"
    by (rule sup_reach [OF _ sup_notify]) (simp_all add: run_state_defs)
  then show ?thesis by (simp add: run_down_def Let_def)
qed

lemma run_redialled_reachable: "sreachable 3 run_redialled"
proof -
  note run_down_reachable
  then have "sreachable 3 (goto_sup (SupSleep 1 None) (emit (EventReconnecting 1 100) run_down))"
    by (rule sup_reach [OF _ sup_try [where delay = 100]]) (simp_all add: run_state_defs)
  then have "sreachable 3 (goto_sup (SupDialed 1 1) (opened (goto_sup (SupSleep 1 None) (emit (EventReconnecting 1 100) run_down))))"
    by (rule sup_reach [OF _ sup_dial]) (simp_all add: run_state_defs)
  then have "sreachable 3 (goto_sup (SupRestore 1 1) (on_session (install 1) (goto_sup (SupDialed 1 1) (opened (goto_sup (SupSleep 1 None) (emit (EventReconnecting 1 100) run_down))))))"
    by (rule sup_reach [OF _ sup_install]) (simp_all add: run_state_defs)
  then have "sreachable 3 (goto_sup (SupRestoring 1 1 [0]) (lock Supervisor (goto_sup (SupRestore 1 1) (on_session (install 1) (goto_sup (SupDialed 1 1) (opened (goto_sup (SupSleep 1 None) (emit (EventReconnecting 1 100) run_down))))))))"
    by (rule sup_reach [OF _ sup_lock]) (simp_all add: run_state_defs)
  then show ?thesis by (simp add: run_redialled_def Let_def)
qed

lemma run_again_reachable: "sreachable 3 run_again"
proof -
  note run_redialled_reachable
  then have "sreachable 3 (goto_sup (SupRestoring 1 1 []) (restore_comp 0 1 run_redialled))"
    by (rule sup_reach [OF _ sup_restore]) (simp_all add: run_state_defs)
  then have "sreachable 3 (goto_sup (SupRestored 1 1) (unlock (goto_sup (SupRestoring 1 1 []) (restore_comp 0 1 run_redialled))))"
    by (rule sup_reach [OF _ sup_restore_done]) (simp_all add: run_state_defs)
  then have "sreachable 3 (goto_sup (SupAnnounce 1 1) (goto_sup (SupRestored 1 1) (unlock (goto_sup (SupRestoring 1 1 []) (restore_comp 0 1 run_redialled)))))"
    by (rule sup_reach [OF _ sup_restored]) (simp_all add: run_state_defs)
  then have "sreachable 3 (goto_sup (SupReady 1) (on_session markReady (goto_sup (SupAnnounce 1 1) (goto_sup (SupRestored 1 1) (unlock (goto_sup (SupRestoring 1 1 []) (restore_comp 0 1 run_redialled)))))))"
    by (rule sup_reach [OF _ sup_announce]) (simp_all add: run_state_defs)
  then have "sreachable 3 (goto_sup SupWatch (emit (EventReconnected 1) (goto_sup (SupReady 1) (on_session markReady (goto_sup (SupAnnounce 1 1) (goto_sup (SupRestored 1 1) (unlock (goto_sup (SupRestoring 1 1 []) (restore_comp 0 1 run_redialled)))))))))"
    by (rule sup_reach [OF _ sup_ready]) (simp_all add: run_state_defs)
  then show ?thesis by (simp add: run_again_def Let_def)
qed

lemma run_closing_reachable: "sreachable 3 run_closing"
proof -
  note run_again_reachable
  then have "sreachable 3 (goto_close (ClFail (sy_closers run_again)) (run_again\<lparr>sy_closed := True, sy_closers := []\<rparr>))"
    by (rule close_reach [OF _ close_begin]) (simp_all add: run_state_defs)
  then have "sreachable 3 (goto_close (ClClosing (rev [0])) (on_session (finish_session (Sentinel ErrClosed)) (goto_close (ClFail (sy_closers run_again)) (run_again\<lparr>sy_closed := True, sy_closers := []\<rparr>))))"
    by (rule close_reach [OF _ close_finish]) (simp_all add: run_state_defs)
  then have "sreachable 3 (goto_close (ClClosing []) (close_comp 0 (on_session (unregister 0) (goto_close (ClClosing (rev [0])) (on_session (finish_session (Sentinel ErrClosed)) (goto_close (ClFail (sy_closers run_again)) (run_again\<lparr>sy_closed := True, sy_closers := []\<rparr>)))))))"
    by (rule close_reach [OF _ close_one [where r = 0 and rs = "[]"]]) (simp_all add: run_state_defs)
  then show ?thesis by (simp add: run_closing_def Let_def)
qed

lemma run_closed_reachable: "sreachable 3 run_closed"
proof -
  note run_closing_reachable
  then have "sreachable 3 (goto_close ClCancelled (on_session (\<lambda>s. (finish_session (Sentinel ErrClosed) s)\<lparr>s_cancelled := True\<rparr>) run_closing))"
    by (rule sclose_reach [OF _ close_cancel]) (simp_all add: run_state_defs)
  then have "sreachable 3 (goto_close (ClConn (Some 1)) (on_session (\<lambda>s. s\<lparr>s_isReady := False\<rparr>) (goto_close ClCancelled (on_session (\<lambda>s. (finish_session (Sentinel ErrClosed) s)\<lparr>s_cancelled := True\<rparr>) run_closing))))"
    by (rule sclose_reach [OF _ close_read]) (simp_all add: run_state_defs)
  then have "sreachable 3 (goto_close ClWait (drop_conn (Some 1) (goto_close (ClConn (Some 1)) (on_session (\<lambda>s. s\<lparr>s_isReady := False\<rparr>) (goto_close ClCancelled (on_session (\<lambda>s. (finish_session (Sentinel ErrClosed) s)\<lparr>s_cancelled := True\<rparr>) run_closing))))))"
    by (rule sclose_reach [OF _ close_drop]) (simp_all add: run_state_defs)
  then have "sreachable 3 (goto_sup SupEnd (goto_close ClWait (drop_conn (Some 1) (goto_close (ClConn (Some 1)) (on_session (\<lambda>s. s\<lparr>s_isReady := False\<rparr>) (goto_close ClCancelled (on_session (\<lambda>s. (finish_session (Sentinel ErrClosed) s)\<lparr>s_cancelled := True\<rparr>) run_closing)))))))"
    by (rule sup_reach [OF _ sup_stop]) (simp_all add: run_state_defs)
  then have "sreachable 3 (goto_close (ClLast (Some 1)) (goto_sup SupEnd (goto_close ClWait (drop_conn (Some 1) (goto_close (ClConn (Some 1)) (on_session (\<lambda>s. s\<lparr>s_isReady := False\<rparr>) (goto_close ClCancelled (on_session (\<lambda>s. (finish_session (Sentinel ErrClosed) s)\<lparr>s_cancelled := True\<rparr>) run_closing))))))))"
    by (rule sclose_reach [OF _ close_wait]) (simp_all add: run_state_defs)
  then have "sreachable 3 (goto_close ClDone (drop_conn (Some 1) (goto_close (ClLast (Some 1)) (goto_sup SupEnd (goto_close ClWait (drop_conn (Some 1) (goto_close (ClConn (Some 1)) (on_session (\<lambda>s. s\<lparr>s_isReady := False\<rparr>) (goto_close ClCancelled (on_session (\<lambda>s. (finish_session (Sentinel ErrClosed) s)\<lparr>s_cancelled := True\<rparr>) run_closing))))))))))"
    by (rule sclose_reach [OF _ close_last]) (simp_all add: run_state_defs)
  then show ?thesis by (simp add: run_closed_def Let_def)
qed

theorem ready_means_restored_witness:
  "current (sy_s run_again) = (Some 1, 2, True) \<and> s_comps (sy_s run_again) = [0] \<and> sy_restored run_again 0 = Some 1"
proof -
  have c: "current (sy_s run_again) = (Some 1, 2, True)" "s_comps (sy_s run_again) = [0]" by (simp_all add: run_state_defs)
  with ready_means_restored [OF run_again_reachable c(1)] show ?thesis by simp
qed

theorem close_releases_everything_witness:
  "sy_close run_closed = ClDone \<and> sy_open run_closed = [] \<and> sy_closes run_closed 0 = 1 \<and> sy_closes run_closed 1 = 0"
proof -
  have c: "sy_close run_closed = ClDone" "sy_att run_closed 0 = AttOk" "sy_att run_closed 1 = AttNone"
    by (simp_all add: run_state_defs)
  with close_releases_everything [OF run_closed_reachable c(1)] show ?thesis by simp
qed

theorem one_connection_witness: "sy_open run_again = [1] \<and> card (set (sy_open run_again)) \<le> 1 \<and> \<not> s_panic (sy_s run_again)"
  using one_connection [OF run_again_reachable] by (simp add: run_state_defs)

text \<open>Every attempt fails: the session has ended and the event of giving up is still to come.\<close>

definition failed_attempt :: "nat \<Rightarrow> sys \<Rightarrow> sys" where
  "failed_attempt n y = goto_sup (SupTry (n + 1) (Some amqpErrClosed)) (goto_sup (SupSleep n None) (emit (EventReconnecting n 100) y))"

lemma failed_attempt_reachable:
  assumes "sreachable mx y" "sy_sup y = SupTry n prev" "\<not> exhausted mx n"
  shows "sreachable mx (failed_attempt n y)"
proof -
  have "sreachable mx (goto_sup (SupSleep n prev) (emit (EventReconnecting n 100) y))"
    by (rule sup_reach [OF assms(1) sup_try [OF assms(2,3), of 100] refl])
  then show ?thesis by (rule sup_reach [OF _ sup_dial_fail [where e = amqpErrClosed]]) (simp_all add: failed_attempt_def sys_defs)
qed

definition run_given_up :: sys where
  "run_given_up = giveUp 3 (Some amqpErrClosed) (failed_attempt 3 (failed_attempt 2 (failed_attempt 1 run_down)))"

lemma run_given_up_reachable: "sreachable 3 run_given_up"
proof -
  have "sreachable 3 (failed_attempt 1 run_down)"
    by (rule failed_attempt_reachable [OF run_down_reachable]) (simp_all add: run_state_defs)
  then have "sreachable 3 (failed_attempt 2 (failed_attempt 1 run_down))"
    by (rule failed_attempt_reachable) (simp_all add: failed_attempt_def run_state_defs)
  then have "sreachable 3 (failed_attempt 3 (failed_attempt 2 (failed_attempt 1 run_down)))"
    by (rule failed_attempt_reachable) (simp_all add: failed_attempt_def run_state_defs)
  then show ?thesis
    by (rule sup_reach [OF _ sup_give_up [where n = 4]]) (simp_all add: run_given_up_def failed_attempt_def run_state_defs)
qed

theorem connection_events_well_formed_witness:
  "length (sy_events run_given_up) = 4 \<and> s_doneErr (sy_s run_given_up) = Some (gave_up 3) \<and>
   link_run 3 LinkUp (sy_events run_given_up) = Some (LinkDown 3)"
proof -
  have "length (sy_events run_given_up) = 4" "s_doneErr (sy_s run_given_up) = Some (gave_up 3)"
    "sy_sup run_given_up = SupGaveUp 3 (Some amqpErrClosed)" "gave_up 3 \<noteq> Sentinel ErrClosed"
    by (simp_all add: run_given_up_def giveUp_def failed_attempt_def run_state_defs gave_up_def)
  with connection_events_well_formed [OF run_given_up_reachable] show ?thesis by auto
qed

theorem reconnect_terminates_witness:
  "wf {(sy_sup z, sy_sup y) | y z. sreachable 3 y \<and> sup_step 3 y z \<and> sy_sup y \<noteq> SupWatch \<and> sy_sup z \<noteq> SupWatch} \<and>
   sreachable 3 run_down \<and> sy_sup run_down = SupTry 1 None"
  using reconnect_terminates [of 3] run_down_reachable by (simp add: run_state_defs)

theorem finished_for_good_witness:
  "s_doneErr (sy_s run_closed) = Some (Sentinel ErrClosed) \<and> s_doneErr (sy_s (close_conn 0 run_closed)) = Some (Sentinel ErrClosed)"
proof -
  have d: "s_doneErr (sy_s run_closed) = Some (Sentinel ErrClosed)" by (simp add: run_state_defs)
  have "(sstep 3)\<^sup>*\<^sup>* run_closed (close_conn 0 run_closed)" by (auto intro: sstep.dropped)
  from finished_for_good [OF this d] d show ?thesis by simp
qed

end
