(* ===== verification/Broker.thy ===== *)
theory Broker imports Headers Topic begin

text \<open>
  The in-memory broker of \<open>internal/fakebroker/broker.go\<close>, the executable model of RabbitMQ
  the repository tests against: routing, queues, priorities, expiry, dead-lettering and
  dispatch. Queues, channels, connections, consumers and messages are objects with an
  identity: an address in a store, allocated from \<open>b_fresh\<close>. What the code does under its
  mutex is one function of the broker's state.

  Where the code ranges over a Go map the model takes the order of insertion. A timer is
  the flag \<open>m_timer\<close>; it may fire at any time while it is set.
\<close>

section \<open>State\<close>

datatype ConfirmAction = Ack | Nack | Drop | Hold

record Published =
  pd_Exchange :: string
  pd_Key :: string
  pd_Mandatory :: bool
  pd_Msg :: Publishing

record Op =
  op_Kind :: string
  op_Exchange :: string
  op_Key :: string
  op_Queue :: string
  op_Mandatory :: bool
  op_Requeue :: bool
  op_MessageID :: string
  op_CorrelationID :: string
  op_Msg :: Publishing

record exchange =
  x_kind :: string
  x_durable :: bool
  x_autoDelete :: bool
  x_intern :: bool
  x_bindings :: "(string \<times> string) list"

record message =
  m_ptr :: nat
  m_pub :: Publishing
  m_exchange :: string
  m_key :: string
  m_redelivered :: bool
  m_timer :: bool

record queue =
  q_name :: string
  q_durable :: bool
  q_autoDelete :: bool
  q_exclusv :: bool
  q_owner :: "nat option"
  q_args :: table
  q_ttl :: int
  q_dlx :: "string option"
  q_dlxKey :: "string option"
  q_maxPriority :: nat
  q_msgs :: "message list"
  q_consumers :: "nat list"
  q_rr :: nat
  q_hadConsumer :: bool
  q_deleted :: bool

record consumer =
  bc_tag :: string
  bc_ch :: nat
  bc_q :: nat
  bc_autoAck :: bool
  bc_exclusive :: bool
  bc_prefetch :: int
  bc_unacked :: int
  bc_out :: "Delivery list"
  bc_stopped :: bool

record inflight =
  if_msg :: message
  if_q :: nat
  if_cons :: nat

datatype amqp_error = AmqpError (ae_Code: nat) (ae_Reason: string)

text \<open>What a channel's event pump sends its listeners, in order.\<close>

datatype channel_event = EmitReturn string string Publishing | EmitConfirm nat bool

record channel =
  ch_conn :: nat
  ch_id :: nat
  ch_closed :: bool
  ch_confirm :: bool
  ch_publishSeq :: nat
  ch_prefetch :: int
  ch_nextTag :: nat
  ch_consumers :: "(string \<times> nat) list"
  ch_unacked :: "(nat \<times> inflight) list"
  ch_events :: "channel_event list"
  ch_cancelled :: "string list"
  ch_closeErr :: "amqp_error option"
  ch_ctagSeq :: nat
  ch_held :: "(channel_event list \<times> nat) list"

record conn =
  cn_channels :: "nat list"
  cn_closed :: bool
  cn_closeErr :: "amqp_error option"
  cn_nextID :: nat

record broker =
  b_exchanges :: "(string \<times> exchange) list"
  b_queues :: "(string \<times> nat) list"
  b_conns :: "nat list"
  b_dialFault :: "amqp_error option"
  b_dials :: nat
  b_policy :: "Published \<Rightarrow> ConfirmAction"
  b_delay :: "Published \<Rightarrow> int"
  b_delayed :: "(nat \<times> nat) list"
  b_ops :: "Op list"
  b_nameSeq :: nat
  b_q :: "nat \<Rightarrow> queue"
  b_ch :: "nat \<Rightarrow> channel"
  b_cn :: "nat \<Rightarrow> conn"
  b_cs :: "nat \<Rightarrow> consumer"
  b_fresh :: nat

definition no_queue :: queue where
  "no_queue =
     \<lparr>q_name = '''', q_durable = False, q_autoDelete = False, q_exclusv = False, q_owner = None,
      q_args = [], q_ttl = 0, q_dlx = None, q_dlxKey = None, q_maxPriority = 0, q_msgs = [],
      q_consumers = [], q_rr = 0, q_hadConsumer = False, q_deleted = False\<rparr>"

definition no_channel :: channel where
  "no_channel =
     \<lparr>ch_conn = 0, ch_id = 0, ch_closed = False, ch_confirm = False, ch_publishSeq = 0, ch_prefetch = 0, ch_nextTag = 0,
      ch_consumers = [], ch_unacked = [], ch_events = [], ch_cancelled = [], ch_closeErr = None,
      ch_ctagSeq = 0, ch_held = []\<rparr>"

definition no_conn :: conn where
  "no_conn = \<lparr>cn_channels = [], cn_closed = False, cn_closeErr = None, cn_nextID = 0\<rparr>"

definition no_consumer :: consumer where
  "no_consumer =
     \<lparr>bc_tag = '''', bc_ch = 0, bc_q = 0, bc_autoAck = False, bc_exclusive = False, bc_prefetch = 0,
      bc_unacked = 0, bc_out = [], bc_stopped = False\<rparr>"

definition new_exchange :: "string \<Rightarrow> bool \<Rightarrow> bool \<Rightarrow> bool \<Rightarrow> exchange" where
  "new_exchange kind durable autoDelete internal =
     \<lparr>x_kind = kind, x_durable = durable, x_autoDelete = autoDelete, x_intern = internal, x_bindings = []\<rparr>"

definition New :: broker where
  "New =
     \<lparr>b_exchanges = [('''', new_exchange ''direct'' True False False)], b_queues = [], b_conns = [],
      b_dialFault = None, b_dials = 0, b_policy = \<lambda>_. Ack, b_delay = \<lambda>_. 0, b_delayed = [], b_ops = [],
      b_nameSeq = 0, b_q = \<lambda>_. no_queue, b_ch = \<lambda>_. no_channel, b_cn = \<lambda>_. no_conn, b_cs = \<lambda>_. no_consumer,
      b_fresh = 0\<rparr>"

text \<open>Updating one object of the store.\<close>

definition on_q :: "nat \<Rightarrow> (queue \<Rightarrow> queue) \<Rightarrow> broker \<Rightarrow> broker" where
  "on_q i f b = b\<lparr>b_q := (b_q b)(i := f (b_q b i))\<rparr>"

definition on_ch :: "nat \<Rightarrow> (channel \<Rightarrow> channel) \<Rightarrow> broker \<Rightarrow> broker" where
  "on_ch i f b = b\<lparr>b_ch := (b_ch b)(i := f (b_ch b i))\<rparr>"

definition on_cn :: "nat \<Rightarrow> (conn \<Rightarrow> conn) \<Rightarrow> broker \<Rightarrow> broker" where
  "on_cn i f b = b\<lparr>b_cn := (b_cn b)(i := f (b_cn b i))\<rparr>"

definition on_cs :: "nat \<Rightarrow> (consumer \<Rightarrow> consumer) \<Rightarrow> broker \<Rightarrow> broker" where
  "on_cs i f b = b\<lparr>b_cs := (b_cs b)(i := f (b_cs b i))\<rparr>"

definition log_op :: "Op \<Rightarrow> broker \<Rightarrow> broker" where
  "log_op entry b = b\<lparr>b_ops := b_ops b @ [entry]\<rparr>"

definition queue_op :: "string \<Rightarrow> string \<Rightarrow> message \<Rightarrow> bool \<Rightarrow> Op" where
  "queue_op kind queue m requeue =
     \<lparr>op_Kind = kind, op_Exchange = '''', op_Key = m_key m, op_Queue = queue, op_Mandatory = False,
      op_Requeue = requeue, op_MessageID = p_MessageId (m_pub m), op_CorrelationID = p_CorrelationId (m_pub m),
      op_Msg = m_pub m\<rparr>"

definition exchange_op :: "string \<Rightarrow> string \<Rightarrow> string \<Rightarrow> bool \<Rightarrow> Publishing \<Rightarrow> Op" where
  "exchange_op kind x k mandatory msg =
     \<lparr>op_Kind = kind, op_Exchange = x, op_Key = k, op_Queue = '''', op_Mandatory = mandatory,
      op_Requeue = False, op_MessageID = p_MessageId msg, op_CorrelationID = p_CorrelationId msg,
      op_Msg = (if kind = ''return'' then empty_publishing else msg)\<rparr>"

section \<open>Dispatch\<close>

text \<open>\<open>next\<close>: the highest priority, the first within one.\<close>

fun best_from :: "nat \<Rightarrow> message list \<Rightarrow> nat \<Rightarrow> nat \<Rightarrow> int \<Rightarrow> nat" where
  "best_from maxP [] i best bestP = best"
| "best_from maxP (m # ms) i best bestP =
     (let p = int (min (p_Priority (m_pub m)) maxP)
      in if p > bestP then best_from maxP ms (i + 1) i p else best_from maxP ms (i + 1) best bestP)"

definition next_index :: "queue \<Rightarrow> nat" where
  "next_index q = (if q_maxPriority q = 0 then 0 else best_from (q_maxPriority q) (q_msgs q) 0 0 (- 1))"

definition hasCapacity :: "consumer \<Rightarrow> bool" where
  "hasCapacity c \<longleftrightarrow> bc_autoAck c \<or> bc_prefetch c = 0 \<or> bc_unacked c < bc_prefetch c"

definition delivery_of :: "nat \<Rightarrow> message \<Rightarrow> Delivery" where
  "delivery_of tag m =
     (let p = m_pub m in
      \<lparr>d_Headers = p_Headers p, d_ContentType = p_ContentType p, d_ContentEncoding = p_ContentEncoding p,
       d_DeliveryMode = p_DeliveryMode p, d_Priority = p_Priority p, d_CorrelationId = p_CorrelationId p,
       d_ReplyTo = p_ReplyTo p, d_Expiration = p_Expiration p, d_MessageId = p_MessageId p,
       d_Timestamp = p_Timestamp p, d_Type = p_Type p, d_UserId = p_UserId p, d_AppId = p_AppId p,
       d_DeliveryTag = tag, d_Redelivered = m_redelivered m, d_Exchange = m_exchange m, d_RoutingKey = m_key m,
       d_Body = p_Body p\<rparr>)"

definition deliver :: "nat \<Rightarrow> nat \<Rightarrow> message \<Rightarrow> broker \<Rightarrow> broker" where
  "deliver ci qi m b =
     (let c = b_cs b ci; tag = ch_nextTag (b_ch b (bc_ch c)) + 1
      in on_cs ci (\<lambda>c. c\<lparr>bc_unacked := (if bc_autoAck c then bc_unacked c else bc_unacked c + 1),
                        bc_out := bc_out c @ [delivery_of tag m]\<rparr>)
           (on_ch (bc_ch c) (\<lambda>ch. ch\<lparr>ch_nextTag := tag,
                        ch_unacked := (if bc_autoAck c then ch_unacked ch
                          else (tag, \<lparr>if_msg = m, if_q = qi, if_cons = ci\<rparr>) # ch_unacked ch)\<rparr>) b))"

text \<open>The consumer to serve: the first with capacity, starting after the last one served.\<close>

definition pick :: "broker \<Rightarrow> queue \<Rightarrow> nat option" where
  "pick b q =
     List.find (\<lambda>i. hasCapacity (b_cs b (q_consumers q ! ((q_rr q + i) mod length (q_consumers q)))))
       [0..<length (q_consumers q)]"

definition remove_nth :: "nat \<Rightarrow> 'a list \<Rightarrow> 'a list" where
  "remove_nth i xs = take i xs @ drop (Suc i) xs"

definition dispatch_one :: "nat \<Rightarrow> nat \<Rightarrow> broker \<Rightarrow> broker" where
  "dispatch_one qi i b =
     (let q = b_q b qi; n = length (q_consumers q); ci = q_consumers q ! ((q_rr q + i) mod n);
          j = next_index q; m = (q_msgs q ! j)\<lparr>m_timer := False\<rparr>
      in log_op (queue_op ''deliver'' (q_name q) m False)
           (deliver ci qi m
              (on_q qi (\<lambda>q. q\<lparr>q_rr := (q_rr q + i + 1) mod n, q_msgs := remove_nth j (q_msgs q)\<rparr>) b)))"

lemma best_from_bounds: "best < n \<Longrightarrow> i + length ms \<le> n \<Longrightarrow> best_from maxP ms i best bestP < n"
  by (induction maxP ms i best bestP rule: best_from.induct) (simp_all add: Let_def)

lemma next_index_less: "q_msgs q \<noteq> [] \<Longrightarrow> next_index q < length (q_msgs q)"
  by (simp add: next_index_def best_from_bounds)

lemma length_remove_nth [simp]: "i < length xs \<Longrightarrow> length (remove_nth i xs) = length xs - 1"
  by (simp add: remove_nth_def)

lemma store_simps [simp]:
  "b_q (on_q i f b) = (b_q b)(i := f (b_q b i))" "b_ch (on_q i f b) = b_ch b" "b_cs (on_q i f b) = b_cs b" "b_cn (on_q i f b) = b_cn b"
  "b_q (on_ch j g b) = b_q b" "b_ch (on_ch j g b) = (b_ch b)(j := g (b_ch b j))" "b_cs (on_ch j g b) = b_cs b" "b_cn (on_ch j g b) = b_cn b"
  "b_q (on_cs k h b) = b_q b" "b_ch (on_cs k h b) = b_ch b" "b_cs (on_cs k h b) = (b_cs b)(k := h (b_cs b k))" "b_cn (on_cs k h b) = b_cn b"
  "b_q (on_cn l p b) = b_q b" "b_ch (on_cn l p b) = b_ch b" "b_cs (on_cn l p b) = b_cs b" "b_cn (on_cn l p b) = (b_cn b)(l := p (b_cn b l))"
  "b_q (log_op e b) = b_q b" "b_ch (log_op e b) = b_ch b" "b_cs (log_op e b) = b_cs b" "b_cn (log_op e b) = b_cn b"
  by (simp_all add: on_q_def on_ch_def on_cs_def on_cn_def log_op_def)

lemma registry_simps [simp]:
  "b_exchanges (on_q i f b) = b_exchanges b" "b_queues (on_q i f b) = b_queues b" "b_fresh (on_q i f b) = b_fresh b"
  "b_exchanges (on_ch j g b) = b_exchanges b" "b_queues (on_ch j g b) = b_queues b" "b_fresh (on_ch j g b) = b_fresh b"
  "b_exchanges (on_cs k h b) = b_exchanges b" "b_queues (on_cs k h b) = b_queues b" "b_fresh (on_cs k h b) = b_fresh b"
  "b_exchanges (on_cn l p b) = b_exchanges b" "b_queues (on_cn l p b) = b_queues b" "b_fresh (on_cn l p b) = b_fresh b"
  "b_exchanges (log_op e b) = b_exchanges b" "b_queues (log_op e b) = b_queues b" "b_fresh (log_op e b) = b_fresh b"
  by (simp_all add: on_q_def on_ch_def on_cs_def on_cn_def log_op_def)

lemma deliver_q [simp]: "b_q (deliver ci qi m b) = b_q b"
  by (simp add: deliver_def Let_def)

lemma dispatch_one_q: "b_q (dispatch_one qi i b) qi =
  (b_q b qi)\<lparr>q_rr := (q_rr (b_q b qi) + i + 1) mod length (q_consumers (b_q b qi)),
     q_msgs := remove_nth (next_index (b_q b qi)) (q_msgs (b_q b qi))\<rparr>"
  by (simp add: dispatch_one_def Let_def)

function dispatch :: "nat \<Rightarrow> broker \<Rightarrow> broker" where
  "dispatch qi b =
     (if q_msgs (b_q b qi) = [] \<or> q_consumers (b_q b qi) = [] then b
      else case pick b (b_q b qi) of None \<Rightarrow> b | Some i \<Rightarrow> dispatch qi (dispatch_one qi i b))"
  by pat_completeness auto

termination
  by (relation "measure (\<lambda>(qi, b). length (q_msgs (b_q b qi)))") (simp_all add: dispatch_one_q next_index_less)

declare dispatch.simps [simp del]

section \<open>Routing\<close>

text \<open>\<open>enqueue\<close> adds a message at the end of a queue, or at its head when it is requeued.\<close>

definition enqueue :: "nat \<Rightarrow> message \<Rightarrow> bool \<Rightarrow> broker \<Rightarrow> broker" where
  "enqueue qi m front b =
     (let q = b_q b qi; m1 = (if q_ttl q > 0 then m\<lparr>m_timer := True\<rparr> else m) in
      if q_deleted q then b
      else dispatch qi (on_q qi (\<lambda>q. q\<lparr>q_msgs := (if front then m1 # q_msgs q else q_msgs q @ [m1])\<rparr>) b))"

definition binding_hit :: "string \<Rightarrow> string \<Rightarrow> string \<Rightarrow> bool" where
  "binding_hit kind pattern key \<longleftrightarrow>
     kind = ''fanout'' \<or> kind = ''direct'' \<and> pattern = key \<or>
     kind = ''topic'' \<and> topicMatch (split_dots pattern) (split_dots key)"

text \<open>The loop over the bindings, \<open>seen\<close> being the queues taken so far.\<close>

fun bound_queues :: "(string \<times> nat) list \<Rightarrow> string \<Rightarrow> string \<Rightarrow> nat list \<Rightarrow> (string \<times> string) list \<Rightarrow> nat list" where
  "bound_queues qs kind key seen [] = seen"
| "bound_queues qs kind key seen ((name, pattern) # bs) =
     (case map_of qs name of
        None \<Rightarrow> bound_queues qs kind key seen bs
      | Some qi \<Rightarrow>
          if qi \<in> set seen then bound_queues qs kind key seen bs
          else if binding_hit kind pattern key then bound_queues qs kind key (seen @ [qi]) bs
          else bound_queues qs kind key seen bs)"

definition targets :: "broker \<Rightarrow> string \<Rightarrow> string \<Rightarrow> nat list" where
  "targets b x key =
     (if x = '''' then (case map_of (b_queues b) key of None \<Rightarrow> [] | Some qi \<Rightarrow> [qi])
      else (case map_of (b_exchanges b) x of
              None \<Rightarrow> []
            | Some ex \<Rightarrow> bound_queues (b_queues b) (x_kind ex) key [] (x_bindings ex)))"

definition new_message :: "nat \<Rightarrow> Publishing \<Rightarrow> string \<Rightarrow> string \<Rightarrow> message" where
  "new_message ptr msg x key =
     \<lparr>m_ptr = ptr, m_pub = msg, m_exchange = x, m_key = key, m_redelivered = False, m_timer = False\<rparr>"

definition enqueue_new :: "string \<Rightarrow> string \<Rightarrow> Publishing \<Rightarrow> nat \<Rightarrow> broker \<Rightarrow> broker" where
  "enqueue_new x key msg qi b =
     enqueue qi (new_message (b_fresh b) msg x key) False (b\<lparr>b_fresh := b_fresh b + 1\<rparr>)"

definition route :: "string \<Rightarrow> string \<Rightarrow> Publishing \<Rightarrow> broker \<Rightarrow> bool \<times> broker" where
  "route x key msg b =
     (let ts = targets b x key in (ts \<noteq> [], fold (enqueue_new x key msg) ts b))"

text \<open>\<open>deadLetter\<close>: republishes to the queue's dead-letter exchange, recording the death.\<close>

definition death_entry :: "string \<Rightarrow> int \<Rightarrow> queue \<Rightarrow> message \<Rightarrow> hval" where
  "death_entry reason now q m =
     VTable [(''count'', VInt64 1), (''reason'', VString reason), (''queue'', VString (q_name q)), (''time'', VTime now),
       (''exchange'', VString (m_exchange m)), (''routing-keys'', VList [VString (m_key m)])]"

definition with_death :: "hval \<Rightarrow> Publishing \<Rightarrow> Publishing" where
  "with_death death p =
     p\<lparr>p_Headers := (p_Headers p)(''x-death'' \<mapsto>
        VList (death # (case p_Headers p ''x-death'' of Some (VList prior) \<Rightarrow> prior | _ \<Rightarrow> [])))\<rparr>"

definition deadLetter :: "nat \<Rightarrow> message \<Rightarrow> string \<Rightarrow> int \<Rightarrow> broker \<Rightarrow> broker" where
  "deadLetter qi m reason now b =
     (let q = b_q b qi in
      case q_dlx q of
        None \<Rightarrow> b
      | Some x \<Rightarrow>
          if map_of (b_exchanges b) x = None then b
          else snd (route x (case q_dlxKey q of None \<Rightarrow> m_key m | Some k \<Rightarrow> k)
                 (with_death (death_entry reason now q m) (m_pub m)) b))"

text \<open>\<open>expire\<close>: the timer of the message at an address fires.\<close>

definition expire :: "nat \<Rightarrow> nat \<Rightarrow> int \<Rightarrow> broker \<Rightarrow> broker" where
  "expire qi ptr now b =
     (let q = b_q b qi in
      case List.find (\<lambda>m. m_ptr m = ptr) (q_msgs q) of
        None \<Rightarrow> b
      | Some m \<Rightarrow>
          if q_deleted q then b
          else deadLetter qi m ''expired'' now
                 (log_op (queue_op ''expire'' (q_name q) m False)
                    (on_q qi (\<lambda>q. q\<lparr>q_msgs := filter (\<lambda>m. m_ptr m \<noteq> ptr) (q_msgs q)\<rparr>) b)))"

section \<open>Deletion\<close>

definition drop_consumer :: "nat \<Rightarrow> broker \<Rightarrow> broker" where
  "drop_consumer ci b =
     (let c = b_cs b ci in
      on_cs ci (\<lambda>c. c\<lparr>bc_stopped := True\<rparr>)
        (on_q (bc_q c) (\<lambda>q. q\<lparr>q_consumers := filter (\<lambda>i. i \<noteq> ci) (q_consumers q)\<rparr>)
          (on_ch (bc_ch c) (\<lambda>ch. ch\<lparr>ch_consumers := filter (\<lambda>(t, i). t \<noteq> bc_tag c) (ch_consumers ch)\<rparr>) b)))"

text \<open>
  \<open>deleteQueue\<close>: the consumers are removed after the queue is marked deleted, so removing
  one does not delete it again; each of their channels is told.
\<close>

definition cancel_consumer :: "nat \<Rightarrow> broker \<Rightarrow> broker" where
  "cancel_consumer ci b =
     on_ch (bc_ch (b_cs b ci))
       (\<lambda>ch. if ch_closed ch then ch else ch\<lparr>ch_cancelled := ch_cancelled ch @ [bc_tag (b_cs b ci)]\<rparr>) (drop_consumer ci b)"

definition deleteQueue :: "nat \<Rightarrow> broker \<Rightarrow> broker" where
  "deleteQueue qi b =
     (let name = q_name (b_q b qi);
          b1 = on_q qi (\<lambda>q. q\<lparr>q_deleted := True, q_msgs := []\<rparr>) b;
          b2 = b1\<lparr>b_exchanges := map (\<lambda>(x, ex). (x, ex\<lparr>x_bindings := filter (\<lambda>(n, k). n \<noteq> name) (x_bindings ex)\<rparr>)) (b_exchanges b1)\<rparr>;
          b3 = fold cancel_consumer (q_consumers (b_q b qi)) b2
      in b3\<lparr>b_queues := filter (\<lambda>(n, i). n \<noteq> name) (b_queues b3)\<rparr>)"

definition removeConsumer :: "nat \<Rightarrow> broker \<Rightarrow> broker" where
  "removeConsumer ci b =
     (let b1 = drop_consumer ci b; qi = bc_q (b_cs b ci); q = b_q b1 qi
      in if q_autoDelete q \<and> q_hadConsumer q \<and> q_consumers q = [] \<and> \<not> q_deleted q then deleteQueue qi b1 else b1)"

definition DeleteQueue :: "string \<Rightarrow> broker \<Rightarrow> broker" where
  "DeleteQueue name b = (case map_of (b_queues b) name of None \<Rightarrow> b | Some qi \<Rightarrow> deleteQueue qi b)"

end
