(* ===== verification/BrokerChannel.thy ===== *)
theory BrokerChannel imports Broker begin

text \<open>
  Connections and channels of the in-memory broker, \<open>internal/fakebroker/channel.go\<close>: every
  method a client calls, the settlement of deliveries and the failures a test injects.
  A method returns the AMQP error it fails with. Listeners are not objects of the model:
  \<open>ch_events\<close> is what a channel's event pump is given to send them, in order, and
  \<open>bc_out\<close> what a consumer's pump is.
\<close>

section \<open>Errors\<close>

definition ErrClosed_amqp :: amqp_error where
  "ErrClosed_amqp = AmqpError 504 ''channel/connection is not open''"

definition quoted :: "string \<Rightarrow> string" where
  "quoted s = CHR 0x27 # s @ [CHR 0x27]"

definition not_found :: "string \<Rightarrow> string \<Rightarrow> amqp_error" where
  "not_found what name = AmqpError 404 (''NOT_FOUND - no '' @ what @ '' '' @ quoted name)"

definition precondition_failed :: "string \<Rightarrow> string \<Rightarrow> amqp_error" where
  "precondition_failed what name = AmqpError 406 (''PRECONDITION_FAILED - '' @ what @ '' '' @ quoted name)"

definition resource_locked :: "string \<Rightarrow> amqp_error" where
  "resource_locked name =
     AmqpError 405 (''RESOURCE_LOCKED - cannot obtain exclusive access to locked queue '' @ quoted name)"

section \<open>Closing\<close>

definition sorted_tags :: "(nat \<times> inflight) list \<Rightarrow> (nat \<times> inflight) list" where
  "sorted_tags = sort_key fst"

definition requeue_inflight :: "nat \<times> inflight \<Rightarrow> broker \<Rightarrow> broker" where
  "requeue_inflight = (\<lambda>(t, i) b. enqueue (if_q i) ((if_msg i)\<lparr>m_redelivered := True\<rparr>) True b)"

definition ch_shutdown :: "nat \<Rightarrow> amqp_error option \<Rightarrow> broker \<Rightarrow> broker" where
  "ch_shutdown k e b =
     (if ch_closed (b_ch b k) then b
      else
        let b1 = on_ch k (\<lambda>ch. ch\<lparr>ch_closed := True\<rparr>) b;
            b2 = fold removeConsumer (map snd (ch_consumers (b_ch b k))) b1;
            b3 = fold requeue_inflight (rev (sorted_tags (ch_unacked (b_ch b2 k)))) b2;
            b4 = on_ch k (\<lambda>ch. ch\<lparr>ch_unacked := [], ch_closeErr := e, ch_held := []\<rparr>) b3
        in on_cn (ch_conn (b_ch b k)) (\<lambda>c. c\<lparr>cn_channels := filter (\<lambda>i. i \<noteq> k) (cn_channels c)\<rparr>) b4)"

definition ch_fail :: "nat \<Rightarrow> amqp_error \<Rightarrow> broker \<Rightarrow> amqp_error option \<times> broker" where
  "ch_fail k e b = (Some e, ch_shutdown k (Some e) b)"

definition cn_shutdown :: "nat \<Rightarrow> amqp_error option \<Rightarrow> broker \<Rightarrow> broker" where
  "cn_shutdown c e b =
     (if cn_closed (b_cn b c) then b
      else
        let b1 = on_cn c (\<lambda>x. x\<lparr>cn_closed := True\<rparr>) b;
            b2 = fold (\<lambda>k. ch_shutdown k e) (cn_channels (b_cn b c)) b1;
            b3 = fold (\<lambda>(name, qi) b. if q_exclusv (b_q b qi) \<and> q_owner (b_q b qi) = Some c then deleteQueue qi b else b)
                   (b_queues b2) b2
        in on_cn c (\<lambda>x. x\<lparr>cn_closeErr := e\<rparr>) (b3\<lparr>b_conns := filter (\<lambda>i. i \<noteq> c) (b_conns b3)\<rparr>))"

section \<open>Connections\<close>

definition open_conn :: "broker \<Rightarrow> nat \<times> broker" where
  "open_conn b =
     (let c = b_fresh b in (c, on_cn c (\<lambda>_. no_conn) (b\<lparr>b_conns := b_conns b @ [c], b_fresh := c + 1\<rparr>)))"

definition Dial :: "amqp_error option \<Rightarrow> broker \<Rightarrow> (amqp_error + nat) \<times> broker" where
  "Dial ctxErr b =
     (case ctxErr of
        Some e \<Rightarrow> (Inl e, b)
      | None \<Rightarrow>
          let b1 = b\<lparr>b_dials := b_dials b + 1\<rparr> in
          (case b_dialFault b of
             Some e \<Rightarrow> (Inl e, b1)
           | None \<Rightarrow> let (c, b2) = open_conn b1 in (Inr c, b2)))"

definition Channel :: "nat \<Rightarrow> broker \<Rightarrow> (amqp_error + nat) \<times> broker" where
  "Channel c b =
     (if cn_closed (b_cn b c) then (Inl ErrClosed_amqp, b)
      else
        let k = b_fresh b; i = cn_nextID (b_cn b c) + 1
        in (Inr k,
            on_cn c (\<lambda>x. x\<lparr>cn_channels := cn_channels x @ [k], cn_nextID := i\<rparr>)
              (on_ch k (\<lambda>_. no_channel\<lparr>ch_conn := c, ch_id := i\<rparr>) (b\<lparr>b_fresh := k + 1\<rparr>))))"

definition conn_Close :: "nat \<Rightarrow> broker \<Rightarrow> amqp_error option \<times> broker" where
  "conn_Close c b = (if cn_closed (b_cn b c) then (Some ErrClosed_amqp, b) else (None, cn_shutdown c None b))"

definition connection_forced :: amqp_error where
  "connection_forced = AmqpError 320 ''CONNECTION_FORCED - broker forced connection closure''"

definition KillConnections :: "broker \<Rightarrow> broker" where
  "KillConnections b = fold (\<lambda>c. cn_shutdown c (Some connection_forced)) (b_conns b) b"

definition Restart :: "broker \<Rightarrow> broker" where
  "Restart b =
     (let b1 = KillConnections b;
          b2 = fold (\<lambda>(name, qi) b.
                  if \<not> q_durable (b_q b qi) then deleteQueue qi b
                  else on_q qi (\<lambda>q. q\<lparr>q_msgs := filter (\<lambda>m. p_DeliveryMode (m_pub m) = 2) (q_msgs q)\<rparr>) b)
                 (b_queues b1) b1
      in b2\<lparr>b_exchanges := filter (\<lambda>(n, ex). n = '''' \<or> x_durable ex) (b_exchanges b2)\<rparr>)"

section \<open>Channel methods\<close>

definition Confirm_mode :: "nat \<Rightarrow> broker \<Rightarrow> amqp_error option \<times> broker" where
  "Confirm_mode k b =
     (if ch_closed (b_ch b k) then (Some ErrClosed_amqp, b) else (None, on_ch k (\<lambda>ch. ch\<lparr>ch_confirm := True\<rparr>) b))"

definition Qos :: "nat \<Rightarrow> int \<Rightarrow> broker \<Rightarrow> amqp_error option \<times> broker" where
  "Qos k n b =
     (if ch_closed (b_ch b k) then (Some ErrClosed_amqp, b) else (None, on_ch k (\<lambda>ch. ch\<lparr>ch_prefetch := n\<rparr>) b))"

definition ExchangeDeclare :: "nat \<Rightarrow> string \<Rightarrow> string \<Rightarrow> bool \<Rightarrow> bool \<Rightarrow> bool \<Rightarrow> broker \<Rightarrow> amqp_error option \<times> broker" where
  "ExchangeDeclare k name kind durable autoDelete internal b =
     (if ch_closed (b_ch b k) then (Some ErrClosed_amqp, b)
      else case map_of (b_exchanges b) name of
        Some ex \<Rightarrow>
          if x_kind ex \<noteq> kind \<or> x_durable ex \<noteq> durable \<or> x_autoDelete ex \<noteq> autoDelete \<or> x_intern ex \<noteq> internal
          then ch_fail k (precondition_failed ''inequivalent arg for exchange'' name) b
          else (None, b)
      | None \<Rightarrow>
          if kind \<notin> {''direct'', ''topic'', ''fanout''}
          then ch_fail k (AmqpError 503 (''COMMAND_INVALID - unknown exchange type '' @ quoted kind)) b
          else (None, b\<lparr>b_exchanges := b_exchanges b @ [(name, new_exchange kind durable autoDelete internal)]\<rparr>))"

text \<open>Argument equivalence: integer widths form one class, everything else by type and value.\<close>

fun intArg :: "hval \<Rightarrow> int option" where
  "intArg (VInt n) = Some (sint n)"
| "intArg (VInt8 n) = Some (sint n)"
| "intArg (VInt16 n) = Some (sint n)"
| "intArg (VInt32 n) = Some (sint n)"
| "intArg (VInt64 n) = Some (sint n)"
| "intArg (VUint8 n) = Some (uint n)"
| "intArg (VUint16 n) = Some (uint n)"
| "intArg (VUint32 n) = Some (uint n)"
| "intArg _ = None"

definition norm_arg :: "hval \<Rightarrow> int + hval" where
  "norm_arg v = (case intArg v of Some n \<Rightarrow> Inl n | None \<Rightarrow> Inr v)"

definition argsEquivalent :: "table \<Rightarrow> table \<Rightarrow> bool" where
  "argsEquivalent a b \<longleftrightarrow>
     length a = length b \<and> list_all (\<lambda>(k, v). map_option norm_arg (map_of b k) = Some (norm_arg v)) a"

definition pad6 :: "nat \<Rightarrow> string" where
  "pad6 n = (let s = format_int (int n) in replicate (6 - length s) CHR ''0'' @ s)"

definition string_arg :: "table \<Rightarrow> string \<Rightarrow> string option" where
  "string_arg args k = (case map_of args k of Some (VString s) \<Rightarrow> Some s | _ \<Rightarrow> None)"

text \<open>An integer argument and its range: absent, valid, or refused.\<close>

definition ranged_arg :: "table \<Rightarrow> string \<Rightarrow> (int \<Rightarrow> bool) \<Rightarrow> int option option" where
  "ranged_arg args k ok =
     (case map_of args k of
        None \<Rightarrow> Some None
      | Some v \<Rightarrow> (case intArg v of Some n \<Rightarrow> if ok n then Some (Some n) else None | None \<Rightarrow> None))"

definition msDuration :: "int \<Rightarrow> int" where
  "msDuration ms = sint (of_int (ms * 1000000) :: 64 word)"

definition add_queue :: "queue \<Rightarrow> broker \<Rightarrow> broker" where
  "add_queue q b =
     on_q (b_fresh b) (\<lambda>_. q) (b\<lparr>b_queues := b_queues b @ [(q_name q, b_fresh b)], b_fresh := b_fresh b + 1\<rparr>)"

definition QueueDeclare ::
  "nat \<Rightarrow> string \<Rightarrow> bool \<Rightarrow> bool \<Rightarrow> bool \<Rightarrow> table \<Rightarrow> broker \<Rightarrow> (amqp_error + string \<times> nat \<times> nat) \<times> broker" where
  "QueueDeclare k name0 durable autoDelete exclusive args b0 =
     (if ch_closed (b_ch b0 k) then (Inl ErrClosed_amqp, b0)
      else
        let b = (if name0 = '''' then b0\<lparr>b_nameSeq := b_nameSeq b0 + 1\<rparr> else b0);
            name = (if name0 = '''' then ''amq.gen-'' @ pad6 (b_nameSeq b) else name0);
            refuse = (\<lambda>e. (Inl e, ch_shutdown k (Some e) b))
        in case map_of (b_queues b) name of
             Some qi \<Rightarrow>
               let q = b_q b qi in
               if q_exclusv q \<and> q_owner q \<noteq> Some (ch_conn (b_ch b k)) then refuse (resource_locked name)
               else if q_durable q \<noteq> durable \<or> q_autoDelete q \<noteq> autoDelete \<or> q_exclusv q \<noteq> exclusive \<or>
                    \<not> argsEquivalent (q_args q) args
               then refuse (precondition_failed ''inequivalent arg for queue'' name)
               else (Inr (name, length (q_msgs q), length (q_consumers q)), b)
           | None \<Rightarrow>
               (case ranged_arg args ''x-message-ttl'' (\<lambda>n. 0 \<le> n) of
                  None \<Rightarrow> refuse (precondition_failed (''invalid arg '' @ quoted ''x-message-ttl'' @ '' for queue'') name)
                | Some ttl \<Rightarrow>
                    (case ranged_arg args ''x-max-priority'' (\<lambda>n. 0 \<le> n \<and> n \<le> 255) of
                       None \<Rightarrow> refuse (precondition_failed (''invalid arg '' @ quoted ''x-max-priority'' @ '' for queue'') name)
                     | Some prio \<Rightarrow>
                         (Inr (name, 0, 0),
                          add_queue
                            (no_queue\<lparr>q_name := name, q_durable := durable, q_autoDelete := autoDelete, q_exclusv := exclusive,
                               q_owner := (if exclusive then Some (ch_conn (b_ch b k)) else None), q_args := args,
                               q_ttl := (case ttl of None \<Rightarrow> 0 | Some n \<Rightarrow> msDuration n),
                               q_dlx := string_arg args ''x-dead-letter-exchange'',
                               q_dlxKey := string_arg args ''x-dead-letter-routing-key'',
                               q_maxPriority := (case prio of None \<Rightarrow> 0 | Some n \<Rightarrow> nat n)\<rparr>) b))))"

definition QueueBind :: "nat \<Rightarrow> string \<Rightarrow> string \<Rightarrow> string \<Rightarrow> broker \<Rightarrow> amqp_error option \<times> broker" where
  "QueueBind k name key x b =
     (if ch_closed (b_ch b k) then (Some ErrClosed_amqp, b)
      else case map_of (b_exchanges b) x of
        None \<Rightarrow> ch_fail k (not_found ''exchange'' x) b
      | Some ex \<Rightarrow>
          if x = '''' then ch_fail k (not_found ''exchange'' x) b
          else if map_of (b_queues b) name = None then ch_fail k (not_found ''queue'' name) b
          else if (name, key) \<in> set (x_bindings ex) then (None, b)
          else (None, b\<lparr>b_exchanges := AList.update x (ex\<lparr>x_bindings := x_bindings ex @ [(name, key)]\<rparr>) (b_exchanges b)\<rparr>))"

definition new_consumer :: "string \<Rightarrow> nat \<Rightarrow> nat \<Rightarrow> bool \<Rightarrow> bool \<Rightarrow> int \<Rightarrow> consumer" where
  "new_consumer tag k qi autoAck exclusive n =
     no_consumer\<lparr>bc_tag := tag, bc_ch := k, bc_q := qi, bc_autoAck := autoAck, bc_exclusive := exclusive, bc_prefetch := n\<rparr>"

definition add_consumer :: "string \<Rightarrow> nat \<Rightarrow> nat \<Rightarrow> bool \<Rightarrow> bool \<Rightarrow> broker \<Rightarrow> broker" where
  "add_consumer tag k qi autoAck exclusive b =
     (let ci = b_fresh b in
      on_q qi (\<lambda>q. q\<lparr>q_consumers := q_consumers q @ [ci], q_hadConsumer := True\<rparr>)
        (on_ch k (\<lambda>ch. ch\<lparr>ch_consumers := ch_consumers ch @ [(tag, ci)]\<rparr>)
          (on_cs ci (\<lambda>_. new_consumer tag k qi autoAck exclusive (ch_prefetch (b_ch b k)))
            (b\<lparr>b_fresh := ci + 1\<rparr>))))"

definition Consume :: "nat \<Rightarrow> string \<Rightarrow> string \<Rightarrow> bool \<Rightarrow> bool \<Rightarrow> broker \<Rightarrow> (amqp_error + nat) \<times> broker" where
  "Consume k name tag0 autoAck exclusive b =
     (let refuse = (\<lambda>e b. (Inl e, ch_shutdown k (Some e) b)) in
      if ch_closed (b_ch b k) then (Inl ErrClosed_amqp, b)
      else case map_of (b_queues b) name of
        None \<Rightarrow> refuse (not_found ''queue'' name) b
      | Some qi \<Rightarrow>
          if q_exclusv (b_q b qi) \<and> q_owner (b_q b qi) \<noteq> Some (ch_conn (b_ch b k)) then refuse (resource_locked name) b
          else if list_ex (\<lambda>ci. exclusive \<or> bc_exclusive (b_cs b ci)) (q_consumers (b_q b qi))
          then refuse (AmqpError 403 (''ACCESS_REFUSED - queue '' @ quoted name @ '' in exclusive use'')) b
          else
            let n = ch_ctagSeq (b_ch b k) + 1;
                b1 = (if tag0 = '''' then on_ch k (\<lambda>ch. ch\<lparr>ch_ctagSeq := n\<rparr>) b else b);
                tag = (if tag0 = '''' then ''amq.ctag-'' @ format_int (int (ch_id (b_ch b k))) @ ''-'' @ format_int (int n) else tag0)
            in if map_of (ch_consumers (b_ch b1 k)) tag \<noteq> None
               then refuse (AmqpError 530 (''NOT_ALLOWED - attempt to reuse consumer tag '' @ quoted tag)) b1
               else (Inr (b_fresh b1), dispatch qi (add_consumer tag k qi autoAck exclusive b1)))"

definition Cancel :: "nat \<Rightarrow> string \<Rightarrow> broker \<Rightarrow> amqp_error option \<times> broker" where
  "Cancel k tag b =
     (if ch_closed (b_ch b k) then (Some ErrClosed_amqp, b)
      else (None, case map_of (ch_consumers (b_ch b k)) tag of None \<Rightarrow> b | Some ci \<Rightarrow> removeConsumer ci b))"

definition ch_emit :: "nat \<Rightarrow> channel_event list \<Rightarrow> broker \<Rightarrow> broker" where
  "ch_emit k es = on_ch k (\<lambda>ch. ch\<lparr>ch_events := ch_events ch @ es\<rparr>)"

text \<open>
  \<open>PublishWithContext\<close>. The answer to a message is a return, when it is mandatory and no queue
  took it, followed by a confirm on a channel in confirm mode.
\<close>

definition answer :: "bool \<Rightarrow> nat \<Rightarrow> bool \<Rightarrow> bool \<Rightarrow> string \<Rightarrow> string \<Rightarrow> Publishing \<Rightarrow> channel_event list" where
  "answer confirm tag routed mandatory x key msg =
     (if \<not> routed \<and> mandatory then [EmitReturn x key msg] else []) @ (if confirm then [EmitConfirm tag True] else [])"

definition publish_accepted :: "nat \<Rightarrow> nat \<Rightarrow> ConfirmAction \<Rightarrow> Published \<Rightarrow> broker \<Rightarrow> broker" where
  "publish_accepted k tag action p b =
     (let x = pd_Exchange p; key = pd_Key p; msg = pd_Msg p; mandatory = pd_Mandatory p;
          confirm = ch_confirm (b_ch b k);
          (routed, b1) = route x key msg b;
          b2 = (if \<not> routed \<and> mandatory then log_op (exchange_op ''return'' x key False msg) b1 else b1)
      in if action = Hold then on_ch k (\<lambda>ch. ch\<lparr>ch_held := ch_held ch @ [(answer False tag routed mandatory x key msg, tag)]\<rparr>) b2
         else if confirm \<and> b_delay b p > 0
         then (ch_emit k (answer False tag routed mandatory x key msg) b2)\<lparr>b_delayed := b_delayed b2 @ [(k, tag)]\<rparr>
         else ch_emit k (answer confirm tag routed mandatory x key msg) b2)"

definition PublishWithContext ::
  "amqp_error option \<Rightarrow> nat \<Rightarrow> string \<Rightarrow> string \<Rightarrow> bool \<Rightarrow> Publishing \<Rightarrow> broker \<Rightarrow> amqp_error option \<times> broker" where
  "PublishWithContext ctxErr k x key mandatory msg b0 =
     (if ctxErr \<noteq> None then (ctxErr, b0)
      else if ch_closed (b_ch b0 k) then (Some ErrClosed_amqp, b0)
      else
        let confirm = ch_confirm (b_ch b0 k);
            tag = (if confirm then ch_publishSeq (b_ch b0 k) + 1 else 0);
            b = log_op (exchange_op ''publish'' x key mandatory msg)
                  (if confirm then on_ch k (\<lambda>ch. ch\<lparr>ch_publishSeq := tag\<rparr>) b0 else b0);
            p = \<lparr>pd_Exchange = x, pd_Key = key, pd_Mandatory = mandatory, pd_Msg = msg\<rparr>
        in if map_of (b_exchanges b) x = None
           then (None, ch_shutdown k (Some (AmqpError 404 (''NOT_FOUND - no exchange '' @ quoted x @ '' in vhost '' @ quoted ''/''))) b)
           else (None,
             case b_policy b p of
               Nack \<Rightarrow> if confirm then ch_emit k [EmitConfirm tag False] b else b
             | Drop \<Rightarrow> b
             | action \<Rightarrow> publish_accepted k tag action p b))"

text \<open>
  A delayed confirm falls due; held answers are released, with a confirm if the channel is in
  confirm mode by then.
\<close>

definition confirm_due :: "nat \<Rightarrow> nat \<Rightarrow> broker \<Rightarrow> broker" where
  "confirm_due k tag b =
     (if (k, tag) \<notin> set (b_delayed b) then b
      else
        let b1 = b\<lparr>b_delayed := remove1 (k, tag) (b_delayed b)\<rparr>
        in if ch_closed (b_ch b k) then b1 else ch_emit k [EmitConfirm tag True] b1)"

definition release_channel :: "nat \<Rightarrow> broker \<Rightarrow> broker" where
  "release_channel k b =
     on_ch k (\<lambda>ch. ch\<lparr>ch_events := ch_events ch @
         concat (map (\<lambda>(ret, tag). ret @ (if ch_confirm ch then [EmitConfirm tag True] else [])) (ch_held ch)), ch_held := []\<rparr>) b"

definition ReleaseHeld :: "broker \<Rightarrow> nat \<times> broker" where
  "ReleaseHeld b =
     (let ks = concat (map (\<lambda>c. cn_channels (b_cn b c)) (b_conns b))
      in (sum_list (map (\<lambda>k. length (ch_held (b_ch b k))) ks), fold release_channel ks b))"

definition GetNextPublishSeqNo :: "nat \<Rightarrow> broker \<Rightarrow> nat" where
  "GetNextPublishSeqNo k b = ch_publishSeq (b_ch b k) + 1"

definition ch_Close :: "nat \<Rightarrow> broker \<Rightarrow> amqp_error option \<times> broker" where
  "ch_Close k b = (if ch_closed (b_ch b k) then (Some ErrClosed_amqp, b) else (None, ch_shutdown k None b))"

text \<open>\<open>Broker.Publish\<close>: a message from outside any connection.\<close>

definition Publish :: "string \<Rightarrow> string \<Rightarrow> Publishing \<Rightarrow> broker \<Rightarrow> string option \<times> broker" where
  "Publish x key msg b =
     (if map_of (b_exchanges b) x = None then (Some (''fakebroker: no exchange '' @ [CHR 0x22] @ x @ [CHR 0x22]), b)
      else (None, snd (route x key msg (log_op (exchange_op ''publish'' x key False msg) b))))"

section \<open>Settlement\<close>

definition settled_tags :: "nat \<Rightarrow> bool \<Rightarrow> (nat \<times> inflight) list \<Rightarrow> (nat \<times> inflight) list" where
  "settled_tags tag multiple un =
     (if multiple then sorted_tags (filter (\<lambda>(t, i). t \<le> tag) un)
      else (case map_of un tag of None \<Rightarrow> [] | Some i \<Rightarrow> [(tag, i)]))"

definition settle_one :: "nat \<Rightarrow> string \<Rightarrow> bool \<Rightarrow> int \<Rightarrow> nat \<times> inflight \<Rightarrow> broker \<Rightarrow> broker" where
  "settle_one k kind requeue now = (\<lambda>(t, i) b.
     let b1 = on_cs (if_cons i) (\<lambda>c. c\<lparr>bc_unacked := bc_unacked c - 1\<rparr>)
                (on_ch k (\<lambda>ch. ch\<lparr>ch_unacked := filter (\<lambda>(u, j). u \<noteq> t) (ch_unacked ch)\<rparr>) b);
         b2 = log_op (queue_op kind (q_name (b_q b (if_q i))) (if_msg i) requeue) b1
     in if kind = ''ack'' then b2
        else if requeue then enqueue (if_q i) ((if_msg i)\<lparr>m_redelivered := True\<rparr>) True b2
        else deadLetter (if_q i) (if_msg i) ''rejected'' now b2)"

definition settle :: "nat \<Rightarrow> string \<Rightarrow> nat \<Rightarrow> bool \<Rightarrow> bool \<Rightarrow> int \<Rightarrow> broker \<Rightarrow> amqp_error option \<times> broker" where
  "settle k kind tag multiple requeue now b =
     (if ch_closed (b_ch b k) then (Some ErrClosed_amqp, b)
      else
        let ts = settled_tags tag multiple (ch_unacked (b_ch b k))
        in if ts = []
           then (None, ch_shutdown k (Some (AmqpError 406 (''PRECONDITION_FAILED - unknown delivery tag '' @ format_int (int tag)))) b)
           else (None, fold dispatch (remdups (map (if_q \<circ> snd) ts)) (fold (settle_one k kind requeue now) ts b)))"

section \<open>Faults and inspection\<close>

text \<open>A nil policy acknowledges everything, a nil delay is none.\<close>

definition SetDialFault :: "amqp_error option \<Rightarrow> broker \<Rightarrow> broker" where
  "SetDialFault e b = b\<lparr>b_dialFault := e\<rparr>"

definition SetConfirmPolicy :: "(Published \<Rightarrow> ConfirmAction) option \<Rightarrow> broker \<Rightarrow> broker" where
  "SetConfirmPolicy p b = b\<lparr>b_policy := (case p of None \<Rightarrow> \<lambda>_. Ack | Some f \<Rightarrow> f)\<rparr>"

definition SetConfirmDelay :: "(Published \<Rightarrow> int) option \<Rightarrow> broker \<Rightarrow> broker" where
  "SetConfirmDelay d b = b\<lparr>b_delay := (case d of None \<Rightarrow> \<lambda>_. 0 | Some f \<Rightarrow> f)\<rparr>"

definition OpsOf :: "string \<Rightarrow> broker \<Rightarrow> Op list" where
  "OpsOf kind b = filter (\<lambda>x. op_Kind x = kind) (b_ops b)"

definition HasQueue :: "string \<Rightarrow> broker \<Rightarrow> bool" where
  "HasQueue name b \<longleftrightarrow> map_of (b_queues b) name \<noteq> None"

definition HasExchange :: "string \<Rightarrow> broker \<Rightarrow> bool" where
  "HasExchange name b \<longleftrightarrow> map_of (b_exchanges b) name \<noteq> None"

record QueueInfo =
  qi_Name :: string
  qi_Durable :: bool
  qi_AutoDelete :: bool
  qi_Exclusive :: bool
  qi_Args :: table
  qi_Messages :: nat
  qi_Consumers :: nat

definition Queue_of :: "string \<Rightarrow> broker \<Rightarrow> QueueInfo \<times> bool" where
  "Queue_of name b =
     (case map_of (b_queues b) name of
        None \<Rightarrow> (\<lparr>qi_Name = '''', qi_Durable = False, qi_AutoDelete = False, qi_Exclusive = False, qi_Args = [],
                  qi_Messages = 0, qi_Consumers = 0\<rparr>, False)
      | Some i \<Rightarrow>
          let q = b_q b i in
          (\<lparr>qi_Name = q_name q, qi_Durable = q_durable q, qi_AutoDelete = q_autoDelete q, qi_Exclusive = q_exclusv q,
            qi_Args = q_args q, qi_Messages = length (q_msgs q), qi_Consumers = length (q_consumers q)\<rparr>, True))"

definition QueueDepth :: "string \<Rightarrow> broker \<Rightarrow> nat" where
  "QueueDepth name b = qi_Messages (fst (Queue_of name b))"

definition Messages :: "string \<Rightarrow> broker \<Rightarrow> Publishing list" where
  "Messages name b = (case map_of (b_queues b) name of None \<Rightarrow> [] | Some i \<Rightarrow> map m_pub (q_msgs (b_q b i)))"

definition Bindings :: "string \<Rightarrow> string \<Rightarrow> broker \<Rightarrow> string list" where
  "Bindings x queue b =
     (case map_of (b_exchanges b) x of None \<Rightarrow> [] | Some ex \<Rightarrow> map snd (filter (\<lambda>(q, key). q = queue) (x_bindings ex)))"

definition ExchangeKind :: "string \<Rightarrow> broker \<Rightarrow> string" where
  "ExchangeKind name b = (case map_of (b_exchanges b) name of Some ex \<Rightarrow> x_kind ex | None \<Rightarrow> '''')"

section \<open>Runs\<close>

text \<open>
  A client holds only channels and connections the broker gave it. A table of arguments is a
  Go map, so no key occurs twice.
\<close>

definition valid_ch :: "broker \<Rightarrow> nat \<Rightarrow> bool" where
  "valid_ch b k \<longleftrightarrow> ch_id (b_ch b k) \<noteq> 0"

definition valid_cn :: "broker \<Rightarrow> nat \<Rightarrow> bool" where
  "valid_cn b c \<longleftrightarrow> c \<in> set (b_conns b) \<or> cn_closed (b_cn b c)"

inductive bstep :: "broker \<Rightarrow> broker \<Rightarrow> bool" where
  b_dial: "bstep b (snd (Dial ctxErr b))"
| b_peer: "bstep b (snd (open_conn b))"
| b_channel: "valid_cn b c \<Longrightarrow> bstep b (snd (Channel c b))"
| b_conn_close: "valid_cn b c \<Longrightarrow> bstep b (snd (conn_Close c b))"
| b_kill: "bstep b (KillConnections b)"
| b_restart: "bstep b (Restart b)"
| b_fault: "bstep b (SetDialFault fault b)"
| b_confirm_policy: "bstep b (SetConfirmPolicy policy b)"
| b_confirm_delay: "bstep b (SetConfirmDelay delay b)"
| b_confirm: "valid_ch b k \<Longrightarrow> bstep b (snd (Confirm_mode k b))"
| b_qos: "valid_ch b k \<Longrightarrow> bstep b (snd (Qos k n b))"
| b_exchange: "valid_ch b k \<Longrightarrow> bstep b (snd (ExchangeDeclare k name kind durable autoDelete internal b))"
| b_queue: "valid_ch b k \<Longrightarrow> distinct (map fst args) \<Longrightarrow>
    bstep b (snd (QueueDeclare k name durable autoDelete exclusive args b))"
| b_bind: "valid_ch b k \<Longrightarrow> bstep b (snd (QueueBind k name key x b))"
| b_consume: "valid_ch b k \<Longrightarrow> bstep b (snd (Consume k name tag autoAck exclusive b))"
| b_cancel: "valid_ch b k \<Longrightarrow> bstep b (snd (Cancel k tag b))"
| b_publish: "valid_ch b k \<Longrightarrow> bstep b (snd (PublishWithContext ctxErr k x key mandatory msg b))"
| b_due: "bstep b (confirm_due k tag b)"
| b_release: "bstep b (snd (ReleaseHeld b))"
| b_close: "valid_ch b k \<Longrightarrow> bstep b (snd (ch_Close k b))"
| b_outside: "bstep b (snd (Publish x key msg b))"
| b_settle: "valid_ch b k \<Longrightarrow> bstep b (snd (settle k kind n multiple requeue now b))"
| b_delete: "bstep b (DeleteQueue name b)"
| b_expire: "bstep b (expire qi ptr now b)"

inductive breachable :: "broker \<Rightarrow> bool" where
  b_init: "breachable New"
| b_step: "breachable b \<Longrightarrow> bstep b b1 \<Longrightarrow> breachable b1"

end
