(* ===== verification/BrokerInv.thy ===== *)
theory BrokerInv imports BrokerChannel begin

text \<open>
  Invariants of the in-memory broker over every sequence of operations, and what they give:
  the prefetch limit, and that no message waits while a consumer could take it.
\<close>

section \<open>Consistency of the store\<close>

text \<open>
  \<open>cons_ok\<close>: the prefetch limit holds. \<open>chan_ok\<close>: on an open channel delivery tags are
  distinct and issued, and a consumer's counter is the number of its unacknowledged
  deliveries.
\<close>

definition held_by :: "nat \<Rightarrow> (nat \<times> inflight) list \<Rightarrow> nat" where
  "held_by ci un = length (filter (\<lambda>(t, i). if_cons i = ci) un)"

definition cons_ok :: "nat \<Rightarrow> consumer \<Rightarrow> bool" where
  "cons_ok fresh c \<longleftrightarrow>
     (bc_autoAck c \<or> bc_prefetch c \<le> 0 \<or> bc_unacked c \<le> bc_prefetch c) \<and>
     (bc_ch c < fresh \<or> bc_ch c = 0 \<and> bc_unacked c = 0)"

definition chan_ok :: "broker \<Rightarrow> nat \<Rightarrow> bool" where
  "chan_ok b k \<longleftrightarrow>
     (let un = ch_unacked (b_ch b k) in
      distinct (map fst un) \<and>
      (\<forall>(t, i) \<in> set un. t \<le> ch_nextTag (b_ch b k) \<and> if_cons i < b_fresh b \<and> bc_ch (b_cs b (if_cons i)) = k \<and>
         bc_q (b_cs b (if_cons i)) = if_q i \<and> \<not> bc_autoAck (b_cs b (if_cons i))) \<and>
      (\<forall>ci. bc_ch (b_cs b ci) = k \<and> \<not> bc_autoAck (b_cs b ci) \<longrightarrow> bc_unacked (b_cs b ci) = int (held_by ci un)))"

definition binv :: "broker \<Rightarrow> bool" where
  "binv b \<longleftrightarrow>
     (\<forall>qi. \<forall>ci \<in> set (q_consumers (b_q b qi)). bc_q (b_cs b ci) = qi \<and> ci < b_fresh b) \<and>
     (\<forall>ci. cons_ok (b_fresh b) (b_cs b ci)) \<and>
     (\<forall>k. ch_closed (b_ch b k) \<or> chan_ok b k) \<and>
     (\<forall>k. ch_id (b_ch b k) \<noteq> 0 \<longrightarrow> k < b_fresh b)"

lemma binv_New: "binv New"
  by (simp add: binv_def New_def cons_ok_def chan_ok_def no_consumer_def no_channel_def no_queue_def held_by_def Let_def)

text \<open>What the invariant looks at.\<close>

definition cview :: "consumer \<Rightarrow> nat \<times> nat \<times> bool \<times> int \<times> int" where
  "cview c = (bc_ch c, bc_q c, bc_autoAck c, bc_prefetch c, bc_unacked c)"

definition keeps :: "broker \<Rightarrow> broker \<Rightarrow> bool" where
  "keeps b b1 \<longleftrightarrow>
     (\<forall>qi. set (q_consumers (b_q b1 qi)) \<subseteq> set (q_consumers (b_q b qi))) \<and>
     (\<forall>ci. cview (b_cs b1 ci) = cview (b_cs b ci)) \<and>
     (\<forall>k. ch_closed (b_ch b1 k) \<or> \<not> ch_closed (b_ch b k) \<and> ch_unacked (b_ch b1 k) = ch_unacked (b_ch b k) \<and>
        ch_nextTag (b_ch b1 k) = ch_nextTag (b_ch b k)) \<and>
     (\<forall>k. ch_id (b_ch b1 k) = ch_id (b_ch b k)) \<and>
     b_fresh b \<le> b_fresh b1"

lemma keeps_refl [simp]: "keeps b b"
  by (simp add: keeps_def)

lemma keeps_trans: "keeps a b \<Longrightarrow> keeps b c \<Longrightarrow> keeps a c"
  unfolding keeps_def by (metis order.trans subset_trans)

lemma keeps_fold: "(\<And>x s. keeps s (f x s)) \<Longrightarrow> keeps b (fold f xs b)"
  by (rule fold_keeps [where P = "keeps b"]) (auto intro: keeps_trans)

lemma chan_ok_keeps:
  assumes "chan_ok b k" "keeps b b1" "\<not> ch_closed (b_ch b1 k)"
  shows "chan_ok b1 k"
proof -
  have v: "bc_ch (b_cs b1 ci) = bc_ch (b_cs b ci)" "bc_q (b_cs b1 ci) = bc_q (b_cs b ci)"
      "bc_autoAck (b_cs b1 ci) = bc_autoAck (b_cs b ci)" "bc_unacked (b_cs b1 ci) = bc_unacked (b_cs b ci)" for ci
    using assms(2) by (simp_all add: keeps_def cview_def)
  have u: "ch_unacked (b_ch b1 k) = ch_unacked (b_ch b k)" "ch_nextTag (b_ch b1 k) = ch_nextTag (b_ch b k)" "b_fresh b \<le> b_fresh b1"
    using assms(2,3) by (auto simp: keeps_def)
  show ?thesis
    using assms(1) u(3) unfolding chan_ok_def Let_def v u(1,2) by fastforce
qed

lemma binv_keeps: "binv b \<Longrightarrow> keeps b b1 \<Longrightarrow> binv b1"
proof -
  assume inv: "binv b" and kp: "keeps b b1"
  have "cons_ok (b_fresh b1) (b_cs b1 ci)" for ci
  proof -
    have "cons_ok (b_fresh b) (b_cs b ci)" "cview (b_cs b1 ci) = cview (b_cs b ci)" "b_fresh b \<le> b_fresh b1"
      using inv kp by (simp_all add: binv_def keeps_def)
    then show ?thesis by (auto simp: cons_ok_def cview_def)
  qed
  moreover have "bc_q (b_cs b1 ci) = qi \<and> ci < b_fresh b1" if "ci \<in> set (q_consumers (b_q b1 qi))" for ci qi
  proof -
    have "ci \<in> set (q_consumers (b_q b qi))" "cview (b_cs b1 ci) = cview (b_cs b ci)" "b_fresh b \<le> b_fresh b1"
      using that kp by (auto simp: keeps_def)
    moreover from this(1) have "bc_q (b_cs b ci) = qi \<and> ci < b_fresh b" using inv unfolding binv_def by blast
    ultimately show ?thesis by (auto simp: cview_def)
  qed
  moreover have "ch_closed (b_ch b1 k) \<or> chan_ok b1 k" for k
    using inv kp chan_ok_keeps [of b k b1] unfolding binv_def keeps_def by blast
  moreover have "k < b_fresh b1" if "ch_id (b_ch b1 k) \<noteq> 0" for k
    using inv kp that unfolding binv_def keeps_def by (metis order_less_le_trans)
  ultimately show ?thesis by (simp add: binv_def)
qed

section \<open>Dispatch\<close>

lemma pick_Some:
  assumes "pick b q = Some i"
  shows "q_consumers q ! ((q_rr q + i) mod length (q_consumers q)) \<in> set (q_consumers q)"
    and "hasCapacity (b_cs b (q_consumers q ! ((q_rr q + i) mod length (q_consumers q))))"
proof -
  from assms have i: "i < length (q_consumers q)"
      "hasCapacity (b_cs b (q_consumers q ! ((q_rr q + i) mod length (q_consumers q))))"
    by (auto simp: pick_def find_Some_iff)
  then have "(q_rr q + i) mod length (q_consumers q) < length (q_consumers q)" by (intro mod_less_divisor) auto
  with i show "q_consumers q ! ((q_rr q + i) mod length (q_consumers q)) \<in> set (q_consumers q)"
    "hasCapacity (b_cs b (q_consumers q ! ((q_rr q + i) mod length (q_consumers q))))" by simp_all
qed

lemma binv_deliver:
  assumes inv: "binv b" and ci: "bc_q (b_cs b ci) = qi" "ci < b_fresh b" "hasCapacity (b_cs b ci)"
  shows "binv (deliver ci qi m b)"
proof -
  let ?b = "deliver ci qi m b" and ?k = "bc_ch (b_cs b ci)"
  have cs: "cons_ok (b_fresh b) (b_cs b j)" for j using inv by (simp add: binv_def)
  have "cons_ok (b_fresh ?b) (b_cs ?b j)" for j
    using cs [of j] ci(2,3) by (auto simp: deliver_def Let_def cons_ok_def hasCapacity_def)
  moreover have "ch_closed (b_ch ?b k) \<or> chan_ok ?b k" for k
  proof (cases "ch_closed (b_ch b k)")
    case False
    then have ok: "chan_ok b k" using inv by (auto simp: binv_def)
    show ?thesis
    proof (cases "k = ?k \<and> \<not> bc_autoAck (b_cs b ci)")
      case True
      have "Suc (ch_nextTag (b_ch b ?k)) \<notin> fst ` set (ch_unacked (b_ch b ?k))"
        using ok True by (force simp: chan_ok_def Let_def)
      with True ok ci(1,2) show ?thesis
        by (auto simp: chan_ok_def Let_def deliver_def held_by_def le_SucI)
    next
      case F: False
      then show ?thesis using ok ci
        by (auto simp: chan_ok_def Let_def deliver_def held_by_def le_SucI split: if_splits)
    qed
  qed (auto simp: deliver_def Let_def)
  moreover have "\<forall>qj. \<forall>cj \<in> set (q_consumers (b_q b qj)). bc_q (b_cs ?b cj) = qj \<and> cj < b_fresh ?b"
    using inv by (auto simp: binv_def deliver_def Let_def)
  moreover have "\<forall>k. ch_id (b_ch ?b k) \<noteq> 0 \<longrightarrow> k < b_fresh ?b"
    using inv by (auto simp: binv_def deliver_def Let_def)
  ultimately show ?thesis by (simp add: binv_def)
qed

lemma dispatch_keeps:
  assumes "P b"
    and "\<And>b i. P b \<Longrightarrow> pick b (b_q b qi) = Some i \<Longrightarrow> q_msgs (b_q b qi) \<noteq> [] \<Longrightarrow> P (dispatch_one qi i b)"
  shows "P (dispatch qi b)"
  using assms(1)
proof (induction "length (q_msgs (b_q b qi))" arbitrary: b rule: less_induct)
  case less
  show ?case
  proof (cases "q_msgs (b_q b qi) = [] \<or> q_consumers (b_q b qi) = [] \<or> pick b (b_q b qi) = None")
    case False
    then obtain i where i: "pick b (b_q b qi) = Some i" by auto
    have "length (q_msgs (b_q (dispatch_one qi i b) qi)) < length (q_msgs (b_q b qi))"
      using False by (simp add: dispatch_one_q next_index_less)
    from less(1) [OF this assms(2) [OF less(2) i]] False i show ?thesis by (subst dispatch.simps) simp
  qed (use less(2) in \<open>subst dispatch.simps; auto split: option.split\<close>)
qed

lemma keeps_log [simp]: "keeps b (log_op e b)"
  by (simp add: keeps_def)

lemma keeps_on_q: "(\<And>q. set (q_consumers (f q)) \<subseteq> set (q_consumers q)) \<Longrightarrow> keeps b (on_q qi f b)"
  by (simp add: keeps_def)

lemma binv_dispatch_one:
  assumes "binv b" "pick b (b_q b qi) = Some i"
  shows "binv (dispatch_one qi i b)"
proof -
  let ?q = "b_q b qi"
  let ?ci = "q_consumers ?q ! ((q_rr ?q + i) mod length (q_consumers ?q))"
  let ?b = "on_q qi (\<lambda>q. q\<lparr>q_rr := (q_rr q + i + 1) mod length (q_consumers ?q), q_msgs := remove_nth (next_index ?q) (q_msgs q)\<rparr>) b"
  have "bc_q (b_cs b ?ci) = qi \<and> ?ci < b_fresh b" using assms pick_Some(1) [OF assms(2)] unfolding binv_def by blast
  moreover have "binv ?b" by (rule binv_keeps [OF assms(1)]) (simp add: keeps_def)
  ultimately have "binv (deliver ?ci qi m ?b)" for m using pick_Some(2) [OF assms(2)] by (intro binv_deliver) simp_all
  then show ?thesis unfolding dispatch_one_def Let_def by (intro binv_keeps [OF _ keeps_log]) simp
qed

text \<open>Handing out messages changes of a channel only its tags and unacknowledged deliveries, which grow.\<close>

definition ch_grows :: "channel \<Rightarrow> channel \<Rightarrow> bool" where
  "ch_grows ch ch1 \<longleftrightarrow>
     ch1 = ch\<lparr>ch_nextTag := ch_nextTag ch1, ch_unacked := ch_unacked ch1\<rparr> \<and> set (ch_unacked ch) \<subseteq> set (ch_unacked ch1) \<and>
     ch_nextTag ch \<le> ch_nextTag ch1 \<and> (\<forall>p \<in> set (ch_unacked ch1). p \<in> set (ch_unacked ch) \<or> ch_nextTag ch < fst p)"

definition grows :: "broker \<Rightarrow> broker \<Rightarrow> bool" where
  "grows b b1 \<longleftrightarrow> (\<forall>k. ch_grows (b_ch b k) (b_ch b1 k)) \<and> b_exchanges b1 = b_exchanges b \<and> b_queues b1 = b_queues b"

lemma grows_refl [simp]: "grows b b"
  by (simp add: grows_def ch_grows_def)

lemma ch_grows_trans: "ch_grows a b \<Longrightarrow> ch_grows b c \<Longrightarrow> ch_grows a c"
proof -
  assume g: "ch_grows a b" "ch_grows b c"
  then have "c = a\<lparr>ch_nextTag := ch_nextTag c, ch_unacked := ch_unacked c\<rparr>"
    unfolding ch_grows_def by (cases a; cases b; cases c) simp
  moreover have "p \<in> set (ch_unacked a) \<or> ch_nextTag a < fst p" if "p \<in> set (ch_unacked c)" for p
    using g that unfolding ch_grows_def by fastforce
  ultimately show ?thesis using g unfolding ch_grows_def by force
qed

lemma grows_trans: "grows a b \<Longrightarrow> grows b c \<Longrightarrow> grows a c"
  unfolding grows_def by (metis ch_grows_trans)

lemma ch_grows_same: "ch_grows ch ch1 \<Longrightarrow>
  ch_closed ch1 = ch_closed ch \<and> ch_events ch1 = ch_events ch \<and> ch_confirm ch1 = ch_confirm ch \<and>
  ch_publishSeq ch1 = ch_publishSeq ch \<and> ch_id ch1 = ch_id ch \<and> ch_held ch1 = ch_held ch"
  by (cases ch; cases ch1) (simp add: ch_grows_def)

lemma grows_dispatch_one: "grows b (dispatch_one qi i b)"
  by (auto simp: grows_def ch_grows_def dispatch_one_def deliver_def Let_def)

lemma grows_dispatch: "grows b (dispatch qi b)"
  by (rule dispatch_keeps [where P = "grows b"]) (auto intro: grows_trans grows_dispatch_one)

lemma grows_on_q: "grows b (on_q qi f b)"
  by (simp add: grows_def ch_grows_def)

lemma grows_enqueue: "grows b (enqueue qi m front b)"
  unfolding enqueue_def Let_def by (auto intro: grows_trans [OF grows_on_q grows_dispatch])

lemma enqueue_closed: "ch_closed (b_ch (enqueue qi m front b) k) = ch_closed (b_ch b k)"
  using grows_enqueue [of b qi m front] ch_grows_same by (auto simp: grows_def)

lemma binv_dispatch: "binv b \<Longrightarrow> binv (dispatch qi b)"
  by (rule dispatch_keeps) (simp_all add: binv_dispatch_one)

section \<open>No message waits for a free consumer\<close>

definition idle :: "broker \<Rightarrow> nat \<Rightarrow> bool" where
  "idle b qi \<longleftrightarrow> q_msgs (b_q b qi) = [] \<or> (\<forall>ci \<in> set (q_consumers (b_q b qi)). \<not> hasCapacity (b_cs b ci))"

text \<open>The invariants, with the queues of \<open>T\<close> still to be dispatched.\<close>

definition good :: "nat set \<Rightarrow> broker \<Rightarrow> bool" where
  "good T b \<longleftrightarrow> binv b \<and> (\<forall>qi. qi \<notin> T \<longrightarrow> idle b qi)"

definition calm :: "broker \<Rightarrow> broker \<Rightarrow> bool" where
  "calm b b1 \<longleftrightarrow> keeps b b1 \<and> (\<forall>qi. set (q_msgs (b_q b1 qi)) \<subseteq> set (q_msgs (b_q b qi)))"

lemma calm_refl [simp]: "calm b b"
  by (simp add: calm_def)

lemma calm_trans: "calm a b \<Longrightarrow> calm b c \<Longrightarrow> calm a c"
  unfolding calm_def by (meson keeps_trans subset_trans)

lemma calm_fold: "(\<And>x s. calm s (f x s)) \<Longrightarrow> calm b (fold f xs b)"
  by (rule fold_keeps [where P = "calm b"]) (auto intro: calm_trans)

lemma hasCapacity_cview: "cview c = cview d \<Longrightarrow> hasCapacity c = hasCapacity d"
  by (auto simp: cview_def hasCapacity_def)

lemma good_calm: "good T b \<Longrightarrow> calm b b1 \<Longrightarrow> good T b1"
proof -
  assume g: "good T b" and c: "calm b b1"
  have "idle b1 qi" if "qi \<notin> T" for qi
  proof -
    have "idle b qi" using g that by (simp add: good_def)
    moreover have "set (q_msgs (b_q b1 qi)) \<subseteq> set (q_msgs (b_q b qi))" using c by (simp add: calm_def)
    moreover have "set (q_consumers (b_q b1 qi)) \<subseteq> set (q_consumers (b_q b qi))" using c by (simp add: calm_def keeps_def)
    moreover have "hasCapacity (b_cs b1 ci) = hasCapacity (b_cs b ci)" for ci
      using c by (intro hasCapacity_cview) (simp add: calm_def keeps_def)
    ultimately show ?thesis by (auto simp: idle_def)
  qed
  then show ?thesis using g c binv_keeps by (auto simp: good_def calm_def)
qed

lemma calm_log [simp]: "calm b (log_op e b)"
  by (simp add: calm_def keeps_log)

lemma pick_None:
  assumes "pick b q = None" "ci \<in> set (q_consumers q)"
  shows "\<not> hasCapacity (b_cs b ci)"
proof -
  let ?n = "length (q_consumers q)"
  from assms(2) obtain j where j: "j < ?n" "q_consumers q ! j = ci" by (auto simp: in_set_conv_nth)
  then have n: "0 < ?n" by auto
  define i where "i = (j + (?n - q_rr q mod ?n)) mod ?n"
  have "(q_rr q + i) mod ?n = (q_rr q mod ?n + (j + (?n - q_rr q mod ?n))) mod ?n"
    unfolding i_def by (simp add: mod_simps)
  also have "q_rr q mod ?n + (j + (?n - q_rr q mod ?n)) = j + ?n" using mod_less_divisor [OF n, of "q_rr q"] by simp
  finally have "(q_rr q + i) mod ?n = j" using j(1) by simp
  moreover have "i < ?n" unfolding i_def using n by simp
  ultimately show ?thesis using assms(1) j(2) by (auto simp: pick_def find_None_iff)
qed

lemma dispatch_idle: "idle (dispatch qi b) qi"
proof (induction "length (q_msgs (b_q b qi))" arbitrary: b rule: less_induct)
  case less
  show ?case
  proof (cases "q_msgs (b_q b qi) = [] \<or> q_consumers (b_q b qi) = [] \<or> pick b (b_q b qi) = None")
    case True
    then have "dispatch qi b = b" by (subst dispatch.simps) (auto split: option.split)
    with True show ?thesis using pick_None by (auto simp: idle_def)
  next
    case False
    then obtain i where i: "pick b (b_q b qi) = Some i" by auto
    have "length (q_msgs (b_q (dispatch_one qi i b) qi)) < length (q_msgs (b_q b qi))"
      using False by (simp add: dispatch_one_q next_index_less)
    from less [OF this] False i show ?thesis by (subst dispatch.simps) simp
  qed
qed

text \<open>Handing out messages of one queue only takes capacity away from the consumers of others.\<close>

definition busier :: "nat \<Rightarrow> broker \<Rightarrow> broker \<Rightarrow> bool" where
  "busier qi b b1 \<longleftrightarrow> (\<forall>qj. qj \<noteq> qi \<longrightarrow> b_q b1 qj = b_q b qj) \<and> (\<forall>ci. hasCapacity (b_cs b1 ci) \<longrightarrow> hasCapacity (b_cs b ci))"

lemma busier_dispatch: "busier qi b (dispatch qi b)"
proof (rule dispatch_keeps [where P = "busier qi b"])
  fix s i assume "busier qi b s"
  moreover have "hasCapacity (b_cs (dispatch_one qi i s) ci) \<Longrightarrow> hasCapacity (b_cs s ci)" for ci
    by (auto simp: dispatch_one_def deliver_def Let_def hasCapacity_def split: if_splits)
  moreover have "qj \<noteq> qi \<Longrightarrow> b_q (dispatch_one qi i s) qj = b_q s qj" for qj by (simp add: dispatch_one_def Let_def)
  ultimately show "busier qi b (dispatch_one qi i s)" by (auto simp: busier_def)
qed (simp add: busier_def)

lemma good_dispatch:
  assumes "good (insert qi T) b"
  shows "good T (dispatch qi b)"
proof -
  have "idle (dispatch qi b) qj" if "qj \<notin> T" for qj
  proof (cases "qj = qi")
    case False
    then have "idle b qj" using assms that by (simp add: good_def)
    then show ?thesis using busier_dispatch [of qi b] False by (auto simp: idle_def busier_def)
  qed (simp add: dispatch_idle)
  then show ?thesis using assms by (simp add: good_def binv_dispatch)
qed

lemma good_on_q: "good T b \<Longrightarrow> (\<And>q. set (q_consumers (f q)) \<subseteq> set (q_consumers q)) \<Longrightarrow> good (insert qi T) (on_q qi f b)"
  unfolding good_def by (auto simp: idle_def intro: binv_keeps [OF _ keeps_on_q])

lemma calm_on_q:
  "(\<And>q. set (q_consumers (f q)) \<subseteq> set (q_consumers q) \<and> set (q_msgs (f q)) \<subseteq> set (q_msgs q)) \<Longrightarrow> calm b (on_q qi f b)"
  by (simp add: calm_def keeps_def)

lemma good_enqueue: "good T b \<Longrightarrow> good T (enqueue qi m front b)"
  unfolding enqueue_def Let_def by (auto intro!: good_dispatch good_on_q)

lemma good_route: "good T b \<Longrightarrow> good T (snd (route x key msg b))"
  unfolding route_def Let_def snd_conv
proof (rule fold_keeps)
  fix qi s assume "good T s"
  then have "good T (s\<lparr>b_fresh := b_fresh s + 1\<rparr>)" by (rule good_calm) (simp add: calm_def keeps_def)
  then show "good T (enqueue_new x key msg qi s)" unfolding enqueue_new_def by (rule good_enqueue)
qed

lemma good_deadLetter: "good T b \<Longrightarrow> good T (deadLetter qi m reason now b)"
  by (simp add: deadLetter_def Let_def good_route split: option.split)

lemma good_expire: "good T b \<Longrightarrow> good T (expire qi ptr now b)"
  unfolding expire_def Let_def
  by (auto split: option.split intro!: good_deadLetter good_calm [OF _ calm_log] good_calm [OF _ calm_on_q])

lemma calm_drop_consumer: "calm b (drop_consumer ci b)"
  by (auto simp: calm_def keeps_def drop_consumer_def Let_def cview_def)

lemma calm_cancel_consumer: "calm b (cancel_consumer ci b)"
  by (rule calm_trans [OF calm_drop_consumer]) (auto simp: calm_def keeps_def cancel_consumer_def cview_def)

lemma calm_deleteQueue: "calm b (deleteQueue qi b)"
proof -
  let ?b1 = "on_q qi (\<lambda>q. q\<lparr>q_deleted := True, q_msgs := []\<rparr>) b"
  let ?b2 = "?b1\<lparr>b_exchanges := map (\<lambda>(x, ex). (x, ex\<lparr>x_bindings := filter (\<lambda>(n, k). n \<noteq> q_name (b_q b qi)) (x_bindings ex)\<rparr>)) (b_exchanges ?b1)\<rparr>"
  have "calm b ?b2" by (simp add: calm_def keeps_def)
  moreover have "calm ?b2 (fold cancel_consumer (q_consumers (b_q b qi)) ?b2)" by (rule calm_fold) (rule calm_cancel_consumer)
  ultimately have "calm b (fold cancel_consumer (q_consumers (b_q b qi)) ?b2)" by (rule calm_trans)
  then show ?thesis unfolding deleteQueue_def Let_def by (rule calm_trans) (simp add: calm_def keeps_def)
qed

lemma calm_removeConsumer: "calm b (removeConsumer ci b)"
  unfolding removeConsumer_def Let_def
  by (auto intro: calm_trans [OF calm_drop_consumer calm_deleteQueue] calm_drop_consumer)

section \<open>Closing and the channel methods\<close>

lemma ch_shutdown_closed:
  "\<not> ch_closed (b_ch b k) \<Longrightarrow> let ch = b_ch (ch_shutdown k e b) k in ch_closed ch \<and> ch_closeErr ch = e \<and> ch_unacked ch = []"
proof -
  let ?b1 = "on_ch k (\<lambda>ch. ch\<lparr>ch_closed := True\<rparr>) b"
  let ?b2 = "fold removeConsumer (map snd (ch_consumers (b_ch b k))) ?b1"
  have "calm ?b1 ?b2" by (rule calm_fold) (rule calm_removeConsumer)
  then have c2: "ch_closed (b_ch ?b2 k)" by (auto simp: calm_def keeps_def)
  have "ch_closed (b_ch (fold requeue_inflight (rev (sorted_tags (ch_unacked (b_ch ?b2 k)))) ?b2) k)"
    by (rule fold_keeps [where P = "\<lambda>s. ch_closed (b_ch s k)"]) (auto simp: c2 requeue_inflight_def enqueue_closed)
  then show "\<not> ch_closed (b_ch b k) \<Longrightarrow> ?thesis" by (simp add: ch_shutdown_def Let_def)
qed

lemma good_ch_shutdown: "good T b \<Longrightarrow> good T (ch_shutdown k e b)"
proof -
  assume inv: "good T b"
  let ?b1 = "on_ch k (\<lambda>ch. ch\<lparr>ch_closed := True\<rparr>) b"
  let ?b2 = "fold removeConsumer (map snd (ch_consumers (b_ch b k))) ?b1"
  let ?b3 = "fold requeue_inflight (rev (sorted_tags (ch_unacked (b_ch ?b2 k)))) ?b2"
  have b1: "good T ?b1" by (rule good_calm [OF inv]) (auto simp: calm_def keeps_def)
  have k: "calm ?b1 ?b2" by (rule calm_fold) (rule calm_removeConsumer)
  have b2: "good T ?b2" by (rule good_calm [OF b1 k])
  have c2: "ch_closed (b_ch ?b2 k)" using k by (auto simp: calm_def keeps_def)
  have b3: "good T ?b3 \<and> ch_closed (b_ch ?b3 k)"
    by (rule fold_keeps [where P = "\<lambda>s. good T s \<and> ch_closed (b_ch s k)"])
      (auto simp: b2 c2 requeue_inflight_def good_enqueue enqueue_closed)
  then have "good T (on_ch k (\<lambda>ch. ch\<lparr>ch_unacked := [], ch_closeErr := e, ch_held := []\<rparr>) ?b3)"
    by (auto intro!: good_calm [where b = ?b3] simp: calm_def keeps_def)
  then have "good T (on_cn c f (on_ch k (\<lambda>ch. ch\<lparr>ch_unacked := [], ch_closeErr := e, ch_held := []\<rparr>) ?b3))" for c f
    by (rule good_calm) (simp add: calm_def keeps_def)
  then show ?thesis unfolding ch_shutdown_def Let_def using inv by simp
qed

lemma good_cn_shutdown: "good T b \<Longrightarrow> good T (cn_shutdown c e b)"
proof -
  assume inv: "good T b"
  let ?b1 = "on_cn c (\<lambda>x. x\<lparr>cn_closed := True\<rparr>) b"
  let ?b2 = "fold (\<lambda>k. ch_shutdown k e) (cn_channels (b_cn b c)) ?b1"
  let ?f = "\<lambda>(name :: string, qi) b. if q_exclusv (b_q b qi) \<and> q_owner (b_q b qi) = Some c then deleteQueue qi b else b"
  have "good T ?b1" by (rule good_calm [OF inv]) (simp add: calm_def keeps_def)
  then have "good T ?b2" by (rule fold_keeps) (rule good_ch_shutdown)
  moreover have "calm s (?f x s)" for x s by (cases x) (simp add: calm_deleteQueue)
  then have "calm ?b2 (fold ?f (b_queues ?b2) ?b2)" by (rule calm_fold)
  ultimately have "good T (fold ?f (b_queues ?b2) ?b2)" by (rule good_calm)
  then have "good T (on_cn c g ((fold ?f (b_queues ?b2) ?b2)\<lparr>b_conns := cs\<rparr>))" for g cs
    by (rule good_calm) (simp add: calm_def keeps_def)
  then show ?thesis unfolding cn_shutdown_def Let_def using inv by simp
qed

lemma good_kill: "good T b \<Longrightarrow> good T (KillConnections b)"
  unfolding KillConnections_def by (rule fold_keeps) (auto intro: good_cn_shutdown)

lemma good_restart: "good T b \<Longrightarrow> good T (Restart b)"
proof -
  assume inv: "good T b"
  let ?f = "\<lambda>(name :: string, qi) b. if \<not> q_durable (b_q b qi) then deleteQueue qi b
    else on_q qi (\<lambda>q. q\<lparr>q_msgs := filter (\<lambda>m. p_DeliveryMode (m_pub m) = 2) (q_msgs q)\<rparr>) b"
  let ?b1 = "KillConnections b"
  have "calm s (?f x s)" for x s by (cases x) (simp add: calm_deleteQueue calm_on_q)
  then have "calm ?b1 (fold ?f (b_queues ?b1) ?b1)" by (rule calm_fold)
  then have "good T (fold ?f (b_queues ?b1) ?b1)" by (rule good_calm [OF good_kill [OF inv]])
  then show ?thesis unfolding Restart_def Let_def by (rule good_calm) (simp add: calm_def keeps_def)
qed

lemma good_open_conn: "good T b \<Longrightarrow> good T (snd (open_conn b))"
  by (erule good_calm) (simp add: calm_def keeps_def open_conn_def Let_def)

lemma good_Dial: "good T b \<Longrightarrow> good T (snd (Dial ctxErr b))"
proof -
  assume "good T b"
  then have "good T (b\<lparr>b_dials := b_dials b + 1\<rparr>)" by (rule good_calm) (simp add: calm_def keeps_def)
  then show ?thesis
    using \<open>good T b\<close> good_open_conn by (auto simp: Dial_def Let_def split: option.split prod.split)
      (metis snd_conv)
qed

text \<open>A fresh channel, queue or consumer.\<close>

lemma binv_Channel: "binv b \<Longrightarrow> binv (snd (Channel c b))"
proof (cases "cn_closed (b_cn b c)")
  case False
  assume inv: "binv b"
  let ?b = "snd (Channel c b)" and ?k = "b_fresh b"
  have old: "bc_ch (b_cs b ci) < b_fresh b \<or> bc_ch (b_cs b ci) = 0 \<and> bc_unacked (b_cs b ci) = 0" for ci
    using inv by (simp add: binv_def cons_ok_def)
  have "ch_closed (b_ch ?b k) \<or> chan_ok ?b k" for k
  proof (cases "k = ?k")
    case True
    then have "bc_ch (b_cs b ci) = k \<Longrightarrow> bc_unacked (b_cs b ci) = 0" for ci using old [of ci] by auto
    then show ?thesis using True False by (simp add: Channel_def Let_def chan_ok_def no_channel_def held_by_def)
  next
    case F: False
    have "ch_closed (b_ch b k) \<or> chan_ok b k" using inv by (simp add: binv_def)
    then show ?thesis using F False by (force simp: Channel_def Let_def chan_ok_def)
  qed
  moreover have "cons_ok (b_fresh ?b) (b_cs ?b ci)" for ci
  proof -
    have "cons_ok (b_fresh b) (b_cs b ci)" using inv by (simp add: binv_def)
    then show ?thesis using False by (auto simp: Channel_def Let_def cons_ok_def)
  qed
  moreover have "bc_q (b_cs b ci) = qi \<and> ci < b_fresh b" if "ci \<in> set (q_consumers (b_q b qi))" for ci qi
    using inv that unfolding binv_def by blast
  moreover have "k < b_fresh b" if "ch_id (b_ch b k) \<noteq> 0" for k using inv that unfolding binv_def by blast
  ultimately show ?thesis using False by (auto simp: binv_def Channel_def Let_def less_SucI)
qed (simp add: Channel_def)

lemma good_Channel: "good T b \<Longrightarrow> good T (snd (Channel c b))"
  by (auto simp: good_def binv_Channel) (simp add: idle_def Channel_def Let_def)

lemma calm_add_queue: "q_consumers q = [] \<Longrightarrow> q_msgs q = [] \<Longrightarrow> calm b (add_queue q b)"
  by (simp add: calm_def keeps_def add_queue_def)

lemma good_exchanges: "good T b \<Longrightarrow> good T (b\<lparr>b_exchanges := xs\<rparr>)"
  by (erule good_calm) (simp add: calm_def keeps_def)

lemma good_ExchangeDeclare: "good T b \<Longrightarrow> good T (snd (ExchangeDeclare k name kind durable autoDelete internal b))"
  by (auto simp: ExchangeDeclare_def ch_fail_def good_ch_shutdown good_exchanges split: option.split)

lemma good_QueueBind: "good T b \<Longrightarrow> good T (snd (QueueBind k name key x b))"
  by (auto simp: QueueBind_def ch_fail_def good_ch_shutdown good_exchanges split: option.split)

lemma good_QueueDeclare: "good T b \<Longrightarrow> good T (snd (QueueDeclare k name durable autoDelete exclusive args b))"
proof -
  assume inv: "good T b"
  then have "good T (b\<lparr>b_nameSeq := b_nameSeq b + 1\<rparr>)" by (rule good_calm) (simp add: calm_def keeps_def)
  moreover have "good T (add_queue q s)" if "good T s" "q_consumers q = []" "q_msgs q = []" for q s
    using that by (auto intro: good_calm calm_add_queue)
  ultimately show ?thesis
    using inv by (cases "name = []") (simp_all add: QueueDeclare_def Let_def no_queue_def good_ch_shutdown split: option.split)
qed

lemma binv_add_consumer: "binv b \<Longrightarrow> k < b_fresh b \<Longrightarrow> binv (add_consumer tag k qi autoAck exclusive b)"
proof -
  assume inv: "binv b" and k: "k < b_fresh b"
  let ?b = "add_consumer tag k qi autoAck exclusive b" and ?c = "b_fresh b"
  have "ch_closed (b_ch ?b j) \<or> chan_ok ?b j" for j
  proof -
    have "ch_closed (b_ch b j) \<or> chan_ok b j" using inv by (simp add: binv_def)
    moreover have "ch_closed (b_ch ?b j) = ch_closed (b_ch b j)" by (simp add: add_consumer_def Let_def)
    moreover have "chan_ok ?b j" if ok: "chan_ok b j"
    proof -
      have "i \<noteq> ?c" if "(t, x) \<in> set (ch_unacked (b_ch b j))" "i = if_cons x" for t x i
        using ok that by (auto simp: chan_ok_def Let_def)
      then have "held_by ?c (ch_unacked (b_ch b j)) = 0" by (auto simp: held_by_def filter_empty_conv)
      then show ?thesis using ok
        by (force simp: chan_ok_def Let_def add_consumer_def new_consumer_def no_consumer_def)
    qed
    ultimately show ?thesis by auto
  qed
  moreover have "cons_ok (b_fresh ?b) (b_cs ?b ci)" for ci
  proof -
    have "cons_ok (b_fresh b) (b_cs b ci)" using inv by (simp add: binv_def)
    then show ?thesis using k by (auto simp: add_consumer_def Let_def cons_ok_def new_consumer_def no_consumer_def)
  qed
  moreover have "bc_q (b_cs b ci) = qj \<and> ci < b_fresh b" if "ci \<in> set (q_consumers (b_q b qj))" for ci qj
    using inv that unfolding binv_def by blast
  moreover have "j < b_fresh b" if "ch_id (b_ch b j) \<noteq> 0" for j using inv that unfolding binv_def by blast
  ultimately show ?thesis
    by (auto simp: binv_def add_consumer_def Let_def less_SucI new_consumer_def no_consumer_def)
qed

lemma good_add_consumer:
  assumes g: "good T b" and k: "k < b_fresh b"
  shows "good (insert qi T) (add_consumer tag k qi autoAck exclusive b)"
proof -
  have "idle (add_consumer tag k qi autoAck exclusive b) qj" if "qj \<noteq> qi" "qj \<notin> T" for qj
  proof -
    have "ci \<noteq> b_fresh b" if "ci \<in> set (q_consumers (b_q b qj))" for ci
    proof -
      have "ci < b_fresh b" using g that unfolding good_def binv_def by blast
      then show ?thesis by simp
    qed
    then show ?thesis using g that by (auto simp: good_def idle_def add_consumer_def Let_def)
  qed
  then show ?thesis using g k by (auto simp: good_def binv_add_consumer)
qed

lemma good_Consume:
  assumes inv: "good T b" and k: "valid_ch b k"
  shows "good T (snd (Consume k name tag autoAck exclusive b))"
proof -
  let ?b = "on_ch k (\<lambda>ch. ch\<lparr>ch_ctagSeq := ch_ctagSeq (b_ch b k) + 1\<rparr>) b"
  have "good T ?b" by (rule good_calm [OF inv]) (simp add: calm_def keeps_def)
  moreover have "k < b_fresh b" using inv k by (auto simp: good_def binv_def valid_ch_def)
  moreover have "good T (dispatch qi (add_consumer tg k qi autoAck exclusive s))" if "good T s" "k < b_fresh s" for s qi tg
    using that by (simp add: good_dispatch good_add_consumer)
  ultimately show ?thesis
    using inv by (cases "tag = []") (simp_all add: Consume_def Let_def good_ch_shutdown split: option.split)
qed

lemma good_Cancel: "good T b \<Longrightarrow> good T (snd (Cancel k tag b))"
  using calm_removeConsumer by (auto simp: Cancel_def intro: good_calm split: option.split)

lemma calm_emit: "calm b (ch_emit k es b)"
  by (simp add: calm_def keeps_def ch_emit_def)

lemma good_publish_accepted: "good T b \<Longrightarrow> good T (publish_accepted k tag action p b)"
proof -
  assume inv: "good T b"
  obtain r b1 where r: "route (pd_Exchange p) (pd_Key p) (pd_Msg p) b = (r, b1)" by fastforce
  let ?b2 = "if \<not> r \<and> pd_Mandatory p then log_op (exchange_op ''return'' (pd_Exchange p) (pd_Key p) False (pd_Msg p)) b1 else b1"
  have "good T b1" using good_route [OF inv, of "pd_Exchange p" "pd_Key p" "pd_Msg p"] r by simp
  then have b2: "good T ?b2" by (auto intro: good_calm)
  have "good T (on_ch k (\<lambda>ch. ch\<lparr>ch_held := f ch\<rparr>) ?b2)" for f by (rule good_calm [OF b2]) (simp add: calm_def keeps_def)
  moreover have "good T (ch_emit k es ?b2)" for es by (rule good_calm [OF b2 calm_emit])
  moreover have "good T ((ch_emit k es ?b2)\<lparr>b_delayed := d\<rparr>)" for es d by (rule good_calm [OF b2]) (simp add: calm_def keeps_def ch_emit_def)
  ultimately show ?thesis unfolding publish_accepted_def Let_def r by simp
qed

lemma good_Publish_ctx: "good T b \<Longrightarrow> good T (snd (PublishWithContext ctxErr k x key mandatory msg b))"
proof -
  assume inv: "good T b"
  have "calm b (log_op e b)" "calm b (log_op e (on_ch k (\<lambda>ch. ch\<lparr>ch_publishSeq := n\<rparr>) b))" for e n by (simp_all add: calm_def keeps_def)
  then have s: "good T (log_op e b)" "good T (log_op e (on_ch k (\<lambda>ch. ch\<lparr>ch_publishSeq := n\<rparr>) b))" for e n
    using inv by (auto intro: good_calm)
  have "good T (ch_emit k es s)" if "good T s" for es s using that calm_emit by (rule good_calm)
  then show ?thesis
    using inv s
    by (cases "ch_confirm (b_ch b k)")
      (simp_all add: PublishWithContext_def Let_def good_ch_shutdown good_publish_accepted split: ConfirmAction.split)
qed

lemma good_confirm_due: "good T b \<Longrightarrow> good T (confirm_due k tag b)"
  by (erule good_calm) (auto simp: calm_def keeps_def confirm_due_def Let_def ch_emit_def)

lemma good_ReleaseHeld: "good T b \<Longrightarrow> good T (snd (ReleaseHeld b))"
proof -
  have "calm s (release_channel k s)" for k s by (simp add: calm_def keeps_def release_channel_def)
  then show "good T b \<Longrightarrow> ?thesis" by (auto simp: ReleaseHeld_def Let_def intro: good_calm calm_fold)
qed

lemma good_Publish: "good T b \<Longrightarrow> good T (snd (Publish x key msg b))"
  by (auto simp: Publish_def intro!: good_route good_calm [OF _ calm_log])

section \<open>Settlement\<close>

text \<open>Taking one delivery off a channel and off its consumer's counter.\<close>

definition unack :: "nat \<Rightarrow> nat \<Rightarrow> nat \<Rightarrow> broker \<Rightarrow> broker" where
  "unack k t ci b =
     on_cs ci (\<lambda>c. c\<lparr>bc_unacked := bc_unacked c - 1\<rparr>)
       (on_ch k (\<lambda>ch. ch\<lparr>ch_unacked := filter (\<lambda>(u, j). u \<noteq> t) (ch_unacked ch)\<rparr>) b)"

lemma unack_simps [simp]:
  "bc_ch (b_cs (unack k t ci b) j) = bc_ch (b_cs b j)" "bc_q (b_cs (unack k t ci b) j) = bc_q (b_cs b j)"
  "bc_autoAck (b_cs (unack k t ci b) j) = bc_autoAck (b_cs b j)" "bc_prefetch (b_cs (unack k t ci b) j) = bc_prefetch (b_cs b j)"
  "bc_unacked (b_cs (unack k t ci b) j) = bc_unacked (b_cs b j) - (if j = ci then 1 else 0)"
  "b_fresh (unack k t ci b) = b_fresh b" "b_q (unack k t ci b) = b_q b"
  "ch_unacked (b_ch (unack k t ci b) k) = filter (\<lambda>(u, j). u \<noteq> t) (ch_unacked (b_ch b k))"
  "l \<noteq> k \<Longrightarrow> ch_unacked (b_ch (unack k t ci b) l) = ch_unacked (b_ch b l)"
  "ch_nextTag (b_ch (unack k t ci b) l) = ch_nextTag (b_ch b l)" "ch_closed (b_ch (unack k t ci b) l) = ch_closed (b_ch b l)"
  "ch_id (b_ch (unack k t ci b) l) = ch_id (b_ch b l)"
  by (simp_all add: unack_def)

lemma held_by_remove:
  "distinct (map fst un) \<Longrightarrow> (t, i) \<in> set un \<Longrightarrow>
   held_by ci un = held_by ci (filter (\<lambda>(u, j). u \<noteq> t) un) + (if if_cons i = ci then 1 else 0)"
proof (induction un)
  case (Cons a un)
  obtain u j where a: "a = (u, j)" by fastforce
  show ?case
  proof (cases "u = t")
    case True
    with Cons.prems a have "j = i" "filter (\<lambda>(u, j). u \<noteq> t) un = un" by (force simp: filter_id_conv)+
    then show ?thesis by (simp add: a True held_by_def)
  next
    case False
    with Cons a show ?thesis by (auto simp: held_by_def)
  qed
qed simp

lemma chan_ok_unack:
  assumes ok: "chan_ok b k" and ti: "(t, i) \<in> set (ch_unacked (b_ch b k))"
  shows "chan_ok (unack k t (if_cons i) b) k" "bc_ch (b_cs b (if_cons i)) = k" "0 < bc_unacked (b_cs b (if_cons i))"
proof -
  let ?un = "ch_unacked (b_ch b k)" and ?b = "unack k t (if_cons i) b"
  let ?un1 = "filter (\<lambda>(u, j). u \<noteq> t) ?un"
  have d: "distinct (map fst ?un)" using ok by (simp add: chan_ok_def Let_def)
  show k: "bc_ch (b_cs b (if_cons i)) = k" using ok ti by (auto simp: chan_ok_def Let_def)
  have a: "\<not> bc_autoAck (b_cs b (if_cons i))" using ok ti by (auto simp: chan_ok_def Let_def)
  have n: "bc_unacked (b_cs b ci) = int (held_by ci ?un)" if "bc_ch (b_cs b ci) = k" "\<not> bc_autoAck (b_cs b ci)" for ci
    using ok that by (simp add: chan_ok_def Let_def)
  have "filter (\<lambda>(t, j). if_cons j = if_cons i) ?un \<noteq> []" using ti by (auto simp: filter_empty_conv)
  then show "0 < bc_unacked (b_cs b (if_cons i))" using n [OF k a] by (simp add: held_by_def)
  have "int (held_by ci ?un1) = int (held_by ci ?un) - (if if_cons i = ci then 1 else 0)" for ci
    using held_by_remove [OF d ti, of ci] by simp
  then have "\<forall>ci. bc_ch (b_cs b ci) = k \<and> \<not> bc_autoAck (b_cs b ci) \<longrightarrow>
      bc_unacked (b_cs b ci) - (if ci = if_cons i then 1 else 0) = int (held_by ci ?un1)"
    using n by auto
  moreover have "distinct (map fst ?un1)" using d by (rule distinct_map_filter)
  ultimately show "chan_ok ?b k"
    using ok unfolding chan_ok_def Let_def unack_simps by auto
qed

lemma chan_ok_unack_other:
  assumes "chan_ok b j" "j \<noteq> k" "bc_ch (b_cs b ci) = k"
  shows "chan_ok (unack k t ci b) j"
  using assms unfolding chan_ok_def Let_def by auto

lemma binv_unack:
  assumes inv: "binv b" and op: "\<not> ch_closed (b_ch b k)" and ti: "(t, i) \<in> set (ch_unacked (b_ch b k))"
  shows "binv (unack k t (if_cons i) b)"
proof -
  let ?b = "unack k t (if_cons i) b"
  have "chan_ok b k" using inv op by (auto simp: binv_def)
  note u = chan_ok_unack [OF this ti]
  have "ch_closed (b_ch ?b j) \<or> chan_ok ?b j" for j
  proof (cases "j = k")
    case False
    have "ch_closed (b_ch b j) \<or> chan_ok b j" using inv by (simp add: binv_def)
    then show ?thesis using chan_ok_unack_other [OF _ False u(2)] False by auto
  qed (use u(1) in simp)
  moreover have "cons_ok (b_fresh ?b) (b_cs ?b ci)" for ci
  proof -
    have "cons_ok (b_fresh b) (b_cs b ci)" using inv by (simp add: binv_def)
    then show ?thesis using u(3) by (auto simp: cons_ok_def)
  qed
  moreover have "bc_q (b_cs b ci) = qi \<and> ci < b_fresh b" if "ci \<in> set (q_consumers (b_q b qi))" for ci qi
    using inv that unfolding binv_def by blast
  moreover have "j < b_fresh b" if "ch_id (b_ch b j) \<noteq> 0" for j using inv that unfolding binv_def by blast
  ultimately show ?thesis by (auto simp: binv_def)
qed

lemma grows_route: "grows b (snd (route x key msg b))"
proof -
  have "grows b (fold (enqueue_new x key msg) ts b)" for ts
  proof (rule fold_keeps [where P = "grows b"])
    fix qi s assume "grows b s"
    moreover have "grows s (s\<lparr>b_fresh := b_fresh s + 1\<rparr>)" by (simp add: grows_def ch_grows_def)
    ultimately show "grows b (enqueue_new x key msg qi s)"
      unfolding enqueue_new_def by (metis grows_enqueue grows_trans)
  qed simp
  then show ?thesis by (simp add: route_def Let_def)
qed

lemma grows_deadLetter: "grows b (deadLetter qi m reason now b)"
  by (simp add: deadLetter_def Let_def grows_route split: option.split)

lemma good_unack:
  assumes "good T b" "\<not> ch_closed (b_ch b k)" "(t, i) \<in> set (ch_unacked (b_ch b k))"
  shows "good (insert (if_q i) T) (unack k t (if_cons i) b)"
proof -
  have inv: "binv b" using assms(1) by (simp add: good_def)
  then have "chan_ok b k" using assms(2) by (auto simp: binv_def)
  then have q: "bc_q (b_cs b (if_cons i)) = if_q i" using assms(3) by (auto simp: chan_ok_def Let_def)
  have "idle (unack k t (if_cons i) b) qj" if "qj \<noteq> if_q i" "qj \<notin> T" for qj
  proof -
    have "ci \<noteq> if_cons i" if "ci \<in> set (q_consumers (b_q b qj))" for ci
    proof -
      have "bc_q (b_cs b ci) = qj" using inv that unfolding binv_def by blast
      then show ?thesis using q \<open>qj \<noteq> if_q i\<close> by auto
    qed
    then show ?thesis using assms(1) that by (auto simp: good_def idle_def hasCapacity_def)
  qed
  then show ?thesis using binv_unack [OF inv assms(2,3)] by (auto simp: good_def)
qed

lemma settle_one_alt:
  "settle_one k kind requeue now (t, i) b =
     (let b2 = log_op (queue_op kind (q_name (b_q b (if_q i))) (if_msg i) requeue) (unack k t (if_cons i) b)
      in if kind = ''ack'' then b2
         else if requeue then enqueue (if_q i) ((if_msg i)\<lparr>m_redelivered := True\<rparr>) True b2
         else deadLetter (if_q i) (if_msg i) ''rejected'' now b2)"
  by (simp add: settle_one_def unack_def Let_def)

text \<open>Settling one delivery leaves the others of the channel where they are.\<close>

lemma settle_one_rest:
  assumes "(u, j) \<in> set (ch_unacked (b_ch b k))" "u \<noteq> t" "\<not> ch_closed (b_ch b k)"
  shows "(u, j) \<in> set (ch_unacked (b_ch (settle_one k kind requeue now (t, i) b) k)) \<and>
    \<not> ch_closed (b_ch (settle_one k kind requeue now (t, i) b) k)"
proof -
  let ?b2 = "log_op (queue_op kind (q_name (b_q b (if_q i))) (if_msg i) requeue) (unack k t (if_cons i) b)"
  have "(u, j) \<in> set (ch_unacked (b_ch ?b2 k))" "\<not> ch_closed (b_ch ?b2 k)" using assms by (auto simp: unack_def)
  moreover have "grows ?b2 (settle_one k kind requeue now (t, i) b)"
    by (simp add: settle_one_alt Let_def grows_enqueue grows_deadLetter)
  then have g: "ch_grows (b_ch ?b2 k) (b_ch (settle_one k kind requeue now (t, i) b) k)" by (simp add: grows_def)
  ultimately show ?thesis using ch_grows_same [OF g] unfolding ch_grows_def by blast
qed

lemma good_settle_one:
  assumes "good T b" "\<not> ch_closed (b_ch b k)" "(t, i) \<in> set (ch_unacked (b_ch b k))"
  shows "good (insert (if_q i) T) (settle_one k kind requeue now (t, i) b)"
proof -
  have "good (insert (if_q i) T) (log_op e (unack k t (if_cons i) b))" for e by (rule good_calm [OF good_unack [OF assms] calm_log])
  then show ?thesis by (simp add: settle_one_alt Let_def good_enqueue good_deadLetter)
qed

lemma good_settle_all:
  assumes "good T b" "\<not> ch_closed (b_ch b k)" "distinct (map fst ts)" "set ts \<subseteq> set (ch_unacked (b_ch b k))"
  shows "good (set (map (if_q \<circ> snd) ts) \<union> T) (fold (settle_one k kind requeue now) ts b)"
  using assms
proof (induction ts arbitrary: b T)
  case (Cons p ts)
  obtain t i where p: "p = (t, i)" by fastforce
  let ?b = "settle_one k kind requeue now (t, i) b"
  have g: "good (insert (if_q i) T) ?b" using Cons.prems p by (intro good_settle_one) auto
  have rest: "x \<in> set (ch_unacked (b_ch ?b k)) \<and> \<not> ch_closed (b_ch ?b k)" if "x \<in> set ts" for x
  proof -
    obtain u j where x: "x = (u, j)" by fastforce
    have "u \<noteq> t" "(u, j) \<in> set (ch_unacked (b_ch b k))" using Cons.prems p that x by force+
    then show ?thesis using settle_one_rest [of u j b k t] Cons.prems(2) x by blast
  qed
  then have "set ts \<subseteq> set (ch_unacked (b_ch ?b k))" by blast
  moreover have "distinct (map fst ts)" using Cons.prems(3) by simp
  moreover have "\<not> ch_closed (b_ch ?b k)" if "ts \<noteq> []" using rest hd_in_set [OF that] by blast
  ultimately have "good (set (map (if_q \<circ> snd) ts) \<union> insert (if_q i) T) (fold (settle_one k kind requeue now) ts ?b)"
    using Cons.IH [OF g] g by (cases "ts = []") simp_all
  then show ?case using p by simp
qed simp

lemma good_fold_dispatch: "good (set qs \<union> T) b \<Longrightarrow> good T (fold dispatch qs b)"
proof (induction qs arbitrary: b)
  case (Cons q qs)
  then have "good (set qs \<union> T) (dispatch q b)" by (intro good_dispatch) simp
  then show ?case using Cons.IH by simp
qed simp

lemma sorted_tags_facts [simp]:
  "set (sorted_tags un) = set un" "distinct (map fst un) \<Longrightarrow> distinct (map fst (sorted_tags un))"
  by (simp_all add: sorted_tags_def distinct_map inj_on_def)

lemma good_settle: "good T b \<Longrightarrow> good T (snd (settle k kind n multiple requeue now b))"
proof (cases "ch_closed (b_ch b k) \<or> settled_tags n multiple (ch_unacked (b_ch b k)) = []")
  case True
  assume "good T b"
  with True show ?thesis by (auto simp: settle_def Let_def good_ch_shutdown)
next
  case False
  assume g: "good T b"
  let ?un = "ch_unacked (b_ch b k)" let ?ts = "settled_tags n multiple ?un"
  have "distinct (map fst ?un)" using g False by (auto simp: good_def binv_def chan_ok_def Let_def)
  then have "distinct (map fst ?ts)" "set ?ts \<subseteq> set ?un"
    by (auto simp: settled_tags_def distinct_map_filter split: option.splits dest: map_of_SomeD)
  then have "good (set (map (if_q \<circ> snd) ?ts) \<union> T) (fold (settle_one k kind requeue now) ?ts b)"
    using g False by (intro good_settle_all) auto
  then have "good T (fold dispatch (remdups (map (if_q \<circ> snd) ?ts)) (fold (settle_one k kind requeue now) ?ts b))"
    by (intro good_fold_dispatch) simp
  then show ?thesis using False by (simp add: settle_def Let_def)
qed

lemma good_ch_ops:
  "good T b \<Longrightarrow> good T (snd (Confirm_mode k b))" "good T b \<Longrightarrow> good T (snd (Qos k n b))"
  "good T b \<Longrightarrow> good T (snd (ch_Close k b))" "good T b \<Longrightarrow> good T (snd (conn_Close c b))"
  "good T b \<Longrightarrow> good T (DeleteQueue name b)"
proof -
  have "calm b (on_ch k (\<lambda>ch. ch\<lparr>ch_confirm := True\<rparr>) b)" "calm b (on_ch k (\<lambda>ch. ch\<lparr>ch_prefetch := n\<rparr>) b)"
    by (simp_all add: calm_def keeps_def)
  then show "good T b \<Longrightarrow> good T (snd (Confirm_mode k b))" "good T b \<Longrightarrow> good T (snd (Qos k n b))"
    by (auto simp: Confirm_mode_def Qos_def intro: good_calm)
  show "good T b \<Longrightarrow> good T (snd (ch_Close k b))" "good T b \<Longrightarrow> good T (snd (conn_Close c b))"
    "good T b \<Longrightarrow> good T (DeleteQueue name b)"
    using calm_deleteQueue
    by (auto simp: ch_Close_def conn_Close_def DeleteQueue_def good_ch_shutdown good_cn_shutdown
        intro: good_calm split: option.split)
qed

lemma good_step: "bstep b b1 \<Longrightarrow> good T b \<Longrightarrow> good T b1"
proof (induction rule: bstep.induct)
  case (b_fault b fault)
  then show ?case by (rule good_calm) (simp add: SetDialFault_def calm_def keeps_def)
next
  case (b_confirm_policy b policy)
  then show ?case by (rule good_calm) (simp add: SetConfirmPolicy_def calm_def keeps_def)
next
  case (b_confirm_delay b delay)
  then show ?case by (rule good_calm) (simp add: SetConfirmDelay_def calm_def keeps_def)
qed (simp_all add: good_Dial good_open_conn good_Channel good_kill good_restart good_ch_ops good_ExchangeDeclare
    good_QueueDeclare good_QueueBind good_Consume good_Cancel good_Publish_ctx good_confirm_due good_ReleaseHeld
    good_Publish good_settle good_expire)

lemma good_reachable: "breachable b \<Longrightarrow> good {} b"
proof (induction rule: breachable.induct)
  case b_init
  have "idle New qi" for qi by (simp add: idle_def New_def no_queue_def)
  then show ?case by (simp add: good_def binv_New)
qed (rule good_step)

section \<open>Delivery tags\<close>

text \<open>A settled delivery is gone for good: the tags handed out meanwhile are new.\<close>

lemma settle_once:
  assumes inv: "good {} b" and op: "\<not> ch_closed (b_ch b k)" and tag: "map_of (ch_unacked (b_ch b k)) t = Some i"
  shows "let b1 = snd (settle k kind t False requeue now b) in
    \<not> ch_closed (b_ch b1 k) \<and> map_of (ch_unacked (b_ch b1 k)) t = None"
proof -
  let ?b2 = "log_op (queue_op kind (q_name (b_q b (if_q i))) (if_msg i) requeue) (unack k t (if_cons i) b)"
  let ?b3 = "settle_one k kind requeue now (t, i) b"
  have ti: "(t, i) \<in> set (ch_unacked (b_ch b k))" using tag by (rule map_of_SomeD)
  have "chan_ok b k" using inv op by (auto simp: good_def binv_def)
  then have le: "t \<le> ch_nextTag (b_ch ?b2 k)" using ti by (auto simp: chan_ok_def Let_def)
  have "grows ?b2 ?b3" by (simp add: settle_one_alt Let_def grows_enqueue grows_deadLetter)
  then have "grows ?b2 (dispatch (if_q i) ?b3)" by (rule grows_trans [OF _ grows_dispatch])
  then have g: "ch_grows (b_ch ?b2 k) (b_ch (dispatch (if_q i) ?b3) k)" by (simp add: grows_def)
  have "t \<notin> fst ` set (ch_unacked (b_ch ?b2 k))" by auto
  moreover have "fst p = t \<Longrightarrow> p \<in> set (ch_unacked (b_ch (dispatch (if_q i) ?b3) k)) \<Longrightarrow> p \<in> set (ch_unacked (b_ch ?b2 k))" for p
    using g le unfolding ch_grows_def by force
  ultimately have "t \<notin> fst ` set (ch_unacked (b_ch (dispatch (if_q i) ?b3) k))" by force
  then have "map_of (ch_unacked (b_ch (dispatch (if_q i) ?b3) k)) t = None" by (simp add: map_of_eq_None_iff)
  then show ?thesis using op tag ch_grows_same [OF g] by (simp add: settle_def settled_tags_def Let_def)
qed

section \<open>Routing and priorities\<close>

lemma bound_queues_spec:
  "distinct seen \<Longrightarrow> distinct (bound_queues qs kind key seen bs) \<and>
   (qi \<in> set (bound_queues qs kind key seen bs) \<longleftrightarrow> qi \<in> set seen \<or>
      (\<exists>name pattern. (name, pattern) \<in> set bs \<and> map_of qs name = Some qi \<and> binding_hit kind pattern key))"
proof (induction qs kind key seen bs rule: bound_queues.induct)
  case (2 qs kind key seen name pattern bs)
  show ?case
  proof (cases "map_of qs name")
    case None
    with 2 show ?thesis by auto
  next
    case (Some q)
    consider "q \<in> set seen" | "q \<notin> set seen" "binding_hit kind pattern key" | "q \<notin> set seen" "\<not> binding_hit kind pattern key" by blast
    then show ?thesis
    proof cases
      case 1
      with 2(2) [OF Some 1 "2.prems"] Some show ?thesis by auto
    next
      case c: 2
      have "distinct (seen @ [q])" using "2.prems" c by simp
      from 2(3) [OF Some c this] Some c show ?thesis by auto
    next
      case 3
      with 2(4) [OF Some 3 "2.prems"] Some show ?thesis by auto
    qed
  qed
qed simp

lemma best_from_spec:
  assumes "best < i" "\<And>j. j < i \<Longrightarrow> prio j \<le> prio best \<and> (j < best \<longrightarrow> prio j < prio best)" "bestP = prio best"
    "\<And>j. j < length ms \<Longrightarrow> prio (i + j) = int (min (p_Priority (m_pub (ms ! j))) maxP)"
  shows "let r = best_from maxP ms i best bestP in
    r < i + length ms \<and> (\<forall>j < i + length ms. prio j \<le> prio r \<and> (j < r \<longrightarrow> prio j < prio r))"
  using assms
proof (induction maxP ms i best bestP rule: best_from.induct)
  case (2 maxP m ms i best bestP)
  have p: "prio i = int (min (p_Priority (m_pub m)) maxP)" using "2.prems"(4) [of 0] by simp
  have rest: "prio (i + 1 + j) = int (min (p_Priority (m_pub (ms ! j))) maxP)" if "j < length ms" for j
    using "2.prems"(4) [of "Suc j"] that by simp
  show ?case
  proof (cases "prio i > bestP")
    case True
    have "prio j \<le> prio i \<and> (j < i \<longrightarrow> prio j < prio i)" if "j < i + 1" for j
      using "2.prems"(2) [of j] "2.prems"(3) True that by (cases "j = i") auto
    from "2.IH"(1) [OF p _ _ this _ rest] True p show ?thesis by (simp add: Let_def)
  next
    case False
    have "prio j \<le> prio best \<and> (j < best \<longrightarrow> prio j < prio best)" if "j < i + 1" for j
      using "2.prems"(1,3) "2.prems"(2) [of j] False that by (cases "j = i") auto
    from "2.IH"(2) [OF p _ _ this "2.prems"(3) rest] "2.prems"(1) False p show ?thesis by (simp add: Let_def)
  qed
qed auto

lemma best_from_first:
  assumes "ms \<noteq> []"
  shows "let r = best_from maxP ms 0 0 (- 1); prio = (\<lambda>j. min (p_Priority (m_pub (ms ! j))) maxP) in
    r < length ms \<and> (\<forall>j < length ms. prio j \<le> prio r \<and> (j < r \<longrightarrow> prio j < prio r))"
proof -
  obtain m ms1 where ms: "ms = m # ms1" using assms by (cases ms) auto
  let ?prio = "\<lambda>j. int (min (p_Priority (m_pub (ms ! j))) maxP)"
  have "let r = best_from maxP ms1 1 0 (?prio 0) in
      r < 1 + length ms1 \<and> (\<forall>j < 1 + length ms1. ?prio j \<le> ?prio r \<and> (j < r \<longrightarrow> ?prio j < ?prio r))"
    by (rule best_from_spec) (auto simp: ms)
  then show ?thesis by (simp add: ms Let_def)
qed

section \<open>A run\<close>

text \<open>
  One connection, one channel in confirm mode with a prefetch of one, one consumer of one
  queue, and two messages published to it: the first is delivered, the second waits.
\<close>

definition demo_consumer :: broker where
  "demo_consumer =
     snd (Confirm_mode 1 (snd (Consume 1 ''q'' ''c'' False False (snd (Qos 1 1
       (snd (QueueDeclare 1 ''q'' False False False [] (snd (Channel 0 (snd (open_conn New)))))))))))"

definition demo_publish :: "broker \<Rightarrow> broker" where
  "demo_publish b = snd (PublishWithContext None 1 '''' ''q'' True empty_publishing b)"

definition demo :: broker where
  "demo = demo_publish (demo_publish demo_consumer)"

lemma demo_valid: "valid_cn (snd (open_conn New)) 0" "valid_ch (snd (Channel 0 (snd (open_conn New)))) 1"
  by code_simp+

lemma demo_valid_queue: "valid_ch (snd (QueueDeclare 1 ''q'' False False False [] (snd (Channel 0 (snd (open_conn New)))))) 1"
  by code_simp

lemma demo_valid_consumer:
  "valid_ch (snd (Qos 1 1 (snd (QueueDeclare 1 ''q'' False False False [] (snd (Channel 0 (snd (open_conn New)))))))) 1"
  "valid_ch (snd (Consume 1 ''q'' ''c'' False False (snd (Qos 1 1
       (snd (QueueDeclare 1 ''q'' False False False [] (snd (Channel 0 (snd (open_conn New)))))))))) 1"
  "valid_ch demo_consumer 1" "valid_ch (demo_publish demo_consumer) 1"
  by code_simp+

lemma demo_consumer_reachable: "breachable demo_consumer"
  unfolding demo_consumer_def
  by (intro b_step [OF _ b_confirm] b_step [OF _ b_consume] b_step [OF _ b_qos] b_step [OF _ b_queue]
      b_step [OF _ b_channel] b_step [OF _ b_peer] b_init demo_valid demo_valid_queue demo_valid_consumer) simp

lemma demo_reachable: "breachable demo"
  unfolding demo_def demo_publish_def
  by (intro b_step [OF _ b_publish] demo_consumer_reachable demo_valid_consumer [unfolded demo_publish_def])

section \<open>Properties\<close>

text \<open>
  C34. In every state of the broker, on an open channel, the deliveries a consumer holds
  unacknowledged never exceed its prefetch count, when it acknowledges and has one; the
  broker's own count of them is exact, and no two of them share a delivery tag.
\<close>

theorem prefetch_respected:
  assumes "breachable b" "\<not> ch_closed (b_ch b k)" "bc_ch (b_cs b ci) = k" "\<not> bc_autoAck (b_cs b ci)"
  shows "distinct (map fst (ch_unacked (b_ch b k))) \<and>
    bc_unacked (b_cs b ci) = int (held_by ci (ch_unacked (b_ch b k))) \<and>
    (0 < bc_prefetch (b_cs b ci) \<longrightarrow> int (held_by ci (ch_unacked (b_ch b k))) \<le> bc_prefetch (b_cs b ci))"
proof -
  have inv: "binv b" using good_reachable [OF assms(1)] by (simp add: good_def)
  then have "chan_ok b k" using assms(2) unfolding binv_def by blast
  then have "distinct (map fst (ch_unacked (b_ch b k)))"
    "bc_unacked (b_cs b ci) = int (held_by ci (ch_unacked (b_ch b k)))"
    using assms(3,4) by (auto simp: chan_ok_def Let_def)
  moreover have "cons_ok (b_fresh b) (b_cs b ci)" using inv unfolding binv_def by blast
  ultimately show ?thesis using assms(4) by (auto simp: cons_ok_def)
qed

theorem prefetch_respected_witness:
  "distinct (map fst (ch_unacked (b_ch demo 1))) \<and> held_by 3 (ch_unacked (b_ch demo 1)) = 1 \<and>
   length (q_msgs (b_q demo 2)) = 1 \<and> int (held_by 3 (ch_unacked (b_ch demo 1))) \<le> bc_prefetch (b_cs demo 3)"
proof -
  have h: "\<not> ch_closed (b_ch demo 1)" "bc_ch (b_cs demo 3) = 1" "\<not> bc_autoAck (b_cs demo 3)" "0 < bc_prefetch (b_cs demo 3)"
    by code_simp+
  have "held_by 3 (ch_unacked (b_ch demo 1)) = 1" "length (q_msgs (b_q demo 2)) = 1" by code_simp+
  then show ?thesis using prefetch_respected [OF demo_reachable h(1-3)] h(4) by simp
qed

text \<open>
  C35. A message waits in a queue only while every consumer of the queue is at its prefetch
  limit: the broker never leaves a message behind a consumer that could take it.
\<close>

theorem no_message_waits:
  assumes "breachable b" "q_msgs (b_q b qi) \<noteq> []" "ci \<in> set (q_consumers (b_q b qi))"
  shows "\<not> bc_autoAck (b_cs b ci) \<and> bc_prefetch (b_cs b ci) \<noteq> 0 \<and> bc_unacked (b_cs b ci) \<ge> bc_prefetch (b_cs b ci)"
proof -
  have "idle b qi" using good_reachable [OF assms(1)] by (simp add: good_def)
  then show ?thesis using assms(2,3) by (auto simp: idle_def hasCapacity_def)
qed

theorem no_message_waits_witness:
  "\<not> bc_autoAck (b_cs demo 3) \<and> bc_prefetch (b_cs demo 3) \<noteq> 0 \<and> bc_unacked (b_cs demo 3) \<ge> bc_prefetch (b_cs demo 3)"
proof -
  have "q_msgs (b_q demo 2) \<noteq> []" "3 \<in> set (q_consumers (b_q demo 2))" by code_simp+
  then show ?thesis by (rule no_message_waits [OF demo_reachable])
qed

text \<open>
  What a queue hands out next is a message no other exceeds in priority, capped at the
  queue's maximum, and the oldest of those; on a queue without priorities it is the oldest
  message of all.
\<close>

theorem next_is_first_of_highest:
  assumes "q_msgs q \<noteq> []"
  shows "let j = next_index q; prio = (\<lambda>i. min (p_Priority (m_pub (q_msgs q ! i))) (q_maxPriority q)) in
    j < length (q_msgs q) \<and> (\<forall>i < length (q_msgs q). prio i \<le> prio j \<and> (i < j \<longrightarrow> prio i < prio j))"
  using best_from_first [OF assms, of "q_maxPriority q"] assms by (auto simp: next_index_def Let_def)

theorem next_is_first_of_highest_witness:
  "let q = no_queue\<lparr>q_maxPriority := 5, q_msgs := map (\<lambda>n. new_message 0 (empty_publishing\<lparr>p_Priority := n\<rparr>) '''' '''') [1, 9, 7]\<rparr> in
   next_index q = 1 \<and> (\<forall>i < 3. min (p_Priority (m_pub (q_msgs q ! i))) 5 \<le> min (p_Priority (m_pub (q_msgs q ! 1))) 5)"
proof -
  let ?q = "no_queue\<lparr>q_maxPriority := 5, q_msgs := map (\<lambda>n. new_message 0 (empty_publishing\<lparr>p_Priority := n\<rparr>) '''' '''') [1, 9, 7]\<rparr>"
  have "next_index ?q = 1" by code_simp
  then show ?thesis using next_is_first_of_highest [of ?q] by (simp add: Let_def)
qed

text \<open>
  Settling a delivery a second time is a protocol error: in every state, acknowledging,
  rejecting or requeueing a delivery the channel holds and then settling the same tag again
  closes the channel with the broker's precondition failure, whatever was delivered meanwhile.
\<close>

theorem settle_twice_closes:
  assumes "breachable b" "\<not> ch_closed (b_ch b k)" "map_of (ch_unacked (b_ch b k)) t = Some i"
  shows "let b1 = snd (settle k kind t False requeue now b); (err, b2) = settle k kind1 t False requeue1 now1 b1 in
    \<not> ch_closed (b_ch b1 k) \<and> err = None \<and> ch_closed (b_ch b2 k) \<and> ch_unacked (b_ch b2 k) = [] \<and>
    ch_closeErr (b_ch b2 k) = Some (AmqpError 406 (''PRECONDITION_FAILED - unknown delivery tag '' @ format_int (int t)))"
proof -
  let ?b1 = "snd (settle k kind t False requeue now b)"
  have b1: "\<not> ch_closed (b_ch ?b1 k)" "map_of (ch_unacked (b_ch ?b1 k)) t = None"
    using settle_once [OF good_reachable [OF assms(1)] assms(2,3)] by (simp_all add: Let_def)
  then have "settle k kind1 t False requeue1 now1 ?b1 =
      (None, ch_shutdown k (Some (AmqpError 406 (''PRECONDITION_FAILED - unknown delivery tag '' @ format_int (int t)))) ?b1)"
    by (simp add: settle_def settled_tags_def Let_def)
  then show ?thesis using b1(1) ch_shutdown_closed [OF b1(1)] by (simp add: Let_def)
qed

theorem settle_twice_closes_witness:
  "let b1 = snd (settle 1 ''ack'' 1 False False 0 demo); b2 = snd (settle 1 ''ack'' 1 False False 0 b1) in
    \<not> ch_closed (b_ch b1 1) \<and> ch_closed (b_ch b2 1)"
proof -
  have "\<not> ch_closed (b_ch demo 1)" by code_simp
  moreover have "map fst (ch_unacked (b_ch demo 1)) = [1]" by code_simp
  then obtain i where "map_of (ch_unacked (b_ch demo 1)) 1 = Some i" by auto
  ultimately show ?thesis
    using settle_twice_closes [OF demo_reachable, of 1 1 i "''ack''" False 0 "''ack''" False 0] by (simp add: Let_def split_beta)
qed

end
