(* ===== verification/BrokerRoute.thy ===== *)
theory BrokerRoute imports BrokerInv "HOL-Library.Multiset" begin

text \<open>
  Where a published message goes in the in-memory broker. The registry of queues is exact:
  a name stands for a live queue of that name. Dispatching moves messages from a queue to its
  own consumers and loses none, so a publication adds one message to each queue it is
  routed to and to no other.
\<close>

section \<open>The registry of queues\<close>

definition live :: "broker \<Rightarrow> bool" where
  "live b \<longleftrightarrow> (\<forall>(name, qi) \<in> set (b_queues b). q_name (b_q b qi) = name \<and> \<not> q_deleted (b_q b qi) \<and> qi < b_fresh b)"

text \<open>
  \<open>steady\<close>: neither the registry nor what it says of a queue changes. \<open>tame\<close>: queues may
  leave the registry, and one that is deleted has left it.
\<close>

definition steady :: "broker \<Rightarrow> broker \<Rightarrow> bool" where
  "steady b b1 \<longleftrightarrow>
     b_queues b1 = b_queues b \<and> b_fresh b \<le> b_fresh b1 \<and>
     (\<forall>qi. q_name (b_q b1 qi) = q_name (b_q b qi) \<and> q_deleted (b_q b1 qi) = q_deleted (b_q b qi))"

definition tame :: "broker \<Rightarrow> broker \<Rightarrow> bool" where
  "tame b b1 \<longleftrightarrow>
     set (b_queues b1) \<subseteq> set (b_queues b) \<and> b_fresh b \<le> b_fresh b1 \<and>
     (\<forall>qi. q_name (b_q b1 qi) = q_name (b_q b qi) \<and>
        (q_deleted (b_q b1 qi) \<longrightarrow> q_deleted (b_q b qi) \<or> q_name (b_q b qi) \<notin> fst ` set (b_queues b1)))"

lemma steady_refl [simp]: "steady b b"
  by (simp add: steady_def)

lemma steady_trans: "steady a b \<Longrightarrow> steady b c \<Longrightarrow> steady a c"
  by (simp add: steady_def)

lemma steady_fold: "(\<And>x s. steady s (f x s)) \<Longrightarrow> steady b (fold f xs b)"
  by (rule fold_keeps [where P = "steady b"]) (auto intro: steady_trans)

lemma steady_tame: "steady b b1 \<Longrightarrow> tame b b1"
  by (simp add: steady_def tame_def)

lemma tame_refl [simp]: "tame b b"
  by (simp add: steady_tame)

lemma tame_trans: "tame a b \<Longrightarrow> tame b c \<Longrightarrow> tame a c"
  unfolding tame_def by (metis image_mono order.trans subsetD)

lemma tame_fold: "(\<And>x s. tame s (f x s)) \<Longrightarrow> tame b (fold f xs b)"
  by (rule fold_keeps [where P = "tame b"]) (auto intro: tame_trans)

lemma live_tame:
  assumes "live b" "tame b b1"
  shows "live b1"
proof -
  have "q_name (b_q b1 qi) = n \<and> \<not> q_deleted (b_q b1 qi) \<and> qi < b_fresh b1" if "(n, qi) \<in> set (b_queues b1)" for n qi
  proof -
    have t: "q_name (b_q b1 qi) = q_name (b_q b qi)" "b_fresh b \<le> b_fresh b1" "set (b_queues b1) \<subseteq> set (b_queues b)"
      "q_deleted (b_q b1 qi) \<Longrightarrow> q_deleted (b_q b qi) \<or> q_name (b_q b qi) \<notin> fst ` set (b_queues b1)"
      using assms(2) by (simp_all add: tame_def)
    have "q_name (b_q b qi) = n" "\<not> q_deleted (b_q b qi)" "qi < b_fresh b"
      using that assms(1) t(3) by (auto simp: live_def)
    moreover have "n \<in> fst ` set (b_queues b1)" using that by (rule image_eqI [rotated]) simp
    ultimately show ?thesis using t by fastforce
  qed
  then show ?thesis by (auto simp: live_def)
qed

lemma steady_on [simp]:
  "steady b (log_op e b)" "steady b (on_ch k f b)" "steady b (on_cn c g b)" "steady b (on_cs ci h b)"
  "steady b (b\<lparr>b_fresh := Suc (b_fresh b)\<rparr>)" "steady b (b\<lparr>b_exchanges := xs\<rparr>)" "steady b (b\<lparr>b_conns := cs\<rparr>)" "steady b (b\<lparr>b_delayed := ds\<rparr>)"
  by (simp_all add: steady_def)

lemma steady_on_q: "(\<And>q. q_name (f q) = q_name q \<and> q_deleted (f q) = q_deleted q) \<Longrightarrow> steady b (on_q qi f b)"
  by (simp add: steady_def)

lemma steady_dispatch_one: "steady b (dispatch_one qi i b)"
  by (simp add: dispatch_one_def Let_def steady_def deliver_def)

lemma steady_dispatch: "steady b (dispatch qi b)"
  by (rule dispatch_keeps [where P = "steady b"]) (auto intro: steady_trans steady_dispatch_one)

lemma steady_enqueue: "steady b (enqueue qi m front b)"
  unfolding enqueue_def Let_def by (auto intro!: steady_trans [OF steady_on_q steady_dispatch])

lemma steady_enqueue_new: "steady b (enqueue_new x key msg qi b)"
  unfolding enqueue_new_def by (rule steady_trans [OF _ steady_enqueue]) simp

lemma steady_route: "steady b (snd (route x key msg b))"
  by (simp add: route_def Let_def steady_fold steady_enqueue_new)

lemma steady_deadLetter: "steady b (deadLetter qi m reason now b)"
  by (simp add: deadLetter_def Let_def steady_route split: option.split)

lemma steady_expire: "steady b (expire qi ptr now b)"
proof -
  have "steady b (deadLetter qi m r now (log_op e (on_q qi (\<lambda>q. q\<lparr>q_msgs := f q\<rparr>) b)))" for m r e f
    by (rule steady_trans [OF steady_trans [OF steady_on_q steady_on(1)] steady_deadLetter]) simp
  then show ?thesis by (simp add: expire_def Let_def split: option.split)
qed

lemma steady_drop_consumer: "steady b (drop_consumer ci b)"
  by (simp add: drop_consumer_def Let_def steady_def)

lemma steady_cancel_consumer: "steady b (cancel_consumer ci b)"
  unfolding cancel_consumer_def by (rule steady_trans [OF steady_drop_consumer steady_on(2)])

lemma tame_deleteQueue: "tame b (deleteQueue qi b)"
proof -
  let ?b2 = "(on_q qi (\<lambda>q. q\<lparr>q_deleted := True, q_msgs := []\<rparr>) b)
    \<lparr>b_exchanges := map (\<lambda>(x, ex). (x, ex\<lparr>x_bindings := filter (\<lambda>(n, k). n \<noteq> q_name (b_q b qi)) (x_bindings ex)\<rparr>)) (b_exchanges b)\<rparr>"
  have "steady ?b2 (fold cancel_consumer (q_consumers (b_q b qi)) ?b2)" by (rule steady_fold) (rule steady_cancel_consumer)
  then show ?thesis by (auto simp: deleteQueue_def Let_def steady_def tame_def)
qed

lemma tame_removeConsumer: "tame b (removeConsumer ci b)"
  unfolding removeConsumer_def Let_def
  by (auto intro: tame_trans [OF steady_tame [OF steady_drop_consumer] tame_deleteQueue] steady_tame [OF steady_drop_consumer])

lemma steady_requeue: "steady b (requeue_inflight p b)"
  by (cases p) (simp add: requeue_inflight_def steady_enqueue)

lemma tame_ch_shutdown: "tame b (ch_shutdown k e b)"
proof -
  have "tame b (on_cn c g (on_ch k f2 (fold requeue_inflight ps (fold removeConsumer cs (on_ch k f1 b)))))" for c g f1 f2 ps cs
    by (intro tame_trans [OF steady_tame [OF steady_on(2)] tame_trans [OF tame_fold [OF tame_removeConsumer]
          steady_tame [OF steady_trans [OF steady_fold [OF steady_requeue] steady_trans [OF steady_on(2) steady_on(3)]]]]])
  then show ?thesis by (simp add: ch_shutdown_def Let_def)
qed

lemma tame_cn_shutdown: "tame b (cn_shutdown c e b)"
proof -
  let ?f = "\<lambda>(name :: string, qi) b. if q_exclusv (b_q b qi) \<and> q_owner (b_q b qi) = Some c then deleteQueue qi b else b"
  have "tame s (?f p s)" for p s by (cases p) (simp add: tame_deleteQueue)
  then have "tame b (fold ?f qs (fold (\<lambda>k. ch_shutdown k e) ks (on_cn c g b)))" for qs ks g
    by (intro tame_trans [OF steady_tame [OF steady_on(3)] tame_trans [OF tame_fold [OF tame_ch_shutdown] tame_fold]])
  moreover have "steady s (on_cn c g (s\<lparr>b_conns := cs\<rparr>))" for s g cs by (rule steady_trans [OF steady_on(7) steady_on(3)])
  ultimately have "tame b (on_cn c g1 ((fold ?f qs (fold (\<lambda>k. ch_shutdown k e) ks (on_cn c g b)))\<lparr>b_conns := cs\<rparr>))" for qs ks g g1 cs
    by (rule tame_trans [OF _ steady_tame])
  then show ?thesis by (simp add: cn_shutdown_def Let_def)
qed

lemma tame_kill: "tame b (KillConnections b)"
  by (simp add: KillConnections_def tame_fold tame_cn_shutdown)

lemma tame_restart: "tame b (Restart b)"
proof -
  let ?f = "\<lambda>(name :: string, qi) b. if \<not> q_durable (b_q b qi) then deleteQueue qi b
    else on_q qi (\<lambda>q. q\<lparr>q_msgs := filter (\<lambda>m. p_DeliveryMode (m_pub m) = 2) (q_msgs q)\<rparr>) b"
  have "tame s (?f p s)" for p s by (cases p) (simp add: tame_deleteQueue steady_tame steady_on_q)
  then have "tame b ((fold ?f qs (KillConnections b))\<lparr>b_exchanges := xs\<rparr>)" for qs xs
    by (intro tame_trans [OF tame_kill tame_trans [OF tame_fold steady_tame [OF steady_on(6)]]])
  then show ?thesis by (simp add: Restart_def Let_def)
qed

lemma steady_connections:
  "steady b (snd (open_conn b))" "steady b (snd (Dial ctxErr b))" "steady b (snd (Channel c b))"
  by (simp_all add: open_conn_def Dial_def Channel_def steady_def Let_def split: option.split)

lemma tame_ch_fail: "tame b (snd (ch_fail k e b))"
  by (simp add: ch_fail_def tame_ch_shutdown)

lemma tame_declare: "tame b (snd (ExchangeDeclare k name kind durable autoDelete internal b))" "tame b (snd (QueueBind k name key x b))"
  by (simp_all add: ExchangeDeclare_def QueueBind_def tame_ch_fail steady_tame split: option.split)

lemma steady_add_consumer: "steady b (add_consumer tag k qi autoAck exclusive b)"
  by (simp add: add_consumer_def Let_def steady_def)

lemma steady_after:
  "steady a b \<Longrightarrow> steady a (log_op e b)" "steady a b \<Longrightarrow> steady a (on_ch k f b)" "steady a b \<Longrightarrow> steady a (on_cs ci h b)"
  "steady a b \<Longrightarrow> steady a (dispatch qi b)" "steady a b \<Longrightarrow> steady a (enqueue qi m front b)"
  "steady a b \<Longrightarrow> steady a (deadLetter qi m reason now b)" "steady a b \<Longrightarrow> steady a (snd (route x key msg b))"
  "steady a b \<Longrightarrow> steady a (add_consumer tag k qi autoAck exclusive b)" "steady a b \<Longrightarrow> steady a (b\<lparr>b_delayed := ds\<rparr>)"
  by (erule steady_trans, simp add: steady_dispatch steady_enqueue steady_deadLetter steady_route steady_add_consumer)+

lemma tame_after: "steady a b \<Longrightarrow> tame a (ch_shutdown k e b)"
  by (rule tame_trans [OF steady_tame tame_ch_shutdown])

lemma tame_Consume: "tame b (snd (Consume k name tag0 autoAck exclusive b))"
  by (simp add: Consume_def Let_def tame_after steady_tame steady_after split: option.split)

lemma tame_Cancel: "tame b (snd (Cancel k tag b))"
  by (simp add: Cancel_def tame_removeConsumer split: option.split)

lemma steady_publish_accepted: "steady b (publish_accepted k tag action p b)"
  by (simp add: publish_accepted_def ch_emit_def Let_def split_beta steady_after)

lemma tame_Publish_ctx: "tame b (snd (PublishWithContext ctxErr k x key mandatory msg b))"
proof -
  have "tame b (publish_accepted k tag a p b1)" if "steady b b1" for tag a p b1
    by (rule steady_tame [OF steady_trans [OF that steady_publish_accepted]])
  then show ?thesis
    by (simp add: PublishWithContext_def ch_emit_def Let_def tame_after steady_tame steady_after split: ConfirmAction.split)
qed

lemma steady_answers: "steady b (confirm_due k tag b)" "steady b (snd (ReleaseHeld b))" "steady b (snd (Publish x key msg b))"
  "steady b (snd (Confirm_mode k b))" "steady b (snd (Qos k n b))" "steady b (SetDialFault e b)"
  "steady b (SetConfirmPolicy pol b)" "steady b (SetConfirmDelay del b)"
proof -
  show "steady b (SetDialFault e b)" "steady b (SetConfirmPolicy pol b)" "steady b (SetConfirmDelay del b)"
    by (simp_all add: steady_def SetDialFault_def SetConfirmPolicy_def SetConfirmDelay_def)
  show "steady b (confirm_due k tag b)" "steady b (snd (Publish x key msg b))" "steady b (snd (Confirm_mode k b))"
    "steady b (snd (Qos k n b))"
    by (simp_all add: confirm_due_def ch_emit_def Publish_def Confirm_mode_def Qos_def Let_def steady_after)
  show "steady b (snd (ReleaseHeld b))" by (simp add: ReleaseHeld_def Let_def release_channel_def steady_fold)
qed

lemma tame_closing: "tame b (snd (ch_Close k b))" "tame b (snd (conn_Close c b))" "tame b (DeleteQueue name b)"
  by (simp_all add: ch_Close_def conn_Close_def DeleteQueue_def tame_ch_shutdown tame_cn_shutdown tame_deleteQueue split: option.split)

lemma steady_settle_one: "steady b (settle_one k kind requeue now p b)"
  by (cases p) (simp add: settle_one_def Let_def steady_after)

lemma tame_settle: "tame b (snd (settle k kind n multiple requeue now b))"
proof -
  have "steady b (fold dispatch qs (fold (settle_one k kind requeue now) ts b))" for qs ts
    by (rule steady_trans [OF steady_fold [OF steady_settle_one] steady_fold [OF steady_dispatch]])
  then show ?thesis by (simp add: settle_def Let_def tame_ch_shutdown steady_tame)
qed

lemma live_add_queue: "live b \<Longrightarrow> \<not> q_deleted q \<Longrightarrow> live (add_queue q b)"
  by (auto simp: live_def add_queue_def)

lemma live_QueueDeclare: "live b \<Longrightarrow> live (snd (QueueDeclare k name durable autoDelete exclusive args b))"
proof -
  assume l: "live b"
  then have "live (b\<lparr>b_nameSeq := b_nameSeq b + 1\<rparr>)" by (simp add: live_def)
  moreover have "live (ch_shutdown j e s)" if "live s" for j e s by (rule live_tame [OF that tame_ch_shutdown])
  ultimately show ?thesis
    using l by (cases "name = []") (simp_all add: QueueDeclare_def Let_def no_queue_def live_add_queue split: option.split)
qed

lemma live_step: "bstep b b1 \<Longrightarrow> live b \<Longrightarrow> live b1"
proof (induction rule: bstep.induct)
  case (b_queue b k args name durable autoDelete exclusive)
  then show ?case by (simp add: live_QueueDeclare)
qed (erule live_tame, simp add: steady_tame steady_connections steady_answers steady_expire tame_kill tame_restart
    tame_declare tame_Consume tame_Cancel tame_Publish_ctx tame_closing tame_settle)+

lemma live_reachable: "breachable b \<Longrightarrow> live b"
proof (induction rule: breachable.induct)
  case b_init
  show ?case by (simp add: live_def New_def)
qed (rule live_step)

section \<open>What a queue has received\<close>

text \<open>
  The messages of a queue: those waiting in it and those its consumers have been handed,
  each as a delivery without its tag.
\<close>

definition received :: "broker \<Rightarrow> nat \<Rightarrow> Delivery multiset" where
  "received b qi =
     image_mset (delivery_of 0) (mset (q_msgs (b_q b qi))) +
     (\<Sum>ci \<in> set (q_consumers (b_q b qi)). image_mset (\<lambda>d. d\<lparr>d_DeliveryTag := 0\<rparr>) (mset (bc_out (b_cs b ci))))"

lemma delivery_of_simps [simp]:
  "(delivery_of tag m)\<lparr>d_DeliveryTag := 0\<rparr> = delivery_of 0 m" "delivery_of tag (m\<lparr>m_timer := x\<rparr>) = delivery_of tag m"
  by (simp_all add: delivery_of_def Let_def)

lemma mset_remove_nth: "i < length xs \<Longrightarrow> add_mset (xs ! i) (mset (remove_nth i xs)) = mset xs"
  unfolding remove_nth_def by (subst (4) id_take_nth_drop [of i xs]) simp_all

lemma received_cong:
  assumes "b_q b1 qi = b_q b qi" "\<And>ci. ci \<in> set (q_consumers (b_q b qi)) \<Longrightarrow> bc_out (b_cs b1 ci) = bc_out (b_cs b ci)"
  shows "received b1 qi = received b qi"
  using assms by (simp add: received_def)

text \<open>Handing a message to a consumer of its queue moves it within the queue's account.\<close>

lemma received_dispatch_one:
  assumes "binv b" "pick b (b_q b qi) = Some i" "q_msgs (b_q b qi) \<noteq> []"
  shows "received (dispatch_one qi i b) qj = received b qj"
proof -
  let ?q = "b_q b qi" let ?b1 = "dispatch_one qi i b"
  let ?ci = "q_consumers ?q ! ((q_rr ?q + i) mod length (q_consumers ?q))"
  have ci: "?ci \<in> set (q_consumers ?q)" by (rule pick_Some(1) [OF assms(2)])
  have out: "bc_out (b_cs ?b1 c) = (if c = ?ci then bc_out (b_cs b c) @
      [delivery_of (ch_nextTag (b_ch b (bc_ch (b_cs b ?ci))) + 1) (q_msgs ?q ! next_index ?q)] else bc_out (b_cs b c))" for c
    by (simp add: dispatch_one_def deliver_def Let_def)
  show ?thesis
  proof (cases "qj = qi")
    case False
    then have "?ci \<notin> set (q_consumers (b_q b qj))" using assms(1) ci unfolding binv_def by metis
    then show ?thesis using False by (intro received_cong) (auto simp: out, simp add: dispatch_one_def Let_def)
  next
    case True
    let ?out = "\<lambda>b c. image_mset (\<lambda>d. d\<lparr>d_DeliveryTag := 0\<rparr>) (mset (bc_out (b_cs b c)))"
    let ?m = "q_msgs ?q ! next_index ?q" let ?C = "set (q_consumers ?q)"
    have "(\<Sum>c \<in> ?C. ?out ?b1 c) = ?out ?b1 ?ci + (\<Sum>c \<in> ?C - {?ci}. ?out ?b1 c)" using ci by (intro sum.remove) simp_all
    also have "(\<Sum>c \<in> ?C - {?ci}. ?out ?b1 c) = (\<Sum>c \<in> ?C - {?ci}. ?out b c)" by (rule sum.cong) (simp_all add: out)
    also have "?out ?b1 ?ci = add_mset (delivery_of 0 ?m) (?out b ?ci)" by (simp add: out)
    also have "\<dots> + (\<Sum>c \<in> ?C - {?ci}. ?out b c) = add_mset (delivery_of 0 ?m) (\<Sum>c \<in> ?C. ?out b c)"
      using ci by (simp add: sum.remove [of ?C ?ci])
    finally have s: "(\<Sum>c \<in> ?C. ?out ?b1 c) = add_mset (delivery_of 0 ?m) (\<Sum>c \<in> ?C. ?out b c)" .
    have "mset (q_msgs ?q) = add_mset ?m (mset (remove_nth (next_index ?q) (q_msgs ?q)))"
      using mset_remove_nth next_index_less [OF assms(3)] by metis
    then show ?thesis by (simp add: True received_def dispatch_one_q s)
  qed
qed

lemma received_dispatch:
  assumes "binv b"
  shows "received (dispatch qi b) qj = received b qj"
proof -
  have "binv (dispatch qi b) \<and> received (dispatch qi b) qj = received b qj"
    by (rule dispatch_keeps [where P = "\<lambda>s. binv s \<and> received s qj = received b qj"])
      (simp_all add: assms binv_dispatch_one received_dispatch_one)
  then show ?thesis by simp
qed

lemma received_enqueue:
  assumes "binv b" "\<not> q_deleted (b_q b qi)"
  shows "received (enqueue qi m front b) qj = (if qj = qi then add_mset (delivery_of 0 m) (received b qj) else received b qj)"
proof -
  have "binv (on_q qi (\<lambda>q. q\<lparr>q_msgs := ms q\<rparr>) b)" for ms by (rule binv_keeps [OF assms(1) keeps_on_q]) simp
  then show ?thesis using assms(2) by (simp add: enqueue_def Let_def received_dispatch) (simp add: received_def)
qed

lemma received_fold:
  assumes "binv b" "distinct ts" "list_all (\<lambda>qi. \<not> q_deleted (b_q b qi)) ts"
  shows "received (fold (enqueue_new x key msg) ts b) qj =
    (if qj \<in> set ts then add_mset (delivery_of 0 (new_message 0 msg x key)) (received b qj) else received b qj)"
  using assms
proof (induction ts arbitrary: b)
  case (Cons qi ts)
  let ?b = "enqueue_new x key msg qi b"
  have i: "binv (b\<lparr>b_fresh := b_fresh b + 1\<rparr>)" by (rule binv_keeps [OF Cons.prems(1)]) (simp add: keeps_def)
  have d: "delivery_of 0 (new_message n msg x key) = delivery_of 0 (new_message 0 msg x key)" for n
    by (simp add: delivery_of_def new_message_def Let_def)
  have r: "received ?b q = (if q = qi then add_mset (delivery_of 0 (new_message 0 msg x key)) (received b q) else received b q)" for q
    unfolding enqueue_new_def using received_enqueue [OF i] Cons.prems(3) d by (simp add: received_def)
  have "binv ?b" using good_enqueue [of UNIV] i unfolding enqueue_new_def good_def by blast
  moreover have "list_all (\<lambda>q. \<not> q_deleted (b_q ?b q)) ts"
    using Cons.prems(3) steady_enqueue_new [of b x key msg qi] by (simp add: list_all_iff steady_def)
  ultimately show ?case using Cons.IH [of ?b] Cons.prems(2) r by auto
qed simp

lemma targets_live:
  assumes "live b"
  shows "list_all (\<lambda>qi. \<not> q_deleted (b_q b qi)) (targets b x key)"
proof -
  have reg: "\<not> q_deleted (b_q b qi)" if "map_of (b_queues b) name = Some qi" for name qi
    using assms map_of_SomeD [OF that] by (auto simp: live_def)
  have "list_all (\<lambda>qi. \<not> q_deleted (b_q b qi)) (bound_queues (b_queues b) kind key [] bs)" for kind bs
    using bound_queues_spec [of "[]" "b_queues b" kind key bs] reg by (auto simp: list_all_iff)
  then show ?thesis using reg by (auto simp: targets_def split: option.split)
qed

lemma targets_distinct: "distinct (targets b x key)"
  using bound_queues_spec [of "[]" "b_queues b"] by (simp add: targets_def split: option.split)

lemma received_route:
  assumes "binv b" "live b"
  shows "received (snd (route x key msg b)) qj =
    (if qj \<in> set (targets b x key) then add_mset (delivery_of 0 (new_message 0 msg x key)) (received b qj) else received b qj)"
  by (simp add: route_def Let_def received_fold [OF assms(1) targets_distinct targets_live [OF assms(2)]])

section \<open>Properties\<close>

text \<open>The queues a message is for: the one named by its key, or those with a binding its key satisfies.\<close>

definition takes :: "broker \<Rightarrow> exchange \<Rightarrow> string \<Rightarrow> string \<Rightarrow> nat \<Rightarrow> bool" where
  "takes b ex x key qi \<longleftrightarrow>
     (if x = '''' then map_of (b_queues b) key = Some qi
      else list_ex (\<lambda>(name, pattern). map_of (b_queues b) name = Some qi \<and> binding_hit (x_kind ex) pattern key) (x_bindings ex))"

lemma takes_targets: "map_of (b_exchanges b) x = Some ex \<Longrightarrow> takes b ex x key qi \<longleftrightarrow> qi \<in> set (targets b x key)"
  using bound_queues_spec [of "[]" "b_queues b" "x_kind ex" key "x_bindings ex" qi]
  by (auto simp: takes_def targets_def list_ex_iff split: option.split)

lemma received_answer [simp]:
  "received (on_ch k f b) qi = received b qi" "received (log_op e b) qi = received b qi"
  by (simp_all add: received_def)

lemma faults_kept [simp]:
  "b_policy (on_ch k f b) = b_policy b" "b_policy (log_op e b) = b_policy b"
  "b_delay (on_ch k f b) = b_delay b" "b_delay (log_op e b) = b_delay b"
  by (simp_all add: on_ch_def log_op_def)

text \<open>A message accepted on a channel in confirm mode: routed, then answered.\<close>

lemma publish_accepted_ack:
  assumes "ch_confirm (b_ch b k)" "b_delay b = (\<lambda>_. 0)"
  shows "let b1 = publish_accepted k tag Ack \<lparr>pd_Exchange = x, pd_Key = key, pd_Mandatory = mandatory, pd_Msg = msg\<rparr> b in
    received b1 qi = received (snd (route x key msg b)) qi \<and>
    ch_events (b_ch b1 k) = ch_events (b_ch b k) @ answer True tag (targets b x key \<noteq> []) mandatory x key msg \<and>
    ch_publishSeq (b_ch b1 k) = ch_publishSeq (b_ch b k)"
proof -
  have "ch_grows (b_ch b k) (b_ch (snd (route x key msg b)) k)" using grows_route unfolding grows_def by blast
  from ch_grows_same [OF this] have e: "ch_events (b_ch (snd (route x key msg b)) k) = ch_events (b_ch b k)"
    "ch_publishSeq (b_ch (snd (route x key msg b)) k) = ch_publishSeq (b_ch b k)" by simp_all
  have "fst (route x key msg b) = (targets b x key \<noteq> [])" by (simp add: route_def Let_def)
  then show ?thesis using assms e by (simp add: publish_accepted_def ch_emit_def Let_def split_beta)
qed

text \<open>
  C36. On an open channel in confirm mode, with every confirm immediate, publishing to an
  exchange that exists gives the message, once, to every queue it is for and to no other:
  it waits there or one of the queue's consumers has been handed it, under the exchange and
  key it was published with. The publisher is answered on that channel with exactly one
  confirm, carrying the sequence number announced for it, preceded by a return exactly when
  the message is mandatory and no queue takes it.
\<close>

theorem publish_answered:
  assumes "breachable b" "\<not> ch_closed (b_ch b k)" "ch_confirm (b_ch b k)" "map_of (b_exchanges b) x = Some ex"
    "b_policy b = (\<lambda>_. Ack)" "b_delay b = (\<lambda>_. 0)"
  shows "let (err, b1) = PublishWithContext None k x key mandatory msg b in
    err = None \<and>
    (\<forall>qi. received b1 qi = received b qi +
       (if takes b ex x key qi then {#delivery_of 0 (new_message 0 msg x key)#} else {#})) \<and>
    ch_events (b_ch b1 k) = ch_events (b_ch b k)
      @ (if mandatory \<and> (\<forall>qi. \<not> takes b ex x key qi) then [EmitReturn x key msg] else [])
      @ [EmitConfirm (GetNextPublishSeqNo k b) True] \<and>
    GetNextPublishSeqNo k b1 = GetNextPublishSeqNo k b + 1"
proof -
  define b0 where "b0 = log_op (exchange_op ''publish'' x key mandatory msg)
    (on_ch k (\<lambda>ch. ch\<lparr>ch_publishSeq := Suc (ch_publishSeq (b_ch b k))\<rparr>) b)"
  have b0: "ch_confirm (b_ch b0 k)" "b_delay b0 = (\<lambda>_. 0)" "targets b0 x key = targets b x key" "received b0 = received b"
      "ch_events (b_ch b0 k) = ch_events (b_ch b k)" "ch_publishSeq (b_ch b0 k) = Suc (ch_publishSeq (b_ch b k))"
    using assms(3,6) by (simp_all add: b0_def targets_def fun_eq_iff cong: option.case_cong)
  have pub: "PublishWithContext None k x key mandatory msg b = (None, publish_accepted k (GetNextPublishSeqNo k b) Ack
      \<lparr>pd_Exchange = x, pd_Key = key, pd_Mandatory = mandatory, pd_Msg = msg\<rparr> b0)"
    using assms(2-5) by (simp add: PublishWithContext_def GetNextPublishSeqNo_def Let_def b0_def)
  have s: "steady b b0" unfolding b0_def by (simp add: steady_after)
  have "keeps b b0" unfolding b0_def by (simp add: keeps_def)
  then have "binv b0" using good_reachable [OF assms(1)] unfolding good_def by (blast intro: binv_keeps)
  moreover have "live b0" by (rule live_tame [OF live_reachable [OF assms(1)] steady_tame [OF s]])
  ultimately have q: "received (snd (route x key msg b0)) qi = received b qi +
      (if takes b ex x key qi then {#delivery_of 0 (new_message 0 msg x key)#} else {#})" for qi
    by (simp add: received_route b0 takes_targets [OF assms(4)])
  have none: "(\<forall>qi. \<not> takes b ex x key qi) \<longleftrightarrow> targets b x key = []" by (simp add: takes_targets [OF assms(4)])
  note publish_accepted_ack [OF b0(1,2), of "GetNextPublishSeqNo k b" x key mandatory msg, unfolded Let_def b0(3,5,6) q]
  then show ?thesis unfolding pub none by (simp add: answer_def GetNextPublishSeqNo_def)
qed

theorem publish_answered_witness:
  "let (err, b1) = PublishWithContext None 1 '''' ''q'' True empty_publishing demo_consumer in
   err = None \<and> ch_events (b_ch b1 1) = [EmitConfirm 1 True] \<and>
   received b1 2 = add_mset (delivery_of 0 (new_message 0 empty_publishing '''' ''q'')) (received demo_consumer 2) \<and>
   received b1 5 = received demo_consumer 5"
proof -
  have "\<not> ch_closed (b_ch demo_consumer 1)" "ch_confirm (b_ch demo_consumer 1)"
    "map_of (b_exchanges demo_consumer) '''' = Some (new_exchange ''direct'' True False False)"
    by code_simp+
  moreover have "b_policy demo_consumer p = Ack" "b_delay demo_consumer p = 0" for p by code_simp+
  then have "b_policy demo_consumer = (\<lambda>_. Ack)" "b_delay demo_consumer = (\<lambda>_. 0)" by blast+
  ultimately have h: "\<not> ch_closed (b_ch demo_consumer 1)" "ch_confirm (b_ch demo_consumer 1)"
    "map_of (b_exchanges demo_consumer) '''' = Some (new_exchange ''direct'' True False False)"
    "b_policy demo_consumer = (\<lambda>_. Ack)" "b_delay demo_consumer = (\<lambda>_. 0)" by blast+
  note publish_answered [OF demo_consumer_reachable h, of "''q''" True empty_publishing]
  moreover have "map_of (b_queues demo_consumer) ''q'' = Some 2" "GetNextPublishSeqNo 1 demo_consumer = 1"
    "length (ch_events (b_ch demo_consumer 1)) = 0" by code_simp+
  ultimately show ?thesis by (simp add: split_beta takes_def)
qed

end
