(* ===== verification/Pump.thy ===== *)
theory Pump imports Prelude "HOL-Library.Sublist" begin

text \<open>
  The two goroutines of \<open>internal/fakebroker/channel.go\<close> that carry what the broker produces
  to its listeners through an unbounded buffer: \<open>deliveryPump\<close>, one per consumer, and
  \<open>eventPump\<close>, one per channel. Pushing appends under the mutex and then leaves a token in a
  channel of capacity one, without blocking; the two halves are separate steps, since
  anything may happen between them. What has been pushed and what has been passed on are
  recorded as histories.
\<close>

section \<open>State\<close>

datatype 'a at = PLock | PWait | PSend 'a | PRun 'a | PDone

record 'a pump =
  items :: "'a list"
  signal :: bool
  quit :: bool
  run_at :: "'a at"
  signalling :: nat
  pushed :: "'a list"
  out :: "'a list"

definition newPump :: "'a pump" where
  "newPump = \<lparr>items = [], signal = False, quit = False, run_at = PLock, signalling = 0, pushed = [], out = []\<rparr>"

definition push_item :: "'a \<Rightarrow> 'a pump \<Rightarrow> 'a pump" where
  "push_item d p = p\<lparr>items := items p @ [d], signalling := signalling p + 1, pushed := pushed p @ [d]\<rparr>"

definition push_signal :: "'a pump \<Rightarrow> 'a pump" where
  "push_signal p = p\<lparr>signal := True, signalling := signalling p - 1\<rparr>"

definition stop :: "'a pump \<Rightarrow> 'a pump" where
  "stop p = p\<lparr>quit := True\<rparr>"

section \<open>The goroutines\<close>

text \<open>
  What the loop may do next, up to the point where it may be interrupted: the top of the
  loop under the mutex, the wait for a token or for the end, and the hand-over. In a
  \<open>select\<close> any ready branch may be taken, so the successors form a list.
\<close>

definition top_of_loop :: "'a pump \<Rightarrow> 'a pump" where
  "top_of_loop p = (case items p of [] \<Rightarrow> p\<lparr>run_at := PWait\<rparr> | d # ds \<Rightarrow> p\<lparr>run_at := PSend d, items := ds\<rparr>)"

definition wait_choices :: "'a pump \<Rightarrow> 'a pump list" where
  "wait_choices p =
     (if signal p then [p\<lparr>signal := False, run_at := PLock\<rparr>] else []) @ (if quit p then [p\<lparr>run_at := PDone\<rparr>] else [])"

fun delivery_run :: "'a at \<Rightarrow> 'a pump \<Rightarrow> 'a pump list" where
  "delivery_run PLock p = [top_of_loop p]"
| "delivery_run PWait p = wait_choices p"
| "delivery_run (PSend d) p = p\<lparr>run_at := PLock, out := out p @ [d]\<rparr> # (if quit p then [p\<lparr>run_at := PDone\<rparr>] else [])"
| "delivery_run (PRun d) p = []"
| "delivery_run PDone p = []"

text \<open>The event pump looks at the end first; a hand-over the end interrupts is dropped.\<close>

fun event_run :: "'a at \<Rightarrow> 'a pump \<Rightarrow> 'a pump list" where
  "event_run PLock p = [top_of_loop p]"
| "event_run PWait p = wait_choices p"
| "event_run (PSend f) p = [if quit p then p\<lparr>run_at := PDone\<rparr> else p\<lparr>run_at := PRun f\<rparr>]"
| "event_run (PRun f) p = p\<lparr>run_at := PLock, out := out p @ [f]\<rparr> # (if quit p then [p\<lparr>run_at := PLock\<rparr>] else [])"
| "event_run PDone p = []"

text \<open>
  The steps of the pump itself: the loop's, and the second half of a push. The outside may
  push and stop at any time.
\<close>

definition inner :: "('a at \<Rightarrow> 'a pump \<Rightarrow> 'a pump list) \<Rightarrow> 'a pump \<Rightarrow> 'a pump list" where
  "inner run p = run (run_at p) p @ (if signalling p > 0 then [push_signal p] else [])"

inductive pump_step :: "('a at \<Rightarrow> 'a pump \<Rightarrow> 'a pump list) \<Rightarrow> 'a pump \<Rightarrow> 'a pump \<Rightarrow> bool" for run where
  push_step: "pump_step run p (push_item d p)"
| stop_step: "pump_step run p (stop p)"
| inner_step: "p1 \<in> set (inner run p) \<Longrightarrow> pump_step run p p1"

inductive pump_reach :: "('a at \<Rightarrow> 'a pump \<Rightarrow> 'a pump list) \<Rightarrow> 'a pump \<Rightarrow> bool" for run where
  pump_init: "pump_reach run newPump"
| pump_next: "pump_reach run p \<Longrightarrow> pump_step run p p1 \<Longrightarrow> pump_reach run p1"

definition inner_rel :: "('a at \<Rightarrow> 'a pump \<Rightarrow> 'a pump list) \<Rightarrow> 'a pump \<Rightarrow> 'a pump \<Rightarrow> bool" where
  "inner_rel run p p1 \<longleftrightarrow> p1 \<in> set (inner run p)"

section \<open>What a pump promises\<close>

text \<open>
  The contract both loops satisfy: a step of theirs moves items on in order, drops nothing
  before the end, leaves what pushers own alone, is enabled unless the loop waits for
  a token or is over, and never increases the work left.
\<close>

fun in_hand :: "'a at \<Rightarrow> 'a list" where
  "in_hand (PSend d) = [d]"
| "in_hand (PRun d) = [d]"
| "in_hand _ = []"

fun at_weight :: "'a at \<Rightarrow> nat" where
  "at_weight PDone = 0"
| "at_weight PWait = 1"
| "at_weight PLock = 2"
| "at_weight (PRun d) = 3"
| "at_weight (PSend d) = 4"

definition work :: "'a pump \<Rightarrow> nat" where
  "work p = 5 * length (items p) + 3 * signalling p + (if signal p then 2 else 0) + at_weight (run_at p)"

definition all_there :: "'a pump \<Rightarrow> bool" where
  "all_there p \<longleftrightarrow> out p @ in_hand (run_at p) @ items p = pushed p"

text \<open>A loop that waits has nothing to do, or a token is there or on its way.\<close>

definition awake :: "'a pump \<Rightarrow> bool" where
  "awake p \<longleftrightarrow> (run_at p = PWait \<and> items p \<noteq> [] \<longrightarrow> signal p \<or> signalling p > 0)"

locale pump_loop =
  fixes run :: "'a at \<Rightarrow> 'a pump \<Rightarrow> 'a pump list" and inv :: "'a pump \<Rightarrow> bool"
  assumes inv_new: "inv newPump"
    and inv_push: "inv p \<Longrightarrow> inv (push_item d p)" "inv p \<Longrightarrow> inv (push_signal p)" "inv p \<Longrightarrow> inv (stop p)"
    and inv_run: "inv p \<Longrightarrow> p1 \<in> set (run (run_at p) p) \<Longrightarrow> inv p1"
    and inv_prefix: "inv p \<Longrightarrow> prefix (out p) (pushed p)"
    and inv_open: "inv p \<Longrightarrow> \<not> quit p \<Longrightarrow> all_there p \<and> run_at p \<noteq> PDone"
    and run_awake: "p1 \<in> set (run (run_at p) p) \<Longrightarrow> awake p1"
    and run_work: "p1 \<in> set (run (run_at p) p) \<Longrightarrow> work p1 < work p"
    and run_enabled: "inv p \<Longrightarrow> run_at p \<noteq> PWait \<Longrightarrow> run_at p \<noteq> PDone \<Longrightarrow> run (run_at p) p \<noteq> []"
    and run_wait: "run PWait p = wait_choices p"
    and run_frame: "p1 \<in> set (run (run_at p) p) \<Longrightarrow> pushed p1 = pushed p \<and> quit p1 = quit p"
begin

lemma pump_invariant: "pump_reach run p \<Longrightarrow> inv p \<and> awake p"
proof (induction rule: pump_reach.induct)
  case pump_init
  then show ?case by (simp add: inv_new) (simp add: newPump_def awake_def)
next
  case (pump_next p p1)
  from pump_next.hyps(2) show ?case
  proof cases
    case (push_step d)
    then show ?thesis using pump_next.IH inv_push by (auto simp: push_item_def awake_def)
  next
    case stop_step
    then show ?thesis using pump_next.IH inv_push by (auto simp: stop_def awake_def)
  next
    case inner_step
    then consider "p1 \<in> set (run (run_at p) p)" | "p1 = push_signal p" by (auto simp: inner_def split: if_splits)
    then show ?thesis using pump_next.IH inv_push inv_run run_awake
      by cases (auto simp: push_signal_def awake_def)
  qed
qed

lemma out_is_prefix: "pump_reach run p \<Longrightarrow> prefix (out p) (pushed p)"
  by (simp add: pump_invariant inv_prefix)

lemma inner_decreases: "p1 \<in> set (inner run p) \<Longrightarrow> work p1 < work p"
proof -
  have "work (push_signal p) < work p" if "signalling p > 0" using that by (auto simp: work_def push_signal_def)
  then show "p1 \<in> set (inner run p) \<Longrightarrow> ?thesis" using run_work by (auto simp: inner_def split: if_splits)
qed

lemma inner_keeps: "p1 \<in> set (inner run p) \<Longrightarrow> pushed p1 = pushed p \<and> quit p1 = quit p"
  using run_frame by (auto simp: inner_def push_signal_def split: if_splits)

lemma stuck_is_done:
  assumes "pump_reach run p" "inner run p = []" "\<not> quit p"
  shows "out p = pushed p"
proof -
  have inv: "inv p" "awake p" using pump_invariant [OF assms(1)] by simp_all
  have no: "run (run_at p) p = []" "signalling p = 0" using assms(2) by (auto simp: inner_def split: if_splits)
  then have w: "run_at p = PWait" using run_enabled [of p] inv_open inv assms(3) by auto
  then have "\<not> signal p" using no run_wait [of p] by (auto simp: wait_choices_def split: if_splits)
  then show ?thesis using inv_open [OF inv(1) assms(3)] inv(2) w no by (auto simp: all_there_def awake_def)
qed

lemma runs_down:
  assumes "pump_reach run p" "(inner_rel run ^^ n) p p1"
  shows "pump_reach run p1 \<and> n + work p1 \<le> work p \<and> pushed p1 = pushed p \<and> quit p1 = quit p"
  using assms(2)
proof (induction n arbitrary: p1)
  case (Suc n)
  then obtain p2 where "(inner_rel run ^^ n) p p2" "inner_rel run p2 p1" by auto
  then have p2: "(inner_rel run ^^ n) p p2" "p1 \<in> set (inner run p2)" by (simp_all add: inner_rel_def)
  then show ?case using Suc.IH [OF p2(1)] inner_keeps [OF p2(2)] inner_decreases [OF p2(2)]
    by (auto intro: pump_next inner_step)
qed (use assms(1) in simp)

lemma comes_to_rest:
  assumes "pump_reach run p" "(inner_rel run ^^ n) p p1"
  shows "n \<le> work p \<and> prefix (out p1) (pushed p) \<and> (inner run p1 = [] \<and> \<not> quit p \<longrightarrow> out p1 = pushed p)"
  using runs_down [OF assms] out_is_prefix stuck_is_done by fastforce

end

lemma prefix_of_append: "xs @ ys = zs \<Longrightarrow> prefix xs zs"
  by auto

lemmas pump_unfold = all_there_def awake_def work_def top_of_loop_def wait_choices_def newPump_def push_item_def push_signal_def stop_def

definition delivery_inv :: "'a pump \<Rightarrow> bool" where
  "delivery_inv p \<longleftrightarrow> (\<forall>d. run_at p \<noteq> PRun d) \<and>
     (all_there p \<or> quit p \<and> run_at p = PDone \<and> prefix (out p) (pushed p)) \<and> (run_at p = PDone \<longrightarrow> quit p)"

definition event_inv :: "'a pump \<Rightarrow> bool" where
  "event_inv p \<longleftrightarrow> (all_there p \<and> run_at p \<noteq> PDone \<or>
     quit p \<and> prefix (out p) (pushed p) \<and> (\<forall>f. run_at p \<noteq> PRun f))"

interpretation dp: pump_loop delivery_run delivery_inv
proof unfold_locales
  fix p p1 :: "'a pump" assume s: "p1 \<in> set (delivery_run (run_at p) p)"
  show "pushed p1 = pushed p \<and> quit p1 = quit p" using s
    by (cases "run_at p") (auto simp: pump_unfold split: list.splits if_splits)
  show "delivery_inv p \<Longrightarrow> delivery_inv p1" using s
    by (cases "run_at p") (auto simp: delivery_inv_def pump_unfold split: list.splits if_splits intro: prefix_of_append)
  show "awake p1" using s by (cases "run_at p") (auto simp: pump_unfold split: list.splits if_splits)
  show "work p1 < work p" using s by (cases "run_at p") (auto simp: pump_unfold split: list.splits if_splits)
next
  fix p :: "'a pump" assume i: "delivery_inv p"
  show "run_at p \<noteq> PWait \<Longrightarrow> run_at p \<noteq> PDone \<Longrightarrow> delivery_run (run_at p) p \<noteq> []"
    using i by (cases "run_at p") (auto simp: delivery_inv_def)
  show "prefix (out p) (pushed p)" using i by (auto simp: delivery_inv_def all_there_def intro: prefix_of_append)
  show "\<not> quit p \<Longrightarrow> all_there p \<and> run_at p \<noteq> PDone" using i by (auto simp: delivery_inv_def)
qed (auto simp: delivery_inv_def pump_unfold)

interpretation ep: pump_loop event_run event_inv
proof unfold_locales
  fix p p1 :: "'a pump" assume s: "p1 \<in> set (event_run (run_at p) p)"
  show "pushed p1 = pushed p \<and> quit p1 = quit p" using s
    by (cases "run_at p") (auto simp: pump_unfold split: list.splits if_splits)
  show "event_inv p \<Longrightarrow> event_inv p1" using s
    by (cases "run_at p") (auto simp: event_inv_def pump_unfold split: list.splits if_splits intro: prefix_of_append)
  show "awake p1" using s by (cases "run_at p") (auto simp: pump_unfold split: list.splits if_splits)
  show "work p1 < work p" using s by (cases "run_at p") (auto simp: pump_unfold split: list.splits if_splits)
next
  fix p :: "'a pump" assume i: "event_inv p"
  show "run_at p \<noteq> PWait \<Longrightarrow> run_at p \<noteq> PDone \<Longrightarrow> event_run (run_at p) p \<noteq> []" by (cases "run_at p") auto
  show "prefix (out p) (pushed p)" using i by (auto simp: event_inv_def all_there_def intro: prefix_of_append)
  show "\<not> quit p \<Longrightarrow> all_there p \<and> run_at p \<noteq> PDone" using i by (auto simp: event_inv_def)
qed (auto simp: event_inv_def pump_unfold)

section \<open>Properties\<close>

text \<open>
  C37. Whatever the interleaving of pushes, tokens and the stop, a consumer's delivery pump
  and a channel's event pump pass items on in the order they were pushed, without a gap; left to itself from any state
  it comes to rest after a bounded number of steps; and at rest, unless it was stopped, it
  has passed on everything pushed so far: no wake-up is lost.
\<close>

theorem pump_delivers_everything:
  assumes "run \<in> {delivery_run, event_run}" "pump_reach run p" "(inner_rel run ^^ n) p p1"
  shows "n \<le> work p \<and> prefix (out p1) (pushed p) \<and> (inner run p1 = [] \<and> \<not> quit p \<longrightarrow> out p1 = pushed p)"
  using assms dp.comes_to_rest ep.comes_to_rest by blast

text \<open>A delivery pushed while the loop is about to wait.\<close>

definition demo_pump :: "nat pump" where
  "demo_pump = push_item 7 (top_of_loop newPump)"

lemma demo_pump_reach:
  "top_of_loop newPump \<in> set (run PLock newPump) \<Longrightarrow> pump_reach run demo_pump"
  unfolding demo_pump_def
  by (intro pump_next [OF _ push_step] pump_next [OF pump_init inner_step]) (simp add: inner_def newPump_def)

theorem pump_delivers_everything_witness:
  "\<exists>p1. (inner_rel delivery_run ^^ 5) demo_pump p1 \<and> inner delivery_run p1 = [] \<and> out p1 = pushed demo_pump \<and> out p1 = [7]"
proof -
  let ?p = "\<lambda>s a i n o'. \<lparr>items = i, signal = s, quit = False, run_at = a, signalling = n, pushed = [7::nat], out = o'\<rparr>"
  have "inner_rel delivery_run demo_pump (?p True PWait [7] 0 [])"
    "inner_rel delivery_run (?p True PWait [7] 0 []) (?p False PLock [7] 0 [])"
    "inner_rel delivery_run (?p False PLock [7] 0 []) (?p False (PSend 7) [] 0 [])"
    "inner_rel delivery_run (?p False (PSend 7) [] 0 []) (?p False PLock [] 0 [7])"
    "inner_rel delivery_run (?p False PLock [] 0 [7]) (?p False PWait [] 0 [7])"
    by (simp_all add: inner_rel_def inner_def demo_pump_def pump_unfold)
  then have r: "(inner_rel delivery_run ^^ 5) demo_pump (?p False PWait [] 0 [7])"
    by (auto simp: numeral_eq_Suc relcompp_apply)
  have "pump_reach delivery_run demo_pump" by (rule demo_pump_reach) simp
  note pump_delivers_everything [OF _ this r]
  moreover have "inner delivery_run (?p False PWait [] 0 [7]) = []" "\<not> quit demo_pump" "pushed demo_pump = [7]"
    by (simp_all add: inner_def demo_pump_def pump_unfold)
  ultimately show ?thesis using r by (intro exI [of _ "?p False PWait [] 0 [7]"]) simp
qed

end
