(* ===== verification/Dispatcher.thy ===== *)
theory Dispatcher imports PubChan Streams begin

text \<open>
  The caller side of RPC, \<open>dispatcher.go\<close>: the tables of calls and streams awaiting replies,
  the goroutines that read replies and fail what is pending, and the calls and streams
  themselves, interleaved step by step. A step is one critical section of \<open>d.mu\<close> or of a
  stream's mutex, or one communication. Pending calls and client streams are objects with
  an address, allocated from \<open>d_fresh\<close>; what a publish reports, and whether it put the
  message on the wire, is what a publishing channel may report in \<^verbatim>\<open>PubChan\<close>.
\<close>

section \<open>State\<close>

type_synonym callResult = "err + bytes"

record dispatcher =
  d_calls :: "(string \<times> nat) list"
  d_streams :: "(string \<times> nat) list"
  d_done :: "nat \<Rightarrow> callResult option"
  d_stream :: "nat \<Rightarrow> clientStream"
  d_bufferedBytes :: int
  d_pub :: "nat option"
  d_consumeCh :: "nat option"
  d_replyQueue :: string
  d_replyGen :: nat
  d_closed :: bool
  d_fresh :: nat

text \<open>An address that holds no stream reads like a released one.\<close>

definition no_stream :: clientStream where
  "no_stream = (newStream '''' 0 0 0)\<lparr>cl_ended := True, cl_err := Some (Sentinel errStreamReleased)\<rparr>"

definition newDispatcher :: dispatcher where
  "newDispatcher =
     \<lparr>d_calls = [], d_streams = [], d_done = \<lambda>_. None, d_stream = \<lambda>_. no_stream, d_bufferedBytes = 0,
      d_pub = None, d_consumeCh = None, d_replyQueue = '''', d_replyGen = 0, d_closed = False, d_fresh = 0\<rparr>"

text \<open>\<open>pendingCall.resolve\<close>: the channel holds one result, and the first outcome wins.\<close>

definition resolve_call :: "nat \<Rightarrow> callResult \<Rightarrow> dispatcher \<Rightarrow> dispatcher" where
  "resolve_call c r d = (case d_done d c of None \<Rightarrow> d\<lparr>d_done := (d_done d)(c := Some r)\<rparr> | Some _ \<Rightarrow> d)"

text \<open>An operation of a stream, which also moves the process-wide byte count.\<close>

definition on_stream :: "nat \<Rightarrow> (clientStream \<times> int \<Rightarrow> clientStream \<times> int) \<Rightarrow> dispatcher \<Rightarrow> dispatcher" where
  "on_stream s f d =
     (let (x, n) = f (d_stream d s, d_bufferedBytes d)
      in d\<lparr>d_stream := (d_stream d)(s := x), d_bufferedBytes := n\<rparr>)"

definition newPendingCall :: "string \<Rightarrow> dispatcher \<Rightarrow> nat \<times> dispatcher" where
  "newPendingCall i d =
     (d_fresh d, d\<lparr>d_calls := AList.update i (d_fresh d) (d_calls d), d_done := (d_done d)(d_fresh d := None),
        d_fresh := d_fresh d + 1\<rparr>)"

definition register_stream :: "string \<Rightarrow> int \<Rightarrow> int \<Rightarrow> int \<Rightarrow> dispatcher \<Rightarrow> nat \<times> dispatcher" where
  "register_stream i chunks bytes tot d =
     (d_fresh d, d\<lparr>d_streams := AList.update i (d_fresh d) (d_streams d),
        d_stream := (d_stream d)(d_fresh d := newStream i chunks bytes tot), d_fresh := d_fresh d + 1\<rparr>)"

definition forget :: "string \<Rightarrow> nat \<Rightarrow> dispatcher \<Rightarrow> dispatcher" where
  "forget i c d = (if map_of (d_calls d) i = Some c then d\<lparr>d_calls := AList.delete i (d_calls d)\<rparr> else d)"

text \<open>The first half of \<open>release\<close>, under \<open>d.mu\<close>; the second is \<open>release_stream\<close>.\<close>

definition unlist_stream :: "string \<Rightarrow> nat \<Rightarrow> dispatcher \<Rightarrow> dispatcher" where
  "unlist_stream i s d = (if map_of (d_streams d) i = Some s then d\<lparr>d_streams := AList.delete i (d_streams d)\<rparr> else d)"

section \<open>Replies and failures\<close>

text \<open>
  What the background goroutines do, one task after another: \<open>route\<close> looks a reply up and
  then hands it over; \<open>failPending\<close> empties the tables and then fails what was in them;
  \<open>connectionLost\<close> and \<open>close\<close> do so and forget the channels.
\<close>

datatype task =
    Route Delivery
  | Resolve nat callResult
  | Push nat Delivery
  | FailPending err
  | FailStream nat err
  | ForgetChannels
  | MarkClosed
  | Install nat nat string
  | ReplacePub nat
  | Repair bool bool bool "(nat \<times> nat \<times> string) option"
  | Recover nat bool "(nat \<times> nat \<times> string) option"

definition route_reply :: "Delivery \<Rightarrow> dispatcher \<Rightarrow> task list \<times> dispatcher" where
  "route_reply dl d =
     (let i = d_CorrelationId dl in
      case map_of (d_streams d) i of
        Some s \<Rightarrow> ([Push s dl], d)
      | None \<Rightarrow>
          (case map_of (d_calls d) i of
             None \<Rightarrow> ([], d)
           | Some c \<Rightarrow> ([Resolve c (Inr (d_Body dl))], d\<lparr>d_calls := AList.delete i (d_calls d)\<rparr>)))"

definition failPending :: "err \<Rightarrow> dispatcher \<Rightarrow> task list \<times> dispatcher" where
  "failPending e d =
     (map (\<lambda>(i, c). Resolve c (Inl e)) (d_calls d) @ map (\<lambda>(i, s). FailStream s e) (d_streams d),
      d\<lparr>d_calls := [], d_streams := []\<rparr>)"

definition forget_channels :: "dispatcher \<Rightarrow> dispatcher" where
  "forget_channels d = d\<lparr>d_pub := None, d_consumeCh := None, d_replyQueue := ''''\<rparr>"

text \<open>
  The end of \<open>restoreTopology\<close>, which installs a new reply queue and channels unless the
  dispatcher was closed meanwhile, and of \<open>repair\<close>, which replaces the publishing channel.
\<close>

definition install :: "nat \<Rightarrow> nat \<Rightarrow> string \<Rightarrow> dispatcher \<Rightarrow> dispatcher" where
  "install pub ch queue d =
     (if d_closed d then d
      else d\<lparr>d_replyGen := d_replyGen d + 1, d_pub := Some pub, d_consumeCh := Some ch, d_replyQueue := queue\<rparr>)"

definition replace_pub :: "nat \<Rightarrow> dispatcher \<Rightarrow> dispatcher" where
  "replace_pub pub d = d\<lparr>d_pub := Some pub\<rparr>"

text \<open>
  \<open>repair\<close>: nothing when someone else repaired it, when a reconnection is under way or when the
  connection is dead; otherwise the whole topology when the reply queue is missing, and the
  publishing channel alone when only that is. \<open>new\<close> is what the broker hands out, if it does.
\<close>

definition repair :: "bool \<Rightarrow> bool \<Rightarrow> bool \<Rightarrow> (nat \<times> nat \<times> string) option \<Rightarrow> dispatcher \<Rightarrow> task list" where
  "repair pubClosed ready connClosed new d =
     (if d_pub d \<noteq> None \<and> \<not> pubClosed \<and> d_replyQueue d \<noteq> '''' then []
      else if \<not> ready \<or> connClosed then []
      else case new of
        None \<Rightarrow> []
      | Some (pub, ch, queue) \<Rightarrow> if d_replyQueue d = '''' then [Install pub ch queue] else [ReplacePub pub])"

text \<open>
  One attempt of \<open>tryRecoverReplies\<close> for the reply consumer of generation \<open>gen\<close>: it gives way to
  whoever rebuilt it, retires the dead consumer, and rebuilds.
\<close>

definition tryRecoverReplies :: "nat \<Rightarrow> bool \<Rightarrow> (nat \<times> nat \<times> string) option \<Rightarrow> dispatcher \<Rightarrow> task list" where
  "tryRecoverReplies gen ready new d =
     (if d_closed d \<or> d_replyGen d \<noteq> gen \<or> \<not> ready then []
      else (if d_consumeCh d \<noteq> None then [FailPending (Sentinel ErrDisconnected), ForgetChannels] else [])
        @ (case new of None \<Rightarrow> [] | Some (pub, ch, queue) \<Rightarrow> [Install pub ch queue]))"

fun exec :: "(float64 \<Rightarrow> int) \<Rightarrow> task \<Rightarrow> dispatcher \<Rightarrow> task list \<times> dispatcher" where
  "exec conv (Route dl) d = route_reply dl d"
| "exec conv (Resolve c r) d = ([], resolve_call c r d)"
| "exec conv (Push s dl) d = ([], on_stream s (push conv dl) d)"
| "exec conv (FailPending e) d = failPending e d"
| "exec conv (FailStream s e) d = ([], on_stream s (fail e) d)"
| "exec conv ForgetChannels d = ([], forget_channels d)"
| "exec conv MarkClosed d = ([], (forget_channels d)\<lparr>d_closed := True\<rparr>)"
| "exec conv (Install pub ch queue) d = ([], install pub ch queue d)"
| "exec conv (ReplacePub pub) d = ([], replace_pub pub d)"
| "exec conv (Repair pubClosed ready connClosed new) d = (repair pubClosed ready connClosed new d, d)"
| "exec conv (Recover gen ready new) d = (tryRecoverReplies gen ready new d, d)"

definition receive :: "Delivery list \<Rightarrow> task list" where
  "receive deliveries = map Route deliveries"

definition connectionLost :: "task list" where
  "connectionLost = [FailPending (Sentinel ErrDisconnected), ForgetChannels]"

definition close_dispatcher :: "task list" where
  "close_dispatcher = [MarkClosed, FailPending (Sentinel ErrClosed)]"

section \<open>Calls\<close>

datatype call_phase =
    CChannel
  | CRegister string
  | CPublish "nat option"
  | CForget "nat option" err
  | CWait nat
  | CGiveUp nat err
  | CDone "err + bytes option"

record call =
  c_id :: string
  c_key :: string
  c_noReply :: bool
  c_phase :: call_phase
  c_attempts :: "(err option \<times> bool) list"

text \<open>The limit a call runs under: 0 is none. \<open>has\<close>: the context has a deadline of its own.\<close>

definition call_limit :: "int \<Rightarrow> bool \<Rightarrow> int \<Rightarrow> int" where
  "call_limit timeout has rpcTimeout = (if \<not> has \<and> timeout = 0 then rpcTimeout else timeout)"

definition timeout_error :: "call \<Rightarrow> err \<Rightarrow> err" where
  "timeout_error c e = (if errors_is e ctxDeadlineExceeded then rpcTimeoutError (c_key c) (c_id c) e else e)"

text \<open>\<open>channel\<close>, once the session is ready: what it hands out, or that it is closed; otherwise it repairs and tries again.\<close>

definition usable_channel :: "bool \<Rightarrow> dispatcher \<Rightarrow> (err + nat \<times> string) option" where
  "usable_channel pubClosed d =
     (if d_closed d then Some (Inl (Sentinel ErrClosed))
      else case d_pub d of
        None \<Rightarrow> None
      | Some p \<Rightarrow> if \<not> pubClosed \<and> d_replyQueue d \<noteq> '''' then Some (Inr (p, d_replyQueue d)) else None)"

text \<open>What a publish may report, and whether the message was written.\<close>

definition publish_outcome :: "err option \<Rightarrow> bool \<Rightarrow> bool" where
  "publish_outcome r w \<longleftrightarrow>
     (\<exists>timeout cap s i. preachable timeout cap s \<and> i < length (pc_pubs s) \<and>
        pb_phase (pc_pubs s ! i) = Returned r \<and> pb_written (pc_pubs s ! i) = w)"

definition gone :: "err \<Rightarrow> bool" where
  "gone e = errors_is_val e errChannelGone"

definition at_call :: "call_phase \<Rightarrow> call \<Rightarrow> call" where
  "at_call p c = c\<lparr>c_phase := p\<rparr>"

definition attempted :: "err option \<Rightarrow> bool \<Rightarrow> call \<Rightarrow> call" where
  "attempted r w c = c\<lparr>c_attempts := c_attempts c @ [(r, w)]\<rparr>"

definition forget_option :: "string \<Rightarrow> nat option \<Rightarrow> dispatcher \<Rightarrow> dispatcher" where
  "forget_option i co d = (case co of None \<Rightarrow> d | Some c \<Rightarrow> forget i c d)"

definition after_publish :: "call \<Rightarrow> nat option \<Rightarrow> call_phase" where
  "after_publish c co = (case co of None \<Rightarrow> CDone (Inr None) | Some n \<Rightarrow> CWait n)"

definition after_forget :: "call \<Rightarrow> err \<Rightarrow> call_phase" where
  "after_forget c e = (if gone e then CChannel else CDone (Inl (timeout_error c e)))"

inductive call_step :: "call \<times> dispatcher \<Rightarrow> call \<times> dispatcher \<Rightarrow> bool" where
  c_channel: "c_phase c = CChannel \<Longrightarrow> usable_channel pubClosed d = Some (Inr (p, replyTo)) \<Longrightarrow>
    call_step (c, d) (at_call (CRegister replyTo) c, d)"
| c_closed: "c_phase c = CChannel \<Longrightarrow> usable_channel pubClosed d = Some (Inl e) \<Longrightarrow>
    call_step (c, d) (at_call (CDone (Inl (timeout_error c e))) c, d)"
| c_not_ready: "c_phase c = CChannel \<Longrightarrow> call_step (c, d) (at_call (CDone (Inl (timeout_error c e))) c, d)"
| c_register: "c_phase c = CRegister replyTo \<Longrightarrow> \<not> c_noReply c \<Longrightarrow> newPendingCall (c_id c) d = (n, d1) \<Longrightarrow>
    call_step (c, d) (at_call (CPublish (Some n)) c, d1)"
| c_no_reply: "c_phase c = CRegister replyTo \<Longrightarrow> c_noReply c \<Longrightarrow> call_step (c, d) (at_call (CPublish None) c, d)"
| c_published: "c_phase c = CPublish co \<Longrightarrow> publish_outcome None w \<Longrightarrow>
    call_step (c, d) (at_call (after_publish c co) (attempted None w c), d)"
| c_failed: "c_phase c = CPublish co \<Longrightarrow> publish_outcome (Some e) w \<Longrightarrow>
    call_step (c, d) (at_call (CForget co e) (attempted (Some e) w c), d)"
| c_forget: "c_phase c = CForget co e \<Longrightarrow>
    call_step (c, d) (at_call (after_forget c e) c, forget_option (c_id c) co d)"
| c_reply: "c_phase c = CWait n \<Longrightarrow> d_done d n = Some r \<Longrightarrow>
    call_step (c, d) (at_call (CDone (map_sum id Some r)) c, d\<lparr>d_done := (d_done d)(n := None)\<rparr>)"
| c_ctx: "c_phase c = CWait n \<Longrightarrow> e \<in> {Sentinel ctxCanceled, Sentinel ctxDeadlineExceeded} \<Longrightarrow>
    call_step (c, d) (at_call (CGiveUp n e) c, d)"
| c_give_up: "c_phase c = CGiveUp n e \<Longrightarrow>
    call_step (c, d) (at_call (CDone (Inl (timeout_error c e))) c, forget (c_id c) n d)"

section \<open>Streams\<close>

text \<open>
  \<open>publishStream\<close>, the loop of \<open>stream\<close> and its deferred calls: the cancel notice unless the
  stream completed, then the release.
\<close>

datatype stream_end = Again | End "err option"

datatype stream_phase =
    SChannel
  | SRegister string
  | SPublish nat
  | SOpen nat
  | SWait nat
  | SCancel nat "err option"
  | SUnlist nat stream_end
  | SRelease nat stream_end
  | SDone "err option"

record streamer =
  s_id :: string
  s_limits :: "int \<times> int \<times> int"
  s_phase :: stream_phase
  s_yielded :: "bytes list"
  s_cancels :: nat

definition at_stream :: "stream_phase \<Rightarrow> streamer \<Rightarrow> streamer" where
  "at_stream p s = s\<lparr>s_phase := p\<rparr>"

definition ends :: "nat \<Rightarrow> bool \<Rightarrow> err option \<Rightarrow> streamer \<Rightarrow> streamer" where
  "ends n completed e = at_stream (if completed then SUnlist n (End e) else SCancel n e)"

definition idle_error :: "duration \<Rightarrow> string \<Rightarrow> err" where
  "idle_error idle i =
     wrap1 (sentinel_text ErrStreamTimeout @ '': nothing for '' @ duration_string idle @ '' (stream '' @ i @ '')'')
       (Sentinel ErrStreamTimeout)"

text \<open>
  One turn of the loop after \<open>next\<close>: \<open>ctx\<close> is the context's error by then, \<open>go_on\<close> whether the
  caller's loop body goes on.
\<close>

definition turn :: "nat \<Rightarrow> err option \<Rightarrow> bool \<Rightarrow> bytes option \<times> bool \<times> err option \<Rightarrow> clientStream \<Rightarrow> streamer \<Rightarrow> streamer" where
  "turn n ctx go_on = (\<lambda>(chunk, done, err) x s.
     case err of
       Some e \<Rightarrow> ends n (errors_is e ErrDisconnected \<or> errors_is e ErrClosed) err s
     | None \<Rightarrow>
         (case chunk of
            Some b \<Rightarrow>
              (case ctx of
                 Some e \<Rightarrow> ends n (finished x) ctx s
               | None \<Rightarrow>
                   let s1 = s\<lparr>s_yielded := s_yielded s @ [b]\<rparr> in if go_on then s1 else ends n False None s1)
          | None \<Rightarrow> if done then ends n True None s else at_stream (SWait n) s))"

definition after_release :: "stream_end \<Rightarrow> stream_phase" where
  "after_release k = (case k of Again \<Rightarrow> SChannel | End e \<Rightarrow> SDone e)"

inductive stream_step :: "streamer \<times> dispatcher \<Rightarrow> streamer \<times> dispatcher \<Rightarrow> bool" where
  s_channel: "s_phase s = SChannel \<Longrightarrow> usable_channel pubClosed d = Some (Inr (p, replyTo)) \<Longrightarrow>
    stream_step (s, d) (at_stream (SRegister replyTo) s, d)"
| s_no_channel: "s_phase s = SChannel \<Longrightarrow> stream_step (s, d) (at_stream (SDone (Some e)) s, d)"
| s_register: "s_phase s = SRegister replyTo \<Longrightarrow> s_limits s = (mc, mb, mt) \<Longrightarrow>
    register_stream (s_id s) mc mb mt d = (n, d1) \<Longrightarrow> stream_step (s, d) (at_stream (SPublish n) s, d1)"
| s_published: "s_phase s = SPublish n \<Longrightarrow> publish_outcome None w \<Longrightarrow> stream_step (s, d) (at_stream (SOpen n) s, d)"
| s_failed: "s_phase s = SPublish n \<Longrightarrow> publish_outcome (Some e) w \<Longrightarrow>
    stream_step (s, d) (at_stream (SUnlist n (if gone e then Again else End (Some e))) s, d)"
| s_turn: "s_phase s = SOpen n \<Longrightarrow> next_chunk (d_stream d n, d_bufferedBytes d) = (r, x, b) \<Longrightarrow>
    stream_step (s, d) (turn n ctx go_on r x s, d\<lparr>d_stream := (d_stream d)(n := x), d_bufferedBytes := b\<rparr>)"
| s_notify: "s_phase s = SWait n \<Longrightarrow> stream_step (s, d) (at_stream (SOpen n) s, d)"
| s_idle: "s_phase s = SWait n \<Longrightarrow> stream_step (s, d) (ends n False (Some (idle_error idle (s_id s))) s, d)"
| s_ctx: "s_phase s = SWait n \<Longrightarrow> e \<in> {Sentinel ctxCanceled, Sentinel ctxDeadlineExceeded} \<Longrightarrow>
    stream_step (s, d) (ends n (finished (d_stream d n)) (Some e) s, d)"
| s_cancel: "s_phase s = SCancel n e \<Longrightarrow>
    stream_step (s, d) (at_stream (SUnlist n (End e)) (s\<lparr>s_cancels := s_cancels s + (if d_pub d = None \<or> pubClosed then 0 else 1)\<rparr>), d)"
| s_unlist: "s_phase s = SUnlist n k \<Longrightarrow> stream_step (s, d) (at_stream (SRelease n k) s, unlist_stream (s_id s) n d)"
| s_release: "s_phase s = SRelease n k \<Longrightarrow>
    stream_step (s, d) (at_stream (after_release k) s, on_stream n release_stream d)"

section \<open>The whole\<close>

record rpc =
  r_d :: dispatcher
  r_calls :: "nat \<Rightarrow> call"
  r_streams :: "nat \<Rightarrow> streamer"
  r_procs :: "task list list"
  r_routed :: "Delivery list"

definition new_call :: "string \<Rightarrow> string \<Rightarrow> bool \<Rightarrow> call" where
  "new_call i key noReply = \<lparr>c_id = i, c_key = key, c_noReply = noReply, c_phase = CChannel, c_attempts = []\<rparr>"

definition new_streamer :: "string \<Rightarrow> int \<times> int \<times> int \<Rightarrow> streamer" where
  "new_streamer i limits = \<lparr>s_id = i, s_limits = limits, s_phase = SChannel, s_yielded = [], s_cancels = 0\<rparr>"

text \<open>Calls and streams are numbered; \<open>ids\<close> and \<open>sids\<close> give their correlation ids.\<close>

definition start ::
  "(nat \<Rightarrow> string) \<Rightarrow> (nat \<Rightarrow> string) \<Rightarrow> (nat \<Rightarrow> string \<times> bool) \<Rightarrow> (nat \<Rightarrow> int \<times> int \<times> int) \<Rightarrow> rpc" where
  "start ids sids what limits =
     \<lparr>r_d = newDispatcher, r_calls = \<lambda>k. new_call (ids k) (fst (what k)) (snd (what k)),
      r_streams = \<lambda>k. new_streamer (sids k) (limits k), r_procs = [], r_routed = []\<rparr>"

definition is_route :: "task \<Rightarrow> Delivery list" where
  "is_route t = (case t of Route dl \<Rightarrow> [dl] | _ \<Rightarrow> [])"

text \<open>What may run beside the calls: readers, the supervisor, a close, repairs and recoveries.\<close>

definition background :: "task list set" where
  "background =
     {receive dls |dls. True} \<union> {connectionLost, close_dispatcher} \<union> {[Install pub ch queue] |pub ch queue. True} \<union>
     {[Repair pubClosed ready connClosed new] |pubClosed ready connClosed new. True} \<union>
     {[Recover gen ready new] |gen ready new. True}"

inductive rpc_step :: "(float64 \<Rightarrow> int) \<Rightarrow> rpc \<Rightarrow> rpc \<Rightarrow> bool" for conv where
  r_spawn: "p \<in> background \<Longrightarrow> rpc_step conv y (y\<lparr>r_procs := r_procs y @ [p]\<rparr>)"
| r_exec: "k < length (r_procs y) \<Longrightarrow> r_procs y ! k = t # ts \<Longrightarrow> exec conv t (r_d y) = (us, d1) \<Longrightarrow>
    rpc_step conv y (y\<lparr>r_d := d1, r_procs := (r_procs y)[k := us @ ts], r_routed := r_routed y @ is_route t\<rparr>)"
| r_call: "call_step (r_calls y k, r_d y) (c1, d1) \<Longrightarrow> rpc_step conv y (y\<lparr>r_d := d1, r_calls := (r_calls y)(k := c1)\<rparr>)"
| r_stream: "stream_step (r_streams y k, r_d y) (s1, d1) \<Longrightarrow>
    rpc_step conv y (y\<lparr>r_d := d1, r_streams := (r_streams y)(k := s1)\<rparr>)"

inductive rpc_reach :: "(float64 \<Rightarrow> int) \<Rightarrow> rpc \<Rightarrow> rpc \<Rightarrow> bool" for conv y0 where
  rpc_start: "rpc_reach conv y0 y0"
| rpc_next: "rpc_reach conv y0 y \<Longrightarrow> rpc_step conv y y1 \<Longrightarrow> rpc_reach conv y0 y1"

end
