(* ===== verification/DispatcherInv.thy ===== *)
theory DispatcherInv imports Dispatcher begin

text \<open>
  What the dispatcher guarantees in every interleaving: a call is answered by a reply of its
  own, is written at most once, is never lost by the table while it waits and never left in
  it afterwards; and the process-wide byte count is exactly what the open streams hold.
\<close>

section \<open>Attempts\<close>

lemma gone_outcome: "publish_outcome (Some e) w \<Longrightarrow> gone e \<Longrightarrow> \<not> w"
  unfolding publish_outcome_def gone_def using gone_not_written by blast

text \<open>While a call may still publish, nothing of it has been written; afterwards at most one message has.\<close>

definition unwritten :: "call \<Rightarrow> bool" where
  "unwritten c \<longleftrightarrow> (\<forall>(r, w) \<in> set (c_attempts c). \<not> w)"

definition written_once :: "call \<Rightarrow> bool" where
  "written_once c \<longleftrightarrow> length (filter snd (c_attempts c)) \<le> 1"

definition attempts_ok :: "call \<Rightarrow> bool" where
  "attempts_ok c \<longleftrightarrow>
     (case c_phase c of
        CChannel \<Rightarrow> unwritten c
      | CRegister q \<Rightarrow> unwritten c
      | CPublish co \<Rightarrow> unwritten c
      | CForget co e \<Rightarrow> written_once c \<and> (gone e \<longrightarrow> unwritten c)
      | _ \<Rightarrow> written_once c)"

lemma unwritten_once: "unwritten c \<Longrightarrow> written_once (attempted r w c)" "unwritten c \<Longrightarrow> written_once c"
proof -
  have "filter snd (c_attempts c) = []" if "unwritten c" using that by (auto simp: unwritten_def filter_empty_conv)
  then show "unwritten c \<Longrightarrow> written_once (attempted r w c)" "unwritten c \<Longrightarrow> written_once c"
    by (auto simp: written_once_def attempted_def)
qed

lemma attempts_phase [simp]: "unwritten (at_call p c) = unwritten c" "written_once (at_call p c) = written_once c"
  by (simp_all add: unwritten_def written_once_def at_call_def)

lemma phase_at_call [simp]: "c_phase (at_call p c) = p" "c_id (at_call p c) = c_id c" "c_id (attempted r w c) = c_id c"
  by (simp_all add: at_call_def attempted_def)

lemma attempts_step: "call_step x x1 \<Longrightarrow> attempts_ok (fst x) \<Longrightarrow> attempts_ok (fst x1)"
proof (induction rule: call_step.induct)
  case (c_failed c co e w d)
  then have "gone e \<longrightarrow> unwritten (attempted (Some e) w c)"
    using gone_outcome by (auto simp: attempts_ok_def unwritten_def attempted_def)
  then show ?case using c_failed by (simp add: attempts_ok_def unwritten_once)
next
  case (c_published c co w d)
  then show ?case by (simp add: attempts_ok_def unwritten_once after_publish_def split: option.split)
next
  case (c_forget c co e d)
  then show ?case by (simp add: attempts_ok_def after_forget_def)
qed (auto simp: attempts_ok_def unwritten_once)

section \<open>The table of calls\<close>

fun held_call :: "call_phase \<Rightarrow> nat option" where
  "held_call (CPublish co) = co"
| "held_call (CForget co e) = co"
| "held_call (CWait n) = Some n"
| "held_call (CGiveUp n e) = Some n"
| "held_call _ = None"

definition todo :: "rpc \<Rightarrow> task set" where
  "todo y = set (concat (r_procs y))"

definition holder :: "rpc \<Rightarrow> nat \<Rightarrow> nat \<Rightarrow> bool" where
  "holder y k n \<longleftrightarrow> held_call (c_phase (r_calls y k)) = Some n"

definition replied :: "rpc \<Rightarrow> nat \<Rightarrow> bytes \<Rightarrow> bool" where
  "replied y k b \<longleftrightarrow> (\<exists>dl \<in> set (r_routed y). d_CorrelationId dl = c_id (r_calls y k) \<and> d_Body dl = b)"

text \<open>A pending call is resolved when its result is there or about to be delivered.\<close>

definition resolved :: "rpc \<Rightarrow> nat \<Rightarrow> callResult \<Rightarrow> bool" where
  "resolved y n r \<longleftrightarrow> d_done (r_d y) n = Some r \<or> Resolve n r \<in> todo y"

text \<open>
  Who holds a pending call, that the table lists only calls that someone holds and that no
  result is on its way to, that a held call is listed or resolved, and that a body comes
  from a reply with the call's own correlation id.
\<close>

definition call_inv :: "(nat \<Rightarrow> string) \<Rightarrow> rpc \<Rightarrow> bool" where
  "call_inv ids y \<longleftrightarrow>
     (\<forall>k. c_id (r_calls y k) = ids k) \<and> distinct (map fst (d_calls (r_d y))) \<and>
     (\<forall>k n. holder y k n \<longrightarrow> n < d_fresh (r_d y)) \<and> (\<forall>k j n. holder y k n \<longrightarrow> holder y j n \<longrightarrow> k = j) \<and>
     (\<forall>i n. map_of (d_calls (r_d y)) i = Some n \<longrightarrow> (\<exists>k. ids k = i \<and> holder y k n)) \<and>
     (\<forall>n r. resolved y n r \<longrightarrow> n < d_fresh (r_d y)) \<and>
     (\<forall>n r i. resolved y n r \<longrightarrow> map_of (d_calls (r_d y)) i \<noteq> Some n) \<and>
     (\<forall>k n. holder y k n \<longrightarrow> map_of (d_calls (r_d y)) (ids k) = Some n \<or> (\<exists>r. resolved y n r)) \<and>
     (\<forall>k n b. holder y k n \<longrightarrow> resolved y n (Inr b) \<longrightarrow> replied y k b) \<and>
     (\<forall>k b. c_phase (r_calls y k) = CDone (Inr (Some b)) \<longrightarrow> replied y k b)"

lemma call_invI:
  assumes "\<And>k. c_id (r_calls y k) = ids k" "distinct (map fst (d_calls (r_d y)))"
    and "\<And>k n. holder y k n \<Longrightarrow> n < d_fresh (r_d y)" "\<And>k j n. holder y k n \<Longrightarrow> holder y j n \<Longrightarrow> k = j"
    and "\<And>i n. map_of (d_calls (r_d y)) i = Some n \<Longrightarrow> \<exists>k. ids k = i \<and> holder y k n"
    and "\<And>n r. resolved y n r \<Longrightarrow> n < d_fresh (r_d y)"
    and "\<And>n r i. resolved y n r \<Longrightarrow> map_of (d_calls (r_d y)) i = Some n \<Longrightarrow> False"
    and "\<And>k n. holder y k n \<Longrightarrow> map_of (d_calls (r_d y)) (ids k) = Some n \<or> (\<exists>r. resolved y n r)"
    and "\<And>k n b. holder y k n \<Longrightarrow> resolved y n (Inr b) \<Longrightarrow> replied y k b"
    and "\<And>k b. c_phase (r_calls y k) = CDone (Inr (Some b)) \<Longrightarrow> replied y k b"
  shows "call_inv ids y"
  unfolding call_inv_def using assms by blast

lemma call_invD:
  assumes "call_inv ids y"
  shows "c_id (r_calls y k) = ids k" "distinct (map fst (d_calls (r_d y)))"
    and "holder y k n \<Longrightarrow> n < d_fresh (r_d y)" "holder y k n \<Longrightarrow> holder y j n \<Longrightarrow> k = j"
    and "map_of (d_calls (r_d y)) i = Some n \<Longrightarrow> \<exists>k. ids k = i \<and> holder y k n"
    and "resolved y n r \<Longrightarrow> n < d_fresh (r_d y)"
    and "resolved y n r \<Longrightarrow> map_of (d_calls (r_d y)) i = Some n \<Longrightarrow> False"
    and "holder y k n \<Longrightarrow> map_of (d_calls (r_d y)) (ids k) = Some n \<or> (\<exists>r. resolved y n r)"
    and "holder y k n \<Longrightarrow> resolved y n (Inr b) \<Longrightarrow> replied y k b"
    and "c_phase (r_calls y k) = CDone (Inr (Some b)) \<Longrightarrow> replied y k b"
  using assms unfolding call_inv_def by blast+

text \<open>Steps that leave the calls alone: a result may arrive that was on its way, and replies be added.\<close>

definition same_calls :: "rpc \<Rightarrow> rpc \<Rightarrow> bool" where
  "same_calls y y1 \<longleftrightarrow>
     d_calls (r_d y1) = d_calls (r_d y) \<and> (\<forall>n r. resolved y1 n r \<longrightarrow> resolved y n r) \<and>
     (\<forall>n r. resolved y n r \<longrightarrow> (\<exists>r. resolved y1 n r)) \<and>
     d_fresh (r_d y) \<le> d_fresh (r_d y1) \<and> r_calls y1 = r_calls y \<and> set (r_routed y) \<subseteq> set (r_routed y1)"

lemma replied_mono: "replied y k b \<Longrightarrow> set (r_routed y) \<subseteq> set (r_routed y1) \<Longrightarrow> c_id (r_calls y1 k) = c_id (r_calls y k) \<Longrightarrow> replied y1 k b"
  unfolding replied_def by auto

lemma call_inv_same:
  assumes inv: "call_inv ids y" and s: "same_calls y y1"
  shows "call_inv ids y1"
proof (rule call_invI)
  have h: "holder y1 k n = holder y k n" for k n using s by (simp add: holder_def same_calls_def)
  have c: "d_calls (r_d y1) = d_calls (r_d y)" "r_calls y1 = r_calls y" "d_fresh (r_d y) \<le> d_fresh (r_d y1)"
    using s by (simp_all add: same_calls_def)
  have r1: "resolved y1 n r \<Longrightarrow> resolved y n r" for n r using s unfolding same_calls_def by blast
  have r2: "resolved y n r \<Longrightarrow> \<exists>r. resolved y1 n r" for n r using s unfolding same_calls_def by blast
  have rep: "replied y k b \<Longrightarrow> replied y1 k b" for k b using s by (auto simp: replied_def same_calls_def)
  note D = call_invD [OF inv]
  show "c_id (r_calls y1 k) = ids k" for k by (simp add: c D)
  show "distinct (map fst (d_calls (r_d y1)))" by (simp add: c D)
  show "holder y1 k n \<Longrightarrow> n < d_fresh (r_d y1)" for k n using D(3) [of k n] c(3) by (simp add: h)
  show "holder y1 k n \<Longrightarrow> holder y1 j n \<Longrightarrow> k = j" for k j n unfolding h by (rule D(4))
  show "map_of (d_calls (r_d y1)) i = Some n \<Longrightarrow> \<exists>k. ids k = i \<and> holder y1 k n" for i n unfolding h c by (rule D(5))
  show "resolved y1 n r \<Longrightarrow> n < d_fresh (r_d y1)" for n r using D(6) [OF r1] c(3) by fastforce
  show "resolved y1 n r \<Longrightarrow> map_of (d_calls (r_d y1)) i = Some n \<Longrightarrow> False" for n r i unfolding c by (rule D(7) [OF r1])
  show "holder y1 k n \<Longrightarrow> map_of (d_calls (r_d y1)) (ids k) = Some n \<or> (\<exists>r. resolved y1 n r)" for k n
    using D(8) r2 unfolding h c by blast
  show "holder y1 k n \<Longrightarrow> resolved y1 n (Inr b) \<Longrightarrow> replied y1 k b" for k n b
    using D(9) rep r1 unfolding h by blast
  show "c_phase (r_calls y1 k) = CDone (Inr (Some b)) \<Longrightarrow> replied y1 k b" for k b
    using D(10) rep unfolding c by blast
qed

text \<open>A reply takes its call out of the table.\<close>

lemma call_inv_route:
  assumes inv: "call_inv ids y" and hit: "map_of (d_calls (r_d y)) i = Some c"
    and d: "d_calls (r_d y1) = AList.delete i (d_calls (r_d y))" "d_fresh (r_d y1) = d_fresh (r_d y)" "r_calls y1 = r_calls y"
    and r: "\<And>n r. resolved y1 n r \<longleftrightarrow> resolved y n r \<or> n = c \<and> r = Inr (d_Body dl)"
    and l: "r_routed y1 = r_routed y @ [dl]" "d_CorrelationId dl = i"
  shows "call_inv ids y1"
proof (rule call_invI)
  have h: "holder y1 k n = holder y k n" for k n by (simp add: holder_def d)
  have m: "map_of (d_calls (r_d y1)) j = Some n \<longleftrightarrow> j \<noteq> i \<and> map_of (d_calls (r_d y)) j = Some n" for j n
    by (simp add: d AList.delete_conv')
  have rep: "replied y k b \<Longrightarrow> replied y1 k b" for k b by (rule replied_mono) (auto simp: l d)
  note D = call_invD [OF inv]
  obtain k where k: "ids k = i" "holder y k c" using D(5) [OF hit] by blast
  have own: "j = k" if "holder y j c" for j using D(4) that k(2) by blast
  have only: "j = i" if "map_of (d_calls (r_d y)) j = Some c" for j using D(5) [OF that] own k(1) by blast
  show "c_id (r_calls y1 k) = ids k" for k by (simp add: d D)
  show "distinct (map fst (d_calls (r_d y1)))" unfolding d by (rule AList.distinct_delete) (rule D(2))
  show "holder y1 k n \<Longrightarrow> n < d_fresh (r_d y1)" for k n unfolding h d by (rule D(3))
  show "holder y1 k n \<Longrightarrow> holder y1 j n \<Longrightarrow> k = j" for k j n unfolding h by (rule D(4))
  show "map_of (d_calls (r_d y1)) i = Some n \<Longrightarrow> \<exists>k. ids k = i \<and> holder y1 k n" for i n unfolding h m using D(5) by blast
  show "resolved y1 n r \<Longrightarrow> n < d_fresh (r_d y1)" for n r unfolding assms(6) d using D(6) D(3) [OF k(2)] by blast
  show "resolved y1 n r \<Longrightarrow> map_of (d_calls (r_d y1)) i = Some n \<Longrightarrow> False" for n r i
    unfolding assms(6) m using D(7) only by blast
  show "holder y1 j n \<Longrightarrow> map_of (d_calls (r_d y1)) (ids j) = Some n \<or> (\<exists>r. resolved y1 n r)" for j n
    using D(8) [of j n] hit unfolding h m assms(6) by fastforce
  show "replied y1 j b" if "holder y1 j n" "resolved y1 n (Inr b)" for j n b
  proof (cases "resolved y n (Inr b)")
    case True
    then show ?thesis using D(9) rep that(1) unfolding h by blast
  next
    case False
    then have "n = c" "b = d_Body dl" using that(2) unfolding assms(6) by blast+
    then have "j = k" using own that(1) unfolding h by blast
    then show ?thesis using \<open>b = d_Body dl\<close> l k(1) by (auto simp: replied_def d D(1))
  qed
  show "c_phase (r_calls y1 k) = CDone (Inr (Some b)) \<Longrightarrow> replied y1 k b" for k b using D(10) rep unfolding d by blast
qed

text \<open>\<open>failPending\<close> takes them all.\<close>

lemma call_inv_fail:
  assumes inv: "call_inv ids y"
    and d: "d_calls (r_d y1) = []" "d_fresh (r_d y1) = d_fresh (r_d y)" "r_calls y1 = r_calls y" "r_routed y1 = r_routed y"
    and r: "\<And>n r. resolved y1 n r \<longleftrightarrow> resolved y n r \<or> (\<exists>i. (i, n) \<in> set (d_calls (r_d y))) \<and> r = Inl e"
  shows "call_inv ids y1"
proof (rule call_invI)
  have h: "holder y1 k n = holder y k n" for k n by (simp add: holder_def d)
  have rep: "replied y k b \<Longrightarrow> replied y1 k b" for k b by (rule replied_mono) (auto simp: d)
  note D = call_invD [OF inv]
  have entry: "map_of (d_calls (r_d y)) i = Some n \<longleftrightarrow> (i, n) \<in> set (d_calls (r_d y))" for i n
    using D(2) by (simp add: map_of_eq_Some_iff)
  show "c_id (r_calls y1 k) = ids k" for k by (simp add: d D)
  show "holder y1 k n \<Longrightarrow> n < d_fresh (r_d y1)" for k n unfolding h d by (rule D(3))
  show "holder y1 k n \<Longrightarrow> holder y1 j n \<Longrightarrow> k = j" for k j n unfolding h by (rule D(4))
  show "resolved y1 n r \<Longrightarrow> n < d_fresh (r_d y1)" for n r unfolding assms(6) d using D(6) D(5) D(3) entry by blast
  show "holder y1 j n \<Longrightarrow> map_of (d_calls (r_d y1)) (ids j) = Some n \<or> (\<exists>r. resolved y1 n r)" for j n
    using D(8) [of j n] unfolding h entry assms(6) by blast
  show "replied y1 j b" if "holder y1 j n" "resolved y1 n (Inr b)" for j n b
    using D(9) rep that unfolding h assms(6) by blast
  show "c_phase (r_calls y1 k) = CDone (Inr (Some b)) \<Longrightarrow> replied y1 k b" for k b using D(10) rep unfolding d by blast
qed (simp_all add: d)

lemma todo_exec:
  assumes "k < length ps" "ps ! k = t # ts"
  shows "set (concat (ps[k := us @ ts])) \<subseteq> set (concat ps) \<union> set us"
    and "set us \<subseteq> set (concat (ps[k := us @ ts]))"
    and "set (concat ps) \<subseteq> insert t (set (concat (ps[k := us @ ts])))"
proof -
  have "ps = take k ps @ (t # ts) # drop (Suc k) ps" using id_take_nth_drop [OF assms(1)] assms(2) by simp
  then have old: "set (concat ps) = set (concat (take k ps)) \<union> insert t (set ts) \<union> set (concat (drop (Suc k) ps))"
    by (metis concat.simps(2) concat_append list.simps(15) set_append sup_assoc)
  have new: "set (concat (ps[k := us @ ts])) =
      set (concat (take k ps)) \<union> (set us \<union> set ts) \<union> set (concat (drop (Suc k) ps))"
    by (simp only: upd_conv_take_nth_drop [OF assms(1)] concat_append concat.simps set_append Un_assoc)
  show "set (concat (ps[k := us @ ts])) \<subseteq> set (concat ps) \<union> set us"
    "set us \<subseteq> set (concat (ps[k := us @ ts]))" "set (concat ps) \<subseteq> insert t (set (concat (ps[k := us @ ts])))"
    unfolding old new by blast+
qed

lemma resolve_call_fields [simp]:
  "d_calls (resolve_call c r d) = d_calls d" "d_fresh (resolve_call c r d) = d_fresh d"
  "d_stream (resolve_call c r d) = d_stream d" "d_bufferedBytes (resolve_call c r d) = d_bufferedBytes d"
  by (simp_all add: resolve_call_def split: option.split)

lemma on_stream_calls [simp]:
  "d_calls (on_stream s f d) = d_calls d" "d_done (on_stream s f d) = d_done d" "d_fresh (on_stream s f d) = d_fresh d"
  by (simp_all add: on_stream_def split_beta)

lemma call_inv_exec:
  assumes inv: "call_inv ids y" and k: "k < length (r_procs y)" "r_procs y ! k = t # ts" and e: "exec conv t (r_d y) = (us, d1)"
  shows "call_inv ids (y\<lparr>r_d := d1, r_procs := (r_procs y)[k := us @ ts], r_routed := r_routed y @ is_route t\<rparr>)"
    (is "call_inv ids ?y1")
proof -
  have sub: "todo ?y1 \<subseteq> todo y \<union> set us" "set us \<subseteq> todo ?y1" "todo y \<subseteq> insert t (todo ?y1)"
    using todo_exec [OF k] by (simp_all add: todo_def)
  have t: "t \<in> todo y" using k by (force simp: todo_def in_set_conv_nth)
  have quiet: "call_inv ids ?y1"
    if "\<And>n r. Resolve n r \<notin> set us" "\<And>n r. t \<noteq> Resolve n r" "d_calls d1 = d_calls (r_d y)" "d_done d1 = d_done (r_d y)" "d_fresh d1 = d_fresh (r_d y)"
  proof (rule call_inv_same [OF inv])
    have "Resolve n r \<in> todo ?y1 \<longleftrightarrow> Resolve n r \<in> todo y" for n r using sub that(1) that(2) [of n r] by blast
    then show "same_calls y ?y1" using that(3-5) by (auto simp: same_calls_def resolved_def)
  qed
  show ?thesis
  proof (cases t)
    case (Route dl)
    show ?thesis
    proof (cases "map_of (d_streams (r_d y)) (d_CorrelationId dl) = None \<and> map_of (d_calls (r_d y)) (d_CorrelationId dl) \<noteq> None")
      case True
      then obtain c where hit: "map_of (d_calls (r_d y)) (d_CorrelationId dl) = Some c" by auto
      then have d1: "us = [Resolve c (Inr (d_Body dl))]" "d1 = (r_d y)\<lparr>d_calls := AList.delete (d_CorrelationId dl) (d_calls (r_d y))\<rparr>"
        using e True Route by (auto simp: route_reply_def Let_def)
      have "Resolve n r \<in> todo ?y1 \<longleftrightarrow> Resolve n r \<in> todo y \<or> n = c \<and> r = Inr (d_Body dl)" for n r
        using sub Route by (auto simp: d1(1))
      then show ?thesis by (intro call_inv_route [OF inv hit]) (auto simp: d1(2) resolved_def Route is_route_def)
    next
      case False
      then have "d1 = r_d y" "\<And>n r. Resolve n r \<notin> set us"
        using e Route by (auto simp: route_reply_def Let_def split: option.splits)
      then have "Resolve n r \<in> todo ?y1 \<longleftrightarrow> Resolve n r \<in> todo y" for n r using sub Route by auto
      then show ?thesis using \<open>d1 = r_d y\<close> by (intro call_inv_same [OF inv]) (auto simp: same_calls_def resolved_def)
    qed
  next
    case (Resolve c r)
    then have d1: "us = []" "d1 = resolve_call c r (r_d y)" using e by auto
    have in1: "resolved ?y1 n x \<Longrightarrow> resolved y n x" for n x
      using sub(1) t Resolve by (auto simp: d1 resolved_def resolve_call_def split: option.splits if_splits)
    have in2: "resolved y n x \<Longrightarrow> \<exists>x. resolved ?y1 n x" for n x
      using sub(3) Resolve by (fastforce simp: d1 resolved_def resolve_call_def split: option.split)
    show ?thesis using in1 in2 by (intro call_inv_same [OF inv]) (auto simp: same_calls_def d1)
  next
    case (FailPending x)
    then have d1: "us = map (\<lambda>(i, c). Resolve c (Inl x)) (d_calls (r_d y)) @ map (\<lambda>(i, s). FailStream s x) (d_streams (r_d y))"
      "d1 = (r_d y)\<lparr>d_calls := [], d_streams := []\<rparr>" using e by (auto simp: failPending_def)
    have "Resolve n r \<in> set us \<longleftrightarrow> (\<exists>i. (i, n) \<in> set (d_calls (r_d y))) \<and> r = Inl x" for n r by (auto simp: d1(1))
    then have "Resolve n r \<in> todo ?y1 \<longleftrightarrow> Resolve n r \<in> todo y \<or> (\<exists>i. (i, n) \<in> set (d_calls (r_d y))) \<and> r = Inl x" for n r
      using sub FailPending by blast
    then show ?thesis by (intro call_inv_fail [OF inv]) (auto simp: d1(2) resolved_def FailPending is_route_def)
  qed (use e quiet in \<open>auto simp: forget_channels_def install_def replace_pub_def repair_def tryRecoverReplies_def
      split: option.splits if_splits\<close>)
qed

text \<open>The steps of a call, by what happens to what it holds.\<close>

lemma call_inv_hold:
  assumes inv: "call_inv ids y" and c: "c_id c1 = ids k" "held_call (c_phase c1) = held_call (c_phase (r_calls y k))"
    "\<And>b. c_phase c1 \<noteq> CDone (Inr (Some b))"
  shows "call_inv ids (y\<lparr>r_calls := (r_calls y)(k := c1)\<rparr>)" (is "call_inv ids ?y1")
proof (rule call_invI)
  note D = call_invD [OF inv]
  have h: "holder ?y1 j n = holder y j n" for j n using c(2) by (simp add: holder_def)
  have r: "resolved ?y1 n x = resolved y n x" for n x by (simp add: resolved_def todo_def)
  have i: "c_id (r_calls ?y1 j) = ids j" for j using c(1) D(1) by simp
  have rep: "replied y j b \<Longrightarrow> replied ?y1 j b" for j b by (rule replied_mono) (auto simp: i D(1) c(1))
  show "c_id (r_calls ?y1 j) = ids j" for j by (rule i)
  show "distinct (map fst (d_calls (r_d ?y1)))" using D(2) by simp
  show "holder ?y1 k n \<Longrightarrow> n < d_fresh (r_d ?y1)" for k n unfolding h using D(3) by simp
  show "holder ?y1 k n \<Longrightarrow> holder ?y1 j n \<Longrightarrow> k = j" for k j n unfolding h by (rule D(4))
  show "map_of (d_calls (r_d ?y1)) i = Some n \<Longrightarrow> \<exists>k. ids k = i \<and> holder ?y1 k n" for i n unfolding h using D(5) by simp
  show "resolved ?y1 n r \<Longrightarrow> n < d_fresh (r_d ?y1)" for n r unfolding r using D(6) by simp
  show "resolved ?y1 n r \<Longrightarrow> map_of (d_calls (r_d ?y1)) i = Some n \<Longrightarrow> False" for n r i unfolding r using D(7) by simp
  show "holder ?y1 j n \<Longrightarrow> map_of (d_calls (r_d ?y1)) (ids j) = Some n \<or> (\<exists>r. resolved ?y1 n r)" for j n
    unfolding h r using D(8) by simp
  show "holder ?y1 j n \<Longrightarrow> resolved ?y1 n (Inr b) \<Longrightarrow> replied ?y1 j b" for j n b unfolding h r using D(9) rep by blast
  show "c_phase (r_calls ?y1 j) = CDone (Inr (Some b)) \<Longrightarrow> replied ?y1 j b" for j b
    using D(10) rep c(3) by (cases "j = k") auto
qed

lemma call_inv_release:
  assumes inv: "call_inv ids y" and own: "holder y k n"
    and c: "r_calls y1 = (r_calls y)(k := c1)" "c_id c1 = ids k" "held_call (c_phase c1) = None" "r_routed y1 = r_routed y"
    and d: "distinct (map fst (d_calls (r_d y1)))" "d_fresh (r_d y1) = d_fresh (r_d y)"
      "\<And>j x. map_of (d_calls (r_d y1)) j = Some x \<longleftrightarrow> map_of (d_calls (r_d y)) j = Some x \<and> \<not> (j = ids k \<and> x = n)"
    and r: "\<And>m x. resolved y1 m x \<Longrightarrow> resolved y m x" "\<And>m x. m \<noteq> n \<Longrightarrow> resolved y m x \<Longrightarrow> resolved y1 m x"
    and res: "\<And>b. c_phase c1 = CDone (Inr (Some b)) \<Longrightarrow> replied y k b"
  shows "call_inv ids y1"
proof (rule call_invI)
  note D = call_invD [OF inv]
  have h: "holder y1 j m \<longleftrightarrow> j \<noteq> k \<and> holder y j m" for j m using c by (simp add: holder_def)
  have i: "c_id (r_calls y1 j) = ids j" for j using c D(1) by simp
  have rep: "replied y j b \<Longrightarrow> replied y1 j b" for j b by (rule replied_mono) (auto simp: i D(1) c(4))
  show "c_id (r_calls y1 j) = ids j" for j by (rule i)
  show "distinct (map fst (d_calls (r_d y1)))" by (rule d(1))
  show "holder y1 j m \<Longrightarrow> m < d_fresh (r_d y1)" for j m unfolding h d(2) using D(3) by blast
  show "holder y1 i m \<Longrightarrow> holder y1 j m \<Longrightarrow> i = j" for i j m unfolding h using D(4) by blast
  show "\<exists>j. ids j = i \<and> holder y1 j m" if "map_of (d_calls (r_d y1)) i = Some m" for i m
  proof -
    from that obtain j where j: "ids j = i" "holder y j m" using D(5) unfolding d(3) by blast
    moreover have "j \<noteq> k" using that j own unfolding d(3) by (auto simp: holder_def)
    ultimately show ?thesis unfolding h by blast
  qed
  show "resolved y1 m x \<Longrightarrow> m < d_fresh (r_d y1)" for m x unfolding d(2) by (rule D(6) [OF r(1)])
  show "resolved y1 m x \<Longrightarrow> map_of (d_calls (r_d y1)) i = Some m \<Longrightarrow> False" for m x i unfolding d(3) using D(7) [OF r(1)] by blast
  show "map_of (d_calls (r_d y1)) (ids j) = Some m \<or> (\<exists>x. resolved y1 m x)" if "holder y1 j m" for j m
  proof -
    have "m \<noteq> n" using that own D(4) unfolding h by blast
    then show ?thesis using D(8) that r(2) unfolding h d(3) by blast
  qed
  show "holder y1 j m \<Longrightarrow> resolved y1 m (Inr b) \<Longrightarrow> replied y1 j b" for j m b unfolding h using D(9) r(1) rep by blast
  show "c_phase (r_calls y1 j) = CDone (Inr (Some b)) \<Longrightarrow> replied y1 j b" for j b
    using D(10) rep res c(1) by (cases "j = k") auto
qed

lemma forget_map: "distinct (map fst (d_calls d)) \<Longrightarrow>
  (map_of (d_calls (forget i n d)) j = Some x \<longleftrightarrow> map_of (d_calls d) j = Some x \<and> \<not> (j = i \<and> x = n)) \<and>
  distinct (map fst (d_calls (forget i n d)))"
proof
  show "map_of (d_calls (forget i n d)) j = Some x \<longleftrightarrow> map_of (d_calls d) j = Some x \<and> \<not> (j = i \<and> x = n)"
    by (auto simp: forget_def AList.delete_conv')
qed (simp add: forget_def AList.distinct_delete)

lemma forget_fields [simp]: "d_done (forget i n d) = d_done d" "d_fresh (forget i n d) = d_fresh d"
  "d_stream (forget i n d) = d_stream d" "d_bufferedBytes (forget i n d) = d_bufferedBytes d"
  by (simp_all add: forget_def)

lemma call_inv_forget:
  assumes inv: "call_inv ids y" and own: "holder y k n" and c: "c_id c1 = ids k" "held_call (c_phase c1) = None"
    "\<And>b. c_phase c1 \<noteq> CDone (Inr (Some b))"
  shows "call_inv ids (y\<lparr>r_d := forget (ids k) n (r_d y), r_calls := (r_calls y)(k := c1)\<rparr>)"
proof (rule call_inv_release [OF inv own])
  show "replied y k b" if "c_phase c1 = CDone (Inr (Some b))" for b using c(3) that by blast
qed (use forget_map [OF call_invD(2) [OF inv]] c in \<open>auto simp: resolved_def todo_def\<close>)

text \<open>A registration needs the correlation id to be this call's alone.\<close>

lemma call_inv_register:
  assumes inv: "call_inv ids y" and free: "held_call (c_phase (r_calls y k)) = None" and one: "inj ids"
    and n: "newPendingCall (ids k) (r_d y) = (n, d1)"
    and c: "c_id c1 = ids k" "c_phase c1 = CPublish (Some n)"
  shows "call_inv ids (y\<lparr>r_d := d1, r_calls := (r_calls y)(k := c1)\<rparr>)" (is "call_inv ids ?y1")
proof (rule call_invI)
  note D = call_invD [OF inv]
  have d: "n = d_fresh (r_d y)" "d_fresh d1 = Suc n" "d_done d1 = (d_done (r_d y))(n := None)"
    "d_calls d1 = AList.update (ids k) n (d_calls (r_d y))" using n by (auto simp: newPendingCall_def)
  have none: "\<not> resolved y n x" for x using D(6) d(1) by fastforce
  have h: "holder ?y1 j m \<longleftrightarrow> (if j = k then m = n else holder y j m)" for j m using c by (auto simp: holder_def)
  have old: "holder y j m \<Longrightarrow> m < n" for j m using D(3) d(1) by blast
  have nk: "\<not> holder y k m" for m using free by (simp add: holder_def)
  have m: "map_of (d_calls (r_d ?y1)) i = (if i = ids k then Some n else map_of (d_calls (r_d y)) i)" for i
    by (simp add: d(4) AList.update_conv')
  have r: "resolved ?y1 m x = resolved y m x" for m x using none by (auto simp: resolved_def todo_def d(3))
  have i: "c_id (r_calls ?y1 j) = ids j" for j using c D(1) by simp
  have rep: "replied y j b \<Longrightarrow> replied ?y1 j b" for j b by (rule replied_mono) (auto simp: i D(1) c)
  show "c_id (r_calls ?y1 j) = ids j" for j by (rule i)
  show "distinct (map fst (d_calls (r_d ?y1)))" using D(2) by (simp add: d(4) AList.distinct_update)
  show "holder ?y1 j m \<Longrightarrow> m < d_fresh (r_d ?y1)" for j m unfolding h using old d(2) by (auto split: if_splits intro: less_SucI)
  show "holder ?y1 i m \<Longrightarrow> holder ?y1 j m \<Longrightarrow> i = j" for i j m unfolding h using D(4) by (auto split: if_splits dest: old)
  show "\<exists>j. ids j = i \<and> holder ?y1 j m" if "map_of (d_calls (r_d ?y1)) i = Some m" for i m
  proof (cases "i = ids k")
    case False
    with that obtain j where "ids j = i" "holder y j m" using D(5) unfolding m by auto
    then show ?thesis using nk unfolding h by metis
  next
    case True
    then show ?thesis using that unfolding h m by auto
  qed
  show "resolved ?y1 m x \<Longrightarrow> m < d_fresh (r_d ?y1)" for m x unfolding r using D(6) d(1,2) by fastforce
  show "resolved ?y1 m x \<Longrightarrow> map_of (d_calls (r_d ?y1)) i = Some m \<Longrightarrow> False" for m x i
    unfolding r m using D(7) none by (auto split: if_splits)
  show "map_of (d_calls (r_d ?y1)) (ids j) = Some m \<or> (\<exists>x. resolved ?y1 m x)" if "holder ?y1 j m" for j m
    using that D(8) injD [OF one] unfolding h r m by (auto split: if_splits)
  show "holder ?y1 j m \<Longrightarrow> resolved ?y1 m (Inr b) \<Longrightarrow> replied ?y1 j b" for j m b
    unfolding h r using D(9) rep none by (auto split: if_splits)
  show "c_phase (r_calls ?y1 j) = CDone (Inr (Some b)) \<Longrightarrow> replied ?y1 j b" for j b
    using D(10) rep c by (cases "j = k") auto
qed

lemma call_inv_call:
  assumes inv: "call_inv ids y" and one: "inj ids" and s: "call_step (r_calls y k, r_d y) (c1, d1)"
  shows "call_inv ids (y\<lparr>r_d := d1, r_calls := (r_calls y)(k := c1)\<rparr>)"
proof -
  have i: "c_id (r_calls y k) = ids k" by (rule call_invD(1) [OF inv])
  from s show ?thesis
  proof cases
    case (c_register replyTo n)
    then show ?thesis using i by (intro call_inv_register [OF inv _ one]) auto
  next
    case (c_forget co e)
    show ?thesis
    proof (cases co)
      case None
      with c_forget i show ?thesis
        by (auto simp: forget_option_def after_forget_def intro!: call_inv_hold [OF inv])
    next
      case (Some n)
      then have "holder y k n" using c_forget by (simp add: holder_def)
      with c_forget i Some show ?thesis
        by (auto simp: forget_option_def after_forget_def intro!: call_inv_forget [OF inv])
    qed
  next
    case (c_give_up n e)
    then have "holder y k n" by (simp add: holder_def)
    with c_give_up i show ?thesis by (auto intro!: call_inv_forget [OF inv])
  next
    case (c_reply n r)
    then have own: "holder y k n" and r: "resolved y n r" by (simp_all add: holder_def resolved_def)
    have "map_of (d_calls (r_d y)) j \<noteq> Some n" for j using call_invD(7) [OF inv r] by blast
    with c_reply i own call_invD(2) [OF inv] call_invD(9) [OF inv own] r show ?thesis
      by (intro call_inv_release [OF inv own, of _ c1])
        (auto simp: resolved_def todo_def split: if_splits sum.splits, cases r, auto)
  qed (use i in \<open>auto simp: after_publish_def split: option.split intro!: call_inv_hold [OF inv]\<close>)
qed

lemma stream_step_calls:
  "stream_step x x1 \<Longrightarrow> d_calls (snd x1) = d_calls (snd x) \<and> d_done (snd x1) = d_done (snd x) \<and> d_fresh (snd x) \<le> d_fresh (snd x1)"
  by (induction rule: stream_step.induct) (auto simp: register_stream_def unlist_stream_def)

lemma call_inv_step: "rpc_step conv y y1 \<Longrightarrow> inj ids \<Longrightarrow> call_inv ids y \<Longrightarrow> call_inv ids y1"
proof (induction rule: rpc_step.induct)
  case (r_spawn p y)
  then have "Resolve n r \<notin> set p" for n r by (auto simp: background_def receive_def connectionLost_def close_dispatcher_def)
  then have "same_calls y (y\<lparr>r_procs := r_procs y @ [p]\<rparr>)" by (auto simp: same_calls_def resolved_def todo_def)
  then show ?case by (rule call_inv_same [OF r_spawn.prems(2)])
next
  case (r_exec k y t ts us d1)
  then show ?case by (intro call_inv_exec)
next
  case (r_call y k c1 d1)
  then show ?case by (intro call_inv_call)
next
  case (r_stream y k s1 d1)
  have "d_calls d1 = d_calls (r_d y)" "d_done d1 = d_done (r_d y)" "d_fresh (r_d y) \<le> d_fresh d1"
    using stream_step_calls [OF r_stream.hyps] by simp_all
  then show ?case by (intro call_inv_same [OF r_stream.prems(2)]) (auto simp: same_calls_def resolved_def todo_def)
qed

lemma call_inv_start: "call_inv ids (start ids sids what limits)"
  by (rule call_invI) (auto simp: start_def new_call_def newDispatcher_def holder_def resolved_def todo_def)

lemma call_inv_reach:
  assumes "rpc_reach conv (start ids sids what limits) y" "inj ids"
  shows "call_inv ids y"
  using assms(1)
proof induction
  case (rpc_next y y1)
  then show ?case using call_inv_step assms(2) by blast
qed (rule call_inv_start)

lemma attempts_reach:
  assumes "rpc_reach conv (start ids sids what limits) y"
  shows "attempts_ok (r_calls y k)"
  using assms
proof induction
  case (rpc_next y y1)
  from rpc_next.hyps(2) show ?case
  proof cases
    case (r_call j c1 d1)
    then have "attempts_ok c1" if "j = k" using attempts_step [OF r_call(2)] rpc_next.IH that by simp
    then show ?thesis using r_call rpc_next.IH by simp
  qed (use rpc_next.IH in simp_all)
qed (simp add: start_def new_call_def attempts_ok_def unwritten_def)

section \<open>The bytes buffered\<close>

fun held_stream :: "stream_phase \<Rightarrow> nat option" where
  "held_stream (SPublish n) = Some n"
| "held_stream (SOpen n) = Some n"
| "held_stream (SWait n) = Some n"
| "held_stream (SCancel n e) = Some n"
| "held_stream (SUnlist n k) = Some n"
| "held_stream (SRelease n k) = Some n"
| "held_stream _ = None"

text \<open>A stream's own count is right; a released one is empty, and stays so.\<close>

definition counted :: "clientStream \<Rightarrow> bool" where
  "counted x \<longleftrightarrow> cl_bytes x = bytes_in (cl_chunks x)"

definition spent :: "clientStream \<Rightarrow> bool" where
  "spent x \<longleftrightarrow> cl_ended x \<and> cl_err x \<noteq> None \<and> cl_chunks x = [] \<and> cl_bytes x = 0"

definition balanced :: "(clientStream \<times> int \<Rightarrow> clientStream \<times> int) \<Rightarrow> bool" where
  "balanced f \<longleftrightarrow>
     (\<forall>x b. counted x \<longrightarrow> counted (fst (f (x, b))) \<and> snd (f (x, b)) - cl_bytes (fst (f (x, b))) = b - cl_bytes x)"

lemma balanced_ops: "balanced (push conv dl)" "balanced (fail e)" "balanced release_stream"
  by (auto simp: balanced_def push_def push_body_def fail_def release_stream_def dropBufferLocked_def counted_def Let_def
      split: option.split)

lemma balanced_next: "balanced (\<lambda>st. snd (next_chunk st))"
  by (auto simp: balanced_def next_chunk_def counted_def split: list.split)

lemma spent_ops: "spent x \<Longrightarrow> push conv dl (x, b) = (x, b)" "spent x \<Longrightarrow> fail e (x, b) = (x, b)"
  "spent (fst (release_stream (x, b)))"
  by (auto simp: spent_def push_def fail_def release_stream_def dropBufferLocked_def)

definition keeps_stream :: "rpc \<Rightarrow> nat \<Rightarrow> nat \<Rightarrow> bool" where
  "keeps_stream y k n \<longleftrightarrow> held_stream (s_phase (r_streams y k)) = Some n"

definition stream_inv :: "rpc \<Rightarrow> bool" where
  "stream_inv y \<longleftrightarrow>
     (\<forall>n. counted (d_stream (r_d y) n)) \<and>
     d_bufferedBytes (r_d y) = (\<Sum>n < d_fresh (r_d y). cl_bytes (d_stream (r_d y) n)) \<and>
     (\<forall>n. (\<exists>k. keeps_stream y k n) \<or> spent (d_stream (r_d y) n)) \<and>
     (\<forall>k n. keeps_stream y k n \<longrightarrow> n < d_fresh (r_d y))"

lemma sum_update:
  fixes f :: "nat \<Rightarrow> 'a" and g :: "'a \<Rightarrow> int"
  shows "s < m \<Longrightarrow> (\<Sum>n < m. g ((f(s := x)) n)) = (\<Sum>n < m. g (f n)) - g (f s) + g x"
proof -
  assume s: "s < m"
  have "(\<Sum>n < m. g ((f(s := x)) n)) = g x + (\<Sum>n \<in> {..<m} - {s}. g (f n))"
    using s by (subst sum.remove [of _ s]) (auto intro!: sum.cong)
  moreover have "(\<Sum>n < m. g (f n)) = g (f s) + (\<Sum>n \<in> {..<m} - {s}. g (f n))"
    using s by (subst sum.remove [of _ s]) auto
  ultimately show ?thesis by simp
qed

text \<open>An operation of an allocated stream, and what it leaves behind.\<close>

lemma stream_inv_on_stream:
  assumes inv: "stream_inv y" and bal: "balanced f" and s: "s < d_fresh (r_d y)"
    and d: "d_stream (r_d y1) = (d_stream (r_d y))(s := fst (f (d_stream (r_d y) s, d_bufferedBytes (r_d y))))"
      "d_bufferedBytes (r_d y1) = snd (f (d_stream (r_d y) s, d_bufferedBytes (r_d y)))" "d_fresh (r_d y1) = d_fresh (r_d y)"
    and k: "\<And>k n. keeps_stream y1 k n \<Longrightarrow> keeps_stream y k n" "\<And>k n. n \<noteq> s \<Longrightarrow> keeps_stream y k n \<Longrightarrow> keeps_stream y1 k n"
      "(\<exists>k. keeps_stream y1 k s) \<or> spent (d_stream (r_d y1) s)"
  shows "stream_inv y1"
proof -
  let ?x = "d_stream (r_d y) s" let ?b = "d_bufferedBytes (r_d y)"
  have c: "counted ?x" using inv by (simp add: stream_inv_def)
  have "counted (fst (f (?x, ?b))) \<and> snd (f (?x, ?b)) - cl_bytes (fst (f (?x, ?b))) = ?b - cl_bytes ?x"
    using bal c unfolding balanced_def by blast
  then have b: "counted (fst (f (?x, ?b)))" "snd (f (?x, ?b)) = ?b - cl_bytes ?x + cl_bytes (fst (f (?x, ?b)))" by simp_all
  have "d_bufferedBytes (r_d y1) = (\<Sum>n < d_fresh (r_d y1). cl_bytes (d_stream (r_d y1) n))"
    using inv b(2) sum_update [OF s, of cl_bytes "d_stream (r_d y)"] by (simp add: d stream_inv_def)
  moreover have "\<forall>n. counted (d_stream (r_d y1) n)" using inv b(1) by (simp add: d stream_inv_def)
  moreover have "(\<exists>k. keeps_stream y1 k n) \<or> spent (d_stream (r_d y1) n)" for n
  proof (cases "n = s")
    case False
    then have "(\<exists>k. keeps_stream y k n) \<or> spent (d_stream (r_d y1) n)" using inv by (simp add: stream_inv_def d)
    then show ?thesis using k(2) [OF False] by blast
  qed (use k(3) in simp)
  moreover have "keeps_stream y1 k n \<Longrightarrow> n < d_fresh (r_d y1)" for k n using k(1) inv unfolding stream_inv_def d(3) by blast
  ultimately show ?thesis unfolding stream_inv_def by blast
qed

text \<open>Steps that touch no stream.\<close>

lemma stream_inv_same:
  assumes inv: "stream_inv y"
    and d: "d_stream (r_d y1) = d_stream (r_d y)" "d_bufferedBytes (r_d y1) = d_bufferedBytes (r_d y)"
      "d_fresh (r_d y) \<le> d_fresh (r_d y1)"
    and k: "\<And>k n. keeps_stream y1 k n = keeps_stream y k n"
  shows "stream_inv y1"
proof -
  have h: "n < d_fresh (r_d y)" if "keeps_stream y k n" for k n using inv that unfolding stream_inv_def by blast
  have "cl_bytes (d_stream (r_d y) n) = 0" if "\<not> n < d_fresh (r_d y)" for n
  proof -
    have "spent (d_stream (r_d y) n)" using inv that h unfolding stream_inv_def by blast
    then show ?thesis by (simp add: spent_def)
  qed
  then have "(\<Sum>n < d_fresh (r_d y). cl_bytes (d_stream (r_d y) n)) = (\<Sum>n < d_fresh (r_d y1). cl_bytes (d_stream (r_d y) n))"
    using d(3) by (intro sum.mono_neutral_left) auto
  moreover have "n < d_fresh (r_d y1)" if "keeps_stream y k n" for k n using h [OF that] d(3) by simp
  ultimately show ?thesis using inv unfolding stream_inv_def d(1,2) k by simp
qed

lemma stream_inv_task:
  assumes inv: "stream_inv y" and f: "f \<in> {push conv dl, fail e}"
  shows "stream_inv (y\<lparr>r_d := on_stream s f (r_d y), r_procs := ps, r_routed := rs\<rparr>)" (is "stream_inv ?y1")
proof (cases "spent (d_stream (r_d y) s)")
  case True
  then have "f (d_stream (r_d y) s, d_bufferedBytes (r_d y)) = (d_stream (r_d y) s, d_bufferedBytes (r_d y))"
    using f spent_ops by auto
  then have "on_stream s f (r_d y) = r_d y" by (simp add: on_stream_def)
  then show ?thesis using inv by (intro stream_inv_same [OF inv]) (simp_all add: keeps_stream_def)
next
  case False
  then have h: "\<exists>k. keeps_stream y k s" "s < d_fresh (r_d y)" using inv unfolding stream_inv_def by blast+
  have "balanced f" using f balanced_ops by auto
  then show ?thesis using h
    by (intro stream_inv_on_stream [OF inv]) (auto simp: on_stream_def split_beta keeps_stream_def)
qed

lemma stream_phase_simps [simp]: "s_phase (at_stream p s) = p" "s_id (at_stream p s) = s_id s"
  by (simp_all add: at_stream_def)

lemma held_turn: "s_phase s = SOpen n \<Longrightarrow> held_stream (s_phase (turn n ctx go_on r x s)) = Some n"
  by (auto simp: turn_def ends_def Let_def split: prod.split option.split)

lemma stream_inv_register:
  assumes inv: "stream_inv y" and free: "held_stream (s_phase (r_streams y k)) = None"
    and n: "register_stream i mc mb mt (r_d y) = (n, d1)" and p: "s_phase s1 = SPublish n"
  shows "stream_inv (y\<lparr>r_d := d1, r_streams := (r_streams y)(k := s1)\<rparr>)" (is "stream_inv ?y1")
proof -
  have d: "n = d_fresh (r_d y)" "d_fresh d1 = Suc n" "d_bufferedBytes d1 = d_bufferedBytes (r_d y)"
    "d_stream d1 = (d_stream (r_d y))(n := newStream i mc mb mt)" using n by (auto simp: register_stream_def)
  have h: "keeps_stream ?y1 j m \<longleftrightarrow> (if j = k then m = n else keeps_stream y j m)" for j m
    using p by (auto simp: keeps_stream_def)
  have old: "m < n" if "keeps_stream y j m" for j m using inv that unfolding stream_inv_def d(1) by blast
  have "(\<exists>j. keeps_stream ?y1 j m) \<or> spent (d_stream d1 m)" for m
  proof (cases "m = n")
    case False
    have "(\<exists>j. keeps_stream y j m) \<or> spent (d_stream (r_d y) m)" using inv unfolding stream_inv_def by blast
    moreover have "\<not> keeps_stream y k m" using free by (simp add: keeps_stream_def)
    ultimately show ?thesis using False unfolding h d(4) by (metis fun_upd_apply)
  qed (use h in auto)
  moreover have "keeps_stream ?y1 j m \<Longrightarrow> m < d_fresh d1" for j m unfolding h d(2) using old by (auto split: if_splits intro: less_SucI)
  moreover have "\<forall>m. counted (d_stream d1 m)" using inv by (simp add: d(4) stream_inv_def newStream_def counted_def)
  moreover have "d_bufferedBytes d1 = (\<Sum>m < d_fresh d1. cl_bytes (d_stream d1 m))"
    using inv d(1) by (simp add: d(2,3,4) stream_inv_def newStream_def)
  ultimately show ?thesis by (auto simp: stream_inv_def)
qed

lemma stream_inv_stream:
  assumes inv: "stream_inv y" and s: "stream_step (r_streams y k, r_d y) (s1, d1)"
  shows "stream_inv (y\<lparr>r_d := d1, r_streams := (r_streams y)(k := s1)\<rparr>)" (is "stream_inv ?y1")
proof -
  have quiet: "stream_inv ?y1" if "held_stream (s_phase s1) = held_stream (s_phase (r_streams y k))"
    "d_stream d1 = d_stream (r_d y)" "d_bufferedBytes d1 = d_bufferedBytes (r_d y)" "d_fresh d1 = d_fresh (r_d y)"
    using that by (intro stream_inv_same [OF inv]) (auto simp: keeps_stream_def)
  have mine: "n < d_fresh (r_d y)" if "keeps_stream y k n" for n using inv that unfolding stream_inv_def by blast
  from s show ?thesis
  proof cases
    case (s_register replyTo mc mb mt n)
    then show ?thesis by (intro stream_inv_register [OF inv]) auto
  next
    case (s_turn n r x b ctx go_on)
    then have "keeps_stream y k n" "held_stream (s_phase s1) = Some n" by (simp_all add: keeps_stream_def held_turn)
    moreover have "snd (next_chunk (d_stream (r_d y) n, d_bufferedBytes (r_d y))) = (x, b)" using s_turn by simp
    ultimately show ?thesis using s_turn
      by (intro stream_inv_on_stream [OF inv balanced_next mine, of n]) (auto simp: keeps_stream_def split: if_splits)
  next
    case (s_release n e)
    then have "keeps_stream y k n" by (simp add: keeps_stream_def)
    moreover have "held_stream (after_release e) = None" by (simp add: after_release_def split: stream_end.split)
    ultimately show ?thesis using s_release spent_ops(3)
      by (intro stream_inv_on_stream [OF inv balanced_ops(3) mine, of n]) (auto simp: keeps_stream_def on_stream_def split_beta split: if_splits)
  qed (use quiet in \<open>auto simp: ends_def unlist_stream_def\<close>)
qed

lemma call_step_streams:
  "call_step x x1 \<Longrightarrow> d_stream (snd x1) = d_stream (snd x) \<and> d_bufferedBytes (snd x1) = d_bufferedBytes (snd x) \<and>
   d_fresh (snd x) \<le> d_fresh (snd x1)"
  by (induction rule: call_step.induct) (auto simp: newPendingCall_def forget_option_def split: option.split)

lemma stream_inv_step: "rpc_step conv y y1 \<Longrightarrow> stream_inv y \<Longrightarrow> stream_inv y1"
proof (induction rule: rpc_step.induct)
  case (r_exec k y t ts us d1)
  show ?case
  proof (cases t)
    case (Push s dl)
    then show ?thesis using r_exec stream_inv_task [OF r_exec.prems, of "push conv dl" conv dl] by auto
  next
    case (FailStream s e)
    then show ?thesis using r_exec stream_inv_task [OF r_exec.prems, of "fail e" conv _ e] by auto
  qed (use r_exec in \<open>auto simp: route_reply_def failPending_def forget_channels_def install_def replace_pub_def keeps_stream_def Let_def
      split: option.splits intro!: stream_inv_same [OF r_exec.prems]\<close>)
next
  case (r_call y k c1 d1)
  then show ?case using call_step_streams [OF r_call.hyps]
    by (intro stream_inv_same [OF r_call.prems]) (auto simp: keeps_stream_def)
next
  case (r_stream y k s1 d1)
  then show ?case by (intro stream_inv_stream)
next
  case (r_spawn p y)
  show ?case by (rule stream_inv_same [OF r_spawn.prems]) (simp_all add: keeps_stream_def)
qed

lemma stream_inv_start: "stream_inv (start ids sids what limits)"
  by (simp add: stream_inv_def start_def newDispatcher_def no_stream_def newStream_def counted_def spent_def keeps_stream_def
      new_streamer_def)

lemma stream_inv_reach:
  assumes "rpc_reach conv (start ids sids what limits) y"
  shows "stream_inv y"
  using assms
proof induction
  case (rpc_next y y1)
  then show ?case using stream_inv_step by blast
qed (rule stream_inv_start)

section \<open>A run\<close>

text \<open>
  The dispatcher is connected, call 0 publishes and waits, its reply arrives and it returns;
  and, from the connected state, stream 0 publishes and receives a frame of two bytes.
\<close>

definition demo_ids :: "nat \<Rightarrow> string" where
  "demo_ids k = replicate k CHR ''c''"

lemma demo_ids_inj: "inj demo_ids"
  by (rule injI) (metis demo_ids_def length_replicate)

definition demo_reply :: Delivery where
  "demo_reply = \<lparr>d_Headers = Map.empty, d_ContentType = '''', d_ContentEncoding = '''', d_DeliveryMode = 2, d_Priority = 0,
     d_CorrelationId = '''', d_ReplyTo = '''', d_Expiration = '''', d_MessageId = '''', d_Timestamp = 0, d_Type = '''',
     d_UserId = '''', d_AppId = '''', d_DeliveryTag = 1, d_Redelivered = False, d_Exchange = '''', d_RoutingKey = '''', d_Body = ''ok''\<rparr>"

definition demo_start :: rpc where
  "demo_start = start demo_ids demo_ids (\<lambda>_. (''k'', False)) (\<lambda>_. (9, 9, 9))"

definition demo_up :: rpc where
  "demo_up = demo_start\<lparr>r_d := install 1 2 ''q'' (r_d demo_start), r_procs := [[]]\<rparr>"

definition set_call :: "nat \<Rightarrow> call_phase \<Rightarrow> (err option \<times> bool) list \<Rightarrow> dispatcher \<Rightarrow> rpc \<Rightarrow> rpc" where
  "set_call k p as d y = y\<lparr>r_d := d, r_calls := (r_calls y)(k := (r_calls y k)\<lparr>c_phase := p, c_attempts := as\<rparr>)\<rparr>"

definition set_stream :: "nat \<Rightarrow> stream_phase \<Rightarrow> dispatcher \<Rightarrow> rpc \<Rightarrow> rpc" where
  "set_stream k p d y = y\<lparr>r_d := d, r_streams := (r_streams y)(k := (r_streams y k)\<lparr>s_phase := p\<rparr>)\<rparr>"

definition demo_waiting :: rpc where
  "demo_waiting =
     (let y = set_call 0 (CRegister ''q'') [] (r_d demo_up) demo_up;
          y = set_call 0 (CPublish (Some 0)) [] (snd (newPendingCall '''' (r_d y))) y
      in set_call 0 (CWait 0) [(None, True)] (r_d y) y)"

definition demo_answered :: rpc where
  "demo_answered =
     (let y = demo_waiting\<lparr>r_procs := [[], [Route demo_reply]]\<rparr>;
          y = y\<lparr>r_d := snd (route_reply demo_reply (r_d y)), r_procs := [[], [Resolve 0 (Inr ''ok'')]], r_routed := [demo_reply]\<rparr>;
          y = y\<lparr>r_d := resolve_call 0 (Inr ''ok'') (r_d y), r_procs := [[], []]\<rparr>
      in set_call 0 (CDone (Inr (Some ''ok''))) [(None, True)] ((r_d y)\<lparr>d_done := (d_done (r_d y))(0 := None)\<rparr>) y)"

definition demo_streaming :: "(float64 \<Rightarrow> int) \<Rightarrow> rpc" where
  "demo_streaming conv =
     (let y = set_stream 0 (SRegister ''q'') (r_d demo_up) demo_up;
          y = set_stream 0 (SPublish 0) (snd (register_stream '''' 9 9 9 (r_d y))) y;
          y = y\<lparr>r_procs := [[], [Route demo_reply]]\<rparr>;
          y = y\<lparr>r_procs := [[], [Push 0 demo_reply]], r_routed := [demo_reply]\<rparr>
      in y\<lparr>r_d := on_stream 0 (push conv demo_reply) (r_d y), r_procs := [[], []]\<rparr>)"

lemma publish_can_succeed: "publish_outcome None True"
proof -
  have "pb_written (pc_pubs run_done ! 0)" by (simp add: run_defs)
  then show ?thesis unfolding publish_outcome_def using run_done_reachable run_done_returned by blast
qed

abbreviation demo_reach :: "(float64 \<Rightarrow> int) \<Rightarrow> rpc \<Rightarrow> bool" where
  "demo_reach conv \<equiv> rpc_reach conv (start demo_ids demo_ids (\<lambda>_. (''k'', False)) (\<lambda>_. (9, 9, 9)))"

lemma reach_call:
  "demo_reach conv y \<Longrightarrow> call_step (r_calls y k, r_d y) ((r_calls y k)\<lparr>c_phase := p, c_attempts := as\<rparr>, d) \<Longrightarrow> demo_reach conv (set_call k p as d y)"
  unfolding set_call_def by (rule rpc_next [OF _ r_call])

lemma reach_stream:
  "demo_reach conv y \<Longrightarrow> stream_step (r_streams y k, r_d y) ((r_streams y k)\<lparr>s_phase := p\<rparr>, d) \<Longrightarrow> demo_reach conv (set_stream k p d y)"
  unfolding set_stream_def by (rule rpc_next [OF _ r_stream])

lemma reach_exec:
  "demo_reach conv y \<Longrightarrow> r_procs y = [[], [t]] \<Longrightarrow> exec conv t (r_d y) = (us, d1) \<Longrightarrow>
   y1 = y\<lparr>r_d := d1, r_procs := [[], us], r_routed := r_routed y @ is_route t\<rparr> \<Longrightarrow> demo_reach conv y1"
  using rpc_next [OF _ r_exec, of conv _ y 1 t "[]" us d1] by simp

lemma reach_up: "demo_reach conv demo_up"
proof -
  have "rpc_reach conv demo_start (demo_start\<lparr>r_procs := r_procs demo_start @ [[Install 1 2 ''q'']]\<rparr>)"
    by (rule rpc_next [OF rpc_start r_spawn]) (auto simp: background_def)
  then have "rpc_reach conv demo_start (demo_start\<lparr>r_procs := [[Install 1 2 ''q'']]\<rparr>)" by (simp add: demo_start_def start_def)
  from rpc_next [OF this r_exec, of 0 "Install 1 2 ''q''" "[]" "[]" "install 1 2 ''q'' (r_d demo_start)"] show ?thesis
    by (simp add: demo_up_def demo_start_def is_route_def start_def)
qed

lemmas demo_defs = demo_start_def start_def newDispatcher_def install_def new_call_def new_streamer_def at_call_def at_stream_def
  attempted_def usable_channel_def set_call_def set_stream_def newPendingCall_def register_stream_def demo_ids_def
  route_reply_def resolve_call_def is_route_def receive_def demo_reply_def

lemma reach_receive: "demo_reach conv y \<Longrightarrow> r_procs y = [[]] \<Longrightarrow> demo_reach conv (y\<lparr>r_procs := [[], [Route dl]]\<rparr>)"
proof -
  assume y: "demo_reach conv y" "r_procs y = [[]]"
  have "receive [dl] \<in> background" unfolding background_def by blast
  from rpc_next [OF y(1) r_spawn [OF this]] y(2) show ?thesis by (simp add: receive_def)
qed

lemma reach_waiting: "demo_reach conv demo_waiting"
proof -
  let ?y1 = "set_call 0 (CRegister ''q'') [] (r_d demo_up) demo_up"
  let ?y2 = "set_call 0 (CPublish (Some 0)) [] (snd (newPendingCall '''' (r_d ?y1))) ?y1"
  have y1: "demo_reach conv ?y1"
    using c_channel [of "r_calls demo_up 0" False "r_d demo_up" 1 "''q''"]
    by (intro reach_call [OF reach_up]) (simp add: demo_up_def demo_defs Let_def)
  have y2: "demo_reach conv ?y2"
    using c_register [of "r_calls ?y1 0" "''q''" "r_d ?y1" 0 "snd (newPendingCall '''' (r_d ?y1))"]
    by (intro reach_call [OF y1]) (simp add: demo_up_def demo_defs Let_def)
  show ?thesis unfolding demo_waiting_def Let_def
    using c_published [of "r_calls ?y2 0" "Some 0" True "r_d ?y2"] publish_can_succeed
    by (intro reach_call [OF y2]) (simp add: demo_up_def demo_defs after_publish_def Let_def)
qed

lemma reach_answered: "demo_reach conv demo_answered"
proof -
  let ?y1 = "demo_waiting\<lparr>r_procs := [[], [Route demo_reply]]\<rparr>"
  let ?y2 = "?y1\<lparr>r_d := snd (route_reply demo_reply (r_d ?y1)), r_procs := [[], [Resolve 0 (Inr ''ok'')]], r_routed := [demo_reply]\<rparr>"
  let ?y3 = "?y2\<lparr>r_d := resolve_call 0 (Inr ''ok'') (r_d ?y2), r_procs := [[], []]\<rparr>"
  have y1: "demo_reach conv ?y1"
    by (rule reach_receive [OF reach_waiting]) (simp add: demo_waiting_def demo_up_def demo_defs Let_def)
  have y2: "demo_reach conv ?y2"
    by (rule reach_exec [OF y1, where t = "Route demo_reply"]) (simp_all add: demo_waiting_def demo_up_def demo_defs Let_def)
  have y3: "demo_reach conv ?y3"
    by (rule reach_exec [OF y2, where t = "Resolve 0 (Inr ''ok'')"]) (simp_all add: demo_waiting_def demo_up_def demo_defs Let_def)
  show ?thesis unfolding demo_answered_def Let_def
    using c_reply [of "r_calls ?y3 0" 0 "r_d ?y3" "Inr ''ok''"]
    by (intro reach_call [OF y3]) (simp add: demo_waiting_def demo_up_def demo_defs Let_def)
qed

lemma reach_streaming: "demo_reach conv (demo_streaming conv)"
proof -
  let ?y1 = "set_stream 0 (SRegister ''q'') (r_d demo_up) demo_up"
  let ?y2 = "set_stream 0 (SPublish 0) (snd (register_stream '''' 9 9 9 (r_d ?y1))) ?y1"
  let ?y3 = "?y2\<lparr>r_procs := [[], [Route demo_reply]]\<rparr>"
  let ?y4 = "?y3\<lparr>r_procs := [[], [Push 0 demo_reply]], r_routed := [demo_reply]\<rparr>"
  have y1: "demo_reach conv ?y1"
    using s_channel [of "r_streams demo_up 0" False "r_d demo_up" 1 "''q''"]
    by (intro reach_stream [OF reach_up]) (simp add: demo_up_def demo_defs Let_def)
  have y2: "demo_reach conv ?y2"
    using s_register [of "r_streams ?y1 0" "''q''" 9 9 9 "r_d ?y1" 0 "snd (register_stream '''' 9 9 9 (r_d ?y1))"]
    by (intro reach_stream [OF y1]) (simp add: demo_up_def demo_defs Let_def)
  have y3: "demo_reach conv ?y3" by (rule reach_receive [OF y2]) (simp add: demo_up_def demo_defs Let_def)
  have y4: "demo_reach conv ?y4"
    by (rule reach_exec [OF y3, where t = "Route demo_reply"]) (simp_all add: demo_up_def demo_defs Let_def)
  show ?thesis unfolding demo_streaming_def Let_def
    by (rule reach_exec [OF y4, where t = "Push 0 demo_reply"]) (simp_all add: demo_up_def demo_defs Let_def)
qed

section \<open>Properties\<close>

text \<open>
  C38. In every interleaving, a call that returns a body returns the body of a reply that
  arrived with the call's own correlation id, and its request was put on the wire at most
  once, however often publishing was attempted.
\<close>

theorem call_answered_by_own_reply:
  assumes "rpc_reach conv (start ids sids what limits) y" "inj ids"
  shows "length (filter snd (c_attempts (r_calls y k))) \<le> 1 \<and>
    (c_phase (r_calls y k) = CDone (Inr (Some b)) \<longrightarrow>
      (\<exists>dl \<in> set (r_routed y). d_CorrelationId dl = ids k \<and> d_Body dl = b))"
proof -
  have "attempts_ok (r_calls y k)" by (rule attempts_reach [OF assms(1)])
  then have "written_once (r_calls y k)"
    by (auto simp: attempts_ok_def intro: unwritten_once(2) split: call_phase.splits)
  moreover have "call_inv ids y" by (rule call_inv_reach [OF assms])
  then have "c_id (r_calls y k) = ids k" "c_phase (r_calls y k) = CDone (Inr (Some b)) \<Longrightarrow> replied y k b"
    by (rule call_invD)+
  ultimately show ?thesis by (auto simp: written_once_def replied_def)
qed

theorem call_answered_by_own_reply_witness:
  "c_phase (r_calls demo_answered 0) = CDone (Inr (Some ''ok'')) \<and> length (filter snd (c_attempts (r_calls demo_answered 0))) \<le> 1 \<and>
   (\<exists>dl \<in> set (r_routed demo_answered). d_CorrelationId dl = demo_ids 0 \<and> d_Body dl = ''ok'')"
proof -
  have "c_phase (r_calls demo_answered 0) = CDone (Inr (Some ''ok''))"
    by (simp add: demo_answered_def set_call_def Let_def)
  then show ?thesis using call_answered_by_own_reply [OF reach_answered [of "\<lambda>_. 0"] demo_ids_inj, of 0 "''ok''"] by blast
qed

text \<open>
  C39. The table of calls is exact in every interleaving: a call that has returned is not in
  it, and a call that waits is in it unless its outcome has arrived or is being delivered,
  so a reply, a lost connection and a close all reach it.
\<close>

theorem call_table_exact:
  assumes "rpc_reach conv (start ids sids what limits) y" "inj ids"
  shows "(c_phase (r_calls y k) = CDone r \<longrightarrow> map_of (d_calls (r_d y)) (ids k) = None) \<and>
    (c_phase (r_calls y k) = CWait n \<longrightarrow>
      map_of (d_calls (r_d y)) (ids k) = Some n \<or> d_done (r_d y) n \<noteq> None \<or> (\<exists>x. Resolve n x \<in> set (concat (r_procs y))))"
proof -
  note D = call_invD [OF call_inv_reach [OF assms]]
  have "holder y k m" if "map_of (d_calls (r_d y)) (ids k) = Some m" for m
    using D(5) [OF that] injD [OF assms(2)] by blast
  then have "map_of (d_calls (r_d y)) (ids k) = None" if "c_phase (r_calls y k) = CDone r"
    using that by (cases "map_of (d_calls (r_d y)) (ids k)") (auto simp: holder_def)
  moreover have "map_of (d_calls (r_d y)) (ids k) = Some n \<or> (\<exists>x. resolved y n x)" if "c_phase (r_calls y k) = CWait n"
    using that by (intro D(8)) (simp add: holder_def)
  ultimately show ?thesis unfolding resolved_def todo_def by blast
qed

theorem call_table_exact_witness:
  "map_of (d_calls (r_d demo_answered)) (demo_ids 0) = None \<and> c_phase (r_calls demo_waiting 0) = CWait 0 \<and>
   (map_of (d_calls (r_d demo_waiting)) (demo_ids 0) = Some 0 \<or> d_done (r_d demo_waiting) 0 \<noteq> None \<or>
    (\<exists>x. Resolve 0 x \<in> set (concat (r_procs demo_waiting))))"
proof -
  have "c_phase (r_calls demo_answered 0) = CDone (Inr (Some ''ok''))" "c_phase (r_calls demo_waiting 0) = CWait 0"
    by (simp_all add: demo_answered_def demo_waiting_def set_call_def Let_def)
  then show ?thesis
    using call_table_exact [OF reach_answered [of "\<lambda>_. 0"] demo_ids_inj, of 0 "Inr (Some ''ok'')" 0]
      call_table_exact [OF reach_waiting [of "\<lambda>_. 0"] demo_ids_inj, of 0 "Inr None" 0] by blast
qed

text \<open>
  C40. The process-wide byte count is exact in every interleaving of frames, failures, readers
  and releases: it is the number of bytes buffered by all streams, and returns to zero once
  no stream is open.
\<close>

theorem buffered_bytes_exact:
  assumes "rpc_reach conv (start ids sids what limits) y"
  shows "d_bufferedBytes (r_d y) = (\<Sum>n < d_fresh (r_d y). bytes_in (cl_chunks (d_stream (r_d y) n))) \<and>
    0 \<le> d_bufferedBytes (r_d y) \<and>
    ((\<forall>k. held_stream (s_phase (r_streams y k)) = None) \<longrightarrow> d_bufferedBytes (r_d y) = 0)"
proof -
  have inv: "stream_inv y" by (rule stream_inv_reach [OF assms])
  then have b: "d_bufferedBytes (r_d y) = (\<Sum>n < d_fresh (r_d y). bytes_in (cl_chunks (d_stream (r_d y) n)))"
    by (simp add: stream_inv_def counted_def)
  moreover have "0 \<le> d_bufferedBytes (r_d y)" unfolding b by (intro sum_nonneg bytes_in_nonneg)
  moreover have "d_bufferedBytes (r_d y) = 0" if "\<forall>k. held_stream (s_phase (r_streams y k)) = None"
  proof -
    have "spent (d_stream (r_d y) n)" for n using inv that by (auto simp: stream_inv_def keeps_stream_def)
    then show ?thesis unfolding b by (intro sum.neutral) (auto simp: spent_def)
  qed
  ultimately show ?thesis by blast
qed

theorem buffered_bytes_exact_witness:
  "d_bufferedBytes (r_d (demo_streaming (\<lambda>_. 0))) = 2 \<and>
   (\<Sum>n < d_fresh (r_d (demo_streaming (\<lambda>_. 0))). bytes_in (cl_chunks (d_stream (r_d (demo_streaming (\<lambda>_. 0))) n))) = 2"
proof -
  have "d_bufferedBytes (r_d (demo_streaming (\<lambda>_. 0))) = 2"
    by (simp add: demo_streaming_def demo_up_def demo_defs on_stream_def push_def push_body_def newStream_def
        streamFinal_def streamSeq_def Let_def)
  then show ?thesis using buffered_bytes_exact [OF reach_streaming [of "\<lambda>_. 0"]] by simp
qed

end
