(* ===== verification/Config.thy ===== *)
theory Config imports Headers "HOL-Library.Multiset" begin

text \<open>
  The configuration of a bus, \<open>config.go\<close>: the defaults, the environment variables that
  override them and the validation \<open>Dial\<close> runs. The environment is a function from names to
  values, empty for a variable that is not set, as \<open>os.Getenv\<close> reports it. The validator
  ranges over two Go maps, whose order is unspecified: the order in which their entries
  arrive is an argument, and the facts hold for every order.
\<close>

section \<open>Model\<close>

subsection \<open>Data\<close>

record ReconnectPolicy =
  rp_MaxRetries :: int
  rp_InitialDelay :: duration
  rp_MaxDelay :: duration
  rp_Multiplier :: float64

record Config =
  cf_BusExchange :: string
  cf_CallbacksExchange :: string
  cf_EventsExchange :: string
  cf_CancelExchange :: string
  cf_ProcessingTimeout :: duration
  cf_RPCTimeout :: duration
  cf_StreamIdleTimeout :: duration
  cf_DefaultPrefetch :: int
  cf_PublishConfirmTimeout :: duration
  cf_Heartbeat :: duration
  cf_ConnectionReadyTimeout :: duration
  cf_MaxOutstandingConfirms :: int
  cf_StreamMaxBufferedChunks :: int
  cf_StreamMaxBufferedBytes :: int
  cf_StreamMaxTotalBufferedBytes :: int
  cf_ExposeInternalErrors :: bool
  cf_ShutdownDrainTimeout :: duration
  cf_Reconnect :: ReconnectPolicy

text \<open>\<open>time.Millisecond\<close> and \<open>time.Second\<close>, in nanoseconds.\<close>

definition Millisecond :: duration where "Millisecond = 1000000"
definition Second :: duration where "Second = 1000000000"

definition DefaultConfig :: Config where
  "DefaultConfig =
     \<lparr>cf_BusExchange = ''proto.bus'',
      cf_CallbacksExchange = ''proto.bus.callback'',
      cf_EventsExchange = ''proto.bus.events'',
      cf_CancelExchange = ''proto.bus.cancel'',
      cf_ProcessingTimeout = 600 * Second,
      cf_RPCTimeout = 600 * Second,
      cf_StreamIdleTimeout = 60 * Second,
      cf_DefaultPrefetch = 1,
      cf_PublishConfirmTimeout = 30 * Second,
      cf_Heartbeat = 30 * Second,
      cf_ConnectionReadyTimeout = 30 * Second,
      cf_MaxOutstandingConfirms = 256,
      cf_StreamMaxBufferedChunks = 1024,
      cf_StreamMaxBufferedBytes = 64 * 2 ^ 20,
      cf_StreamMaxTotalBufferedBytes = 256 * 2 ^ 20,
      cf_ExposeInternalErrors = True,
      cf_ShutdownDrainTimeout = 30 * Second,
      cf_Reconnect =
        \<lparr>rp_MaxRetries = 10, rp_InitialDelay = Second, rp_MaxDelay = 30 * Second,
         rp_Multiplier = Fin 2 0\<rparr>\<rparr>"

subsection \<open>Environment variables\<close>

type_synonym environment = "string \<Rightarrow> string"

text \<open>An int64 result of an unbounded computation.\<close>

definition wrap64 :: "int \<Rightarrow> int" where
  "wrap64 i = sint (word_of_int i :: 64 word)"

definition envString :: "environment \<Rightarrow> string \<Rightarrow> string \<Rightarrow> string" where
  "envString getenv name dst = (let v = getenv name in if v \<noteq> '''' then v else dst)"

text \<open>
  \<open>envPositive\<close>. The loop over the runes of the trimmed value refuses any that is not an
  ASCII digit; every byte of a longer rune is above 127 and a malformed one decodes to U+FFFD,
  so the test on bytes is the same.
\<close>

definition envPositive :: "environment \<Rightarrow> string \<Rightarrow> nat \<Rightarrow> nat option" where
  "envPositive getenv name bound =
     (let raw = trim_space (getenv name)
      in if raw = '''' then None
         else if \<not> list_all is_digit raw then None
         else (case parse_uint raw of
                 None \<Rightarrow> None
               | Some v \<Rightarrow> if v = 0 \<or> v > bound then None else Some v))"

definition envInt :: "environment \<Rightarrow> string \<Rightarrow> int \<Rightarrow> int" where
  "envInt getenv name dst =
     (case envPositive getenv name (2 ^ 31 - 1) of Some v \<Rightarrow> wrap64 (int v) | None \<Rightarrow> dst)"

definition envInt64 :: "environment \<Rightarrow> string \<Rightarrow> int \<Rightarrow> int" where
  "envInt64 getenv name dst =
     (case envPositive getenv name (2 ^ 63 - 1) of Some v \<Rightarrow> wrap64 (int v) | None \<Rightarrow> dst)"

definition envDuration :: "environment \<Rightarrow> string \<Rightarrow> duration \<Rightarrow> duration \<Rightarrow> duration" where
  "envDuration getenv name unit dst =
     (case envPositive getenv name (nat ((2 ^ 63 - 1) div unit)) of
        Some v \<Rightarrow> wrap64 (wrap64 (int v) * unit)
      | None \<Rightarrow> dst)"

definition envBool :: "environment \<Rightarrow> string \<Rightarrow> bool \<Rightarrow> bool" where
  "envBool getenv name dst =
     (let v = to_lower (trim_space (getenv name))
      in if v \<in> set [''1'', ''true'', ''yes'', ''on''] then True
         else if v \<in> set [''0'', ''false'', ''no'', ''off''] then False
         else dst)"

definition ConfigFromEnv :: "environment \<Rightarrow> Config" where
  "ConfigFromEnv getenv =
     (let c = DefaultConfig in
      c\<lparr>cf_BusExchange := envString getenv ''BUS_EXCHANGE_NAME'' (cf_BusExchange c),
        cf_CallbacksExchange := envString getenv ''CALLBACKS_EXCHANGE_NAME'' (cf_CallbacksExchange c),
        cf_EventsExchange := envString getenv ''EVENTS_EXCHANGE_NAME'' (cf_EventsExchange c),
        cf_CancelExchange := envString getenv ''CANCEL_EXCHANGE_NAME'' (cf_CancelExchange c),
        cf_ProcessingTimeout :=
          envDuration getenv ''MESSAGE_PROCESSING_TIMEOUT'' Millisecond (cf_ProcessingTimeout c),
        cf_RPCTimeout := envDuration getenv ''RPC_CALL_TIMEOUT_MS'' Millisecond (cf_RPCTimeout c),
        cf_StreamIdleTimeout :=
          envDuration getenv ''STREAM_IDLE_TIMEOUT_MS'' Millisecond (cf_StreamIdleTimeout c),
        cf_DefaultPrefetch := envInt getenv ''DEFAULT_PREFETCH'' (cf_DefaultPrefetch c),
        cf_PublishConfirmTimeout :=
          envDuration getenv ''PUBLISH_CONFIRM_TIMEOUT_MS'' Millisecond (cf_PublishConfirmTimeout c),
        cf_Heartbeat := envDuration getenv ''AMQP_HEARTBEAT_SECONDS'' Second (cf_Heartbeat c),
        cf_ConnectionReadyTimeout :=
          envDuration getenv ''CONNECTION_READY_TIMEOUT_MS'' Millisecond (cf_ConnectionReadyTimeout c),
        cf_MaxOutstandingConfirms :=
          envInt getenv ''MAX_OUTSTANDING_CONFIRMS'' (cf_MaxOutstandingConfirms c),
        cf_StreamMaxBufferedChunks :=
          envInt getenv ''STREAM_MAX_BUFFERED_CHUNKS'' (cf_StreamMaxBufferedChunks c),
        cf_StreamMaxBufferedBytes :=
          envInt64 getenv ''STREAM_MAX_BUFFERED_BYTES'' (cf_StreamMaxBufferedBytes c),
        cf_StreamMaxTotalBufferedBytes :=
          envInt64 getenv ''STREAM_MAX_TOTAL_BUFFERED_BYTES'' (cf_StreamMaxTotalBufferedBytes c),
        cf_ExposeInternalErrors :=
          envBool getenv ''PROTOBUS_EXPOSE_INTERNAL_ERRORS'' (cf_ExposeInternalErrors c),
        cf_ShutdownDrainTimeout :=
          envDuration getenv ''SHUTDOWN_DRAIN_TIMEOUT_MS'' Millisecond (cf_ShutdownDrainTimeout c)\<rparr>)"

subsection \<open>Validation\<close>

text \<open>One constructor for each message \<open>Validate\<close> can report.\<close>

datatype config_error =
    EmptyName string
  | SameName string string string
  | NotPositive string duration
  | NegativeHeartbeat duration
  | NegativeDrain duration
  | PrefetchRange int
  | ConfirmsRange int
  | ChunksNotPositive int
  | BytesNotPositive int
  | TotalNotPositive int
  | NegativeRetries int
  | DelaysSwapped duration duration
  | MultiplierBelowOne float64

text \<open>The comparison \<open>x < 1\<close> of a float64; every comparison with a NaN is false.\<close>

fun float_lt_one :: "float64 \<Rightarrow> bool" where
  "float_lt_one NaN = False"
| "float_lt_one PosInf = False"
| "float_lt_one NegInf = True"
| "float_lt_one (Fin m e) = (if 0 \<le> e then m * 2 ^ nat e < 1 else m < 2 ^ nat (- e))"

text \<open>The loop over the exchange names: \<open>seen\<close> is the map \<open>names\<close>.\<close>

fun check_names :: "(string \<rightharpoonup> string) \<Rightarrow> (string \<times> string) list \<Rightarrow> config_error list" where
  "check_names seen [] = []"
| "check_names seen ((field, name) # rest) =
     (if name = '''' then EmptyName field # check_names seen rest
      else (case seen name of
              Some other \<Rightarrow> [SameName other field name]
            | None \<Rightarrow> []) @ check_names (seen(name \<mapsto> field)) rest)"

definition exchange_names :: "Config \<Rightarrow> (string \<times> string) list" where
  "exchange_names c =
     [(''BusExchange'', cf_BusExchange c), (''CallbacksExchange'', cf_CallbacksExchange c),
      (''EventsExchange'', cf_EventsExchange c), (''CancelExchange'', cf_CancelExchange c)]"

definition positive_durations :: "Config \<Rightarrow> (string \<times> duration) list" where
  "positive_durations c =
     [(''ProcessingTimeout'', cf_ProcessingTimeout c), (''RPCTimeout'', cf_RPCTimeout c),
      (''StreamIdleTimeout'', cf_StreamIdleTimeout c),
      (''PublishConfirmTimeout'', cf_PublishConfirmTimeout c),
      (''ConnectionReadyTimeout'', cf_ConnectionReadyTimeout c),
      (''Reconnect.InitialDelay'', rp_InitialDelay (cf_Reconnect c))]"

definition check_positive :: "(string \<times> duration) list \<Rightarrow> config_error list" where
  "check_positive ds = concat (map (\<lambda>(field, d). if d \<le> 0 then [NotPositive field d] else []) ds)"

definition check_scalars :: "Config \<Rightarrow> config_error list" where
  "check_scalars c =
     (if cf_Heartbeat c < 0 then [NegativeHeartbeat (cf_Heartbeat c)] else []) @
     (if cf_ShutdownDrainTimeout c < 0 then [NegativeDrain (cf_ShutdownDrainTimeout c)] else []) @
     (if cf_DefaultPrefetch c < 1 \<or> cf_DefaultPrefetch c > 65535
      then [PrefetchRange (cf_DefaultPrefetch c)] else []) @
     (if cf_MaxOutstandingConfirms c < 1 \<or> cf_MaxOutstandingConfirms c > 65535
      then [ConfirmsRange (cf_MaxOutstandingConfirms c)] else []) @
     (if cf_StreamMaxBufferedChunks c < 1
      then [ChunksNotPositive (cf_StreamMaxBufferedChunks c)] else []) @
     (if cf_StreamMaxBufferedBytes c < 1
      then [BytesNotPositive (cf_StreamMaxBufferedBytes c)] else []) @
     (if cf_StreamMaxTotalBufferedBytes c < 1
      then [TotalNotPositive (cf_StreamMaxTotalBufferedBytes c)] else []) @
     (if rp_MaxRetries (cf_Reconnect c) < 0
      then [NegativeRetries (rp_MaxRetries (cf_Reconnect c))] else []) @
     (if rp_MaxDelay (cf_Reconnect c) < rp_InitialDelay (cf_Reconnect c)
      then [DelaysSwapped (rp_MaxDelay (cf_Reconnect c)) (rp_InitialDelay (cf_Reconnect c))] else []) @
     (if float_lt_one (rp_Multiplier (cf_Reconnect c))
      then [MultiplierBelowOne (rp_Multiplier (cf_Reconnect c))] else [])"

text \<open>
  \<open>Validate\<close>: the errors joined, none when the configuration is accepted. The two orders
  are those in which the maps deliver their entries.
\<close>

definition Validate ::
  "((string \<times> string) list \<Rightarrow> (string \<times> string) list) \<Rightarrow>
   ((string \<times> duration) list \<Rightarrow> (string \<times> duration) list) \<Rightarrow> Config \<Rightarrow> config_error list" where
  "Validate order1 order2 c =
     check_names Map.empty (order1 (exchange_names c)) @
     check_positive (order2 (positive_durations c)) @ check_scalars c"

section \<open>Facts\<close>

lemma wrap64_id: "- (2 ^ 63) \<le> i \<Longrightarrow> i < 2 ^ 63 \<Longrightarrow> wrap64 i = i"
  unfolding wrap64_def by (rule sint_of_int_64) simp_all

lemma envPositive_range: "envPositive getenv name bound = Some v \<Longrightarrow> 0 < v \<and> v \<le> bound"
  by (auto simp: envPositive_def Let_def split: if_splits option.splits)

text \<open>The bound handed to \<open>envPositive\<close> is exactly what keeps the conversions from wrapping.\<close>

lemma envInt_exact:
  "envInt getenv name dst =
     (case envPositive getenv name (2 ^ 31 - 1) of Some v \<Rightarrow> int v | None \<Rightarrow> dst)"
proof (cases "envPositive getenv name (2 ^ 31 - 1)")
  case (Some v)
  with envPositive_range [OF Some] show ?thesis by (simp add: envInt_def wrap64_id)
qed (simp add: envInt_def)

lemma envInt64_exact:
  "envInt64 getenv name dst =
     (case envPositive getenv name (2 ^ 63 - 1) of Some v \<Rightarrow> int v | None \<Rightarrow> dst)"
proof (cases "envPositive getenv name (2 ^ 63 - 1)")
  case (Some v)
  with envPositive_range [OF Some] show ?thesis by (simp add: envInt64_def wrap64_id)
qed (simp add: envInt64_def)

lemma scaled_range:
  fixes v unit :: int
  assumes "0 < unit" "0 \<le> v" "v \<le> (2 ^ 63 - 1) div unit"
  shows "v \<le> v * unit \<and> v * unit < 2 ^ 63"
proof
  show "v \<le> v * unit" using assms(1,2) mult_left_mono [of 1 unit v] by simp
  have "v * unit \<le> (2 ^ 63 - 1) div unit * unit" using assms by (simp add: mult_right_mono)
  also have "\<dots> \<le> 2 ^ 63 - 1"
    using assms(1) pos_mod_sign [of unit "2 ^ 63 - 1"] div_mult_mod_eq [of "2 ^ 63 - 1" unit] by linarith
  finally show "v * unit < 2 ^ 63" by simp
qed

lemma envDuration_exact:
  assumes "0 < unit"
  shows "envDuration getenv name unit dst =
    (case envPositive getenv name (nat ((2 ^ 63 - 1) div unit)) of Some v \<Rightarrow> int v * unit | None \<Rightarrow> dst)"
proof (cases "envPositive getenv name (nat ((2 ^ 63 - 1) div unit))")
  case (Some v)
  have "0 \<le> (2 ^ 63 - 1) div unit" using assms by (simp add: pos_imp_zdiv_nonneg_iff)
  with envPositive_range [OF Some] have "int v \<le> (2 ^ 63 - 1) div unit" by linarith
  from scaled_range [OF assms _ this] have "int v \<le> int v * unit" "int v * unit < 2 ^ 63" by simp_all
  then have "wrap64 (wrap64 (int v) * unit) = int v * unit" by (simp add: wrap64_id)
  with Some show ?thesis by (simp add: envDuration_def)
qed (simp add: envDuration_def)

lemma envInt_pos: "0 < dst \<Longrightarrow> 0 < envInt getenv name dst"
  by (auto simp: envInt_exact dest: envPositive_range split: option.split)

lemma envInt64_pos: "0 < dst \<Longrightarrow> 0 < envInt64 getenv name dst"
  by (auto simp: envInt64_exact dest: envPositive_range split: option.split)

lemma envDuration_pos: "0 < unit \<Longrightarrow> 0 < dst \<Longrightarrow> 0 < envDuration getenv name unit dst"
  by (auto simp: envDuration_exact dest: envPositive_range split: option.split)

lemma envString_nonempty: "dst \<noteq> [] \<Longrightarrow> envString getenv name dst \<noteq> []"
  by (simp add: envString_def Let_def)

text \<open>
  The loop over the names reports nothing exactly when the names are distinct, not empty
  and none was seen before, whatever the order.
\<close>

lemma check_names_ok:
  "check_names seen es = [] \<longleftrightarrow>
     distinct (map snd es) \<and> [] \<notin> snd ` set es \<and> (\<forall>n \<in> snd ` set es. seen n = None)"
proof (induction es arbitrary: seen)
  case Nil
  then show ?case by simp
next
  case (Cons e es)
  obtain field name where e: "e = (field, name)" by force
  have "(\<forall>n \<in> snd ` set es. (seen(name \<mapsto> field)) n = None) \<longleftrightarrow>
      name \<notin> snd ` set es \<and> (\<forall>n \<in> snd ` set es. seen n = None)"
    by auto
  with Cons.IH [of "seen(name \<mapsto> field)"] Cons.IH [of seen] show ?case
    by (auto simp: e simp del: fun_upd_apply split: option.split)
qed

lemma check_positive_ok: "check_positive ds = [] \<longleftrightarrow> (\<forall>d \<in> snd ` set ds. 0 < d)"
  by (induction ds) (auto simp: check_positive_def not_le split: if_splits)

definition reorders :: "('a list \<Rightarrow> 'a list) \<Rightarrow> bool" where
  "reorders f \<longleftrightarrow> (\<forall>xs. mset (f xs) = mset xs)"

lemma reorders_set: "reorders f \<Longrightarrow> set (f xs) = set xs"
  unfolding reorders_def by (metis set_mset_mset)

lemma reorders_distinct:
  assumes "reorders f"
  shows "distinct (map g (f xs)) = distinct (map g xs)"
proof -
  from assms have "mset (f xs) = mset xs" by (simp add: reorders_def)
  then have "mset (map g (f xs)) = mset (map g xs)" by simp
  then show ?thesis by (rule mset_eq_imp_distinct_iff)
qed

lemma Validate_ok:
  assumes "reorders order1" "reorders order2"
  shows "Validate order1 order2 c = [] \<longleftrightarrow>
    distinct (map snd (exchange_names c)) \<and> [] \<notin> snd ` set (exchange_names c) \<and>
    (\<forall>d \<in> snd ` set (positive_durations c). 0 < d) \<and> check_scalars c = []"
  by (simp add: Validate_def check_names_ok check_positive_ok reorders_set reorders_distinct assms)

lemma config_defaults [simp]:
  "0 < Millisecond" "0 < Second"
  by (simp_all add: Millisecond_def Second_def)

lemmas env_pos = envInt_pos envInt64_pos envDuration_pos

section \<open>Properties\<close>

text \<open>
  C26. Typing of the environment. Whatever the environment variables hold, the
  configuration read from them is refused by the validator only for names that coincide or
  for a prefetch or confirm window that does not fit 16 bits: no value read can be empty,
  negative or zero, and no conversion wraps around, so the result does not depend on the
  order in which the validator's maps are iterated.
\<close>

theorem config_from_env_valid:
  assumes "reorders order1" "reorders order2"
  shows "Validate order1 order2 (ConfigFromEnv getenv) = [] \<longleftrightarrow>
    distinct [cf_BusExchange (ConfigFromEnv getenv), cf_CallbacksExchange (ConfigFromEnv getenv),
      cf_EventsExchange (ConfigFromEnv getenv), cf_CancelExchange (ConfigFromEnv getenv)] \<and>
    cf_DefaultPrefetch (ConfigFromEnv getenv) \<le> 65535 \<and>
    cf_MaxOutstandingConfirms (ConfigFromEnv getenv) \<le> 65535"
proof -
  let ?c = "ConfigFromEnv getenv"
  have names: "[] \<notin> snd ` set (exchange_names ?c)"
    by (auto simp: exchange_names_def ConfigFromEnv_def Let_def DefaultConfig_def dest!: sym [of "[]"]
        dest: envString_nonempty [THEN notE, rotated])
  have durations: "\<forall>d \<in> snd ` set (positive_durations ?c). 0 < d"
    by (simp add: positive_durations_def ConfigFromEnv_def Let_def DefaultConfig_def env_pos)
  have "0 < cf_Heartbeat ?c" "0 < cf_ShutdownDrainTimeout ?c" "0 < cf_DefaultPrefetch ?c"
    "0 < cf_MaxOutstandingConfirms ?c" "0 < cf_StreamMaxBufferedChunks ?c"
    "0 < cf_StreamMaxBufferedBytes ?c" "0 < cf_StreamMaxTotalBufferedBytes ?c"
    by (simp_all add: ConfigFromEnv_def Let_def DefaultConfig_def env_pos)
  moreover have "cf_Reconnect ?c = cf_Reconnect DefaultConfig"
    by (simp add: ConfigFromEnv_def Let_def)
  ultimately have "check_scalars ?c = [] \<longleftrightarrow>
      cf_DefaultPrefetch ?c \<le> 65535 \<and> cf_MaxOutstandingConfirms ?c \<le> 65535"
    by (auto simp: check_scalars_def DefaultConfig_def Second_def)
  with Validate_ok [OF assms, of ?c] names durations show ?thesis
    by (simp add: exchange_names_def)
qed

theorem config_from_env_valid_witness:
  "Validate rev rev (ConfigFromEnv (\<lambda>n. if n = ''EVENTS_EXCHANGE_NAME'' then ''proto.bus'' else '''')) \<noteq> []"
  using config_from_env_valid [of rev rev "\<lambda>n. if n = ''EVENTS_EXCHANGE_NAME'' then ''proto.bus'' else ''''"]
  by (simp add: reorders_def ConfigFromEnv_def Let_def DefaultConfig_def envString_def)

end
