(* ===== verification/CustomTypes.thy ===== *)
theory CustomTypes imports Headers Errors begin

text \<open>
  The built-in custom types: the conversions of \<open>pbtypes/pbtypes.go\<close> (a bigint is 32
  big-endian bytes, a timestamp milliseconds since the epoch) and the check of
  \<open>customtypes.go\<close> that every message protobus encodes or decodes holds no bigint wider
  than that. The protobuf library is a parameter: a schema gives the fields of each message
  type, and a message is the tree of values reflection shows.
\<close>

section \<open>Conversions\<close>

subsection \<open>Model\<close>

definition BigintBytes :: nat where "BigintBytes = 32"

definition bigintMax :: int where "bigintMax = 2 ^ (8 * BigintBytes) - 1"

text \<open>\<open>big.Int.FillBytes\<close> into a buffer of \<open>n\<close> bytes (for a value that fits), and \<open>SetBytes\<close>.\<close>

fun FillBytes :: "nat \<Rightarrow> nat \<Rightarrow> bytes" where
  "FillBytes 0 v = []"
| "FillBytes (Suc n) v = FillBytes n (v div 256) @ [char_of (v mod 256)]"

definition SetBytes :: "bytes \<Rightarrow> nat" where
  "SetBytes b = foldl (\<lambda>acc c. acc * 256 + of_char c) 0 b"

definition range_error :: "string \<Rightarrow> err" where
  "range_error detail =
     wrap1 (sentinel_text ErrBigintRange @ '': '' @ detail) (Sentinel ErrBigintRange)"

definition width_error :: "nat \<Rightarrow> err" where
  "width_error n =
     range_error (''wire value is '' @ nat_digits n @ '' bytes, at most '' @ nat_digits BigintBytes @ '' allowed'')"

definition NewBigint :: "int option \<Rightarrow> (err, bytes) result" where
  "NewBigint p =
     (case p of
        None \<Rightarrow> Inl (range_error ''nil value'')
      | Some v \<Rightarrow>
          if v < 0 then Inl (range_error (format_int v @ '' is negative; the wire format is unsigned''))
          else if v > bigintMax then Inl (range_error (format_int v @ '' exceeds 2^256-1''))
          else Inr (FillBytes BigintBytes (nat v)))"

text \<open>\<open>MustBigint\<close> panics on an error, which is \<open>None\<close> here.\<close>

definition MustBigint :: "int option \<Rightarrow> bytes option" where
  "MustBigint v = (case NewBigint v of Inr x \<Rightarrow> Some x | Inl _ \<Rightarrow> None)"

definition BigintFromUint64 :: "64 word \<Rightarrow> bytes option" where
  "BigintFromUint64 u = MustBigint (Some (uint u))"

definition hex_letter :: "char \<Rightarrow> bool" where
  "hex_letter c \<longleftrightarrow>
     97 \<le> byte_val c \<and> byte_val c \<le> 102 \<or> 65 \<le> byte_val c \<and> byte_val c \<le> 70"

definition digit_val :: "char \<Rightarrow> nat" where
  "digit_val c =
     (if is_digit c then byte_val c - 48
      else if 97 \<le> byte_val c then byte_val c - 87 else byte_val c - 55)"

text \<open>\<open>big.Int.SetString(digits, base)\<close> on digits of the base: it fails only when there are none.\<close>

definition SetString :: "string \<Rightarrow> nat \<Rightarrow> nat option" where
  "SetString digits base =
     (if digits = [] then None else Some (foldl (\<lambda>acc c. acc * base + digit_val c) 0 digits))"

text \<open>
  \<open>ParseBigint\<close>. The argument \<open>quote\<close> is \<open>strconv.Quote\<close>, which the verb \<open>%q\<close> calls and
  whose result depends on the Unicode tables; it shows up in the text of an error only.
\<close>

definition not_integer :: "(string \<Rightarrow> string) \<Rightarrow> string \<Rightarrow> err" where
  "not_integer quote s = new_error (''protobus: '' @ quote s @ '' is not a non-negative integer'')"

definition ParseBigint :: "(string \<Rightarrow> string) \<Rightarrow> string \<Rightarrow> (err, bytes) result" where
  "ParseBigint quote s =
     (let (digits, base) =
            (if length s > 2 \<and> (has_prefix s ''0x'' \<or> has_prefix s ''0X'') then (drop 2 s, 16) else (s, 10))
      in if \<not> list_all (\<lambda>c. is_digit c \<or> base = 16 \<and> hex_letter c) digits then Inl (not_integer quote s)
         else (case SetString digits base of
                 None \<Rightarrow> Inl (not_integer quote s)
               | Some v \<Rightarrow> NewBigint (Some (int v))))"

text \<open>\<open>(*Bigint).BigInt\<close>; a nil message reads as an empty value.\<close>

definition BigInt :: "bytes option \<Rightarrow> (err, int) result" where
  "BigInt x =
     (let b = (case x of None \<Rightarrow> [] | Some v \<Rightarrow> v)
      in if length b > BigintBytes then Inl (width_error (length b)) else Inr (int (SetBytes b)))"

text \<open>
  A time is an instant in nanoseconds since the Unix epoch. \<open>UnixMilli\<close> multiplies the seconds
  by 1000 and adds the nanoseconds of the second divided by a million, in int64 arithmetic;
  \<open>time.UnixMilli\<close> is exact on every int64.
\<close>

definition UnixMilli :: "int \<Rightarrow> 64 word" where
  "UnixMilli t = of_int (t div 1000000000) * 1000 + of_int (t mod 1000000000 div 1000000)"

definition NewTimestamp :: "int \<Rightarrow> 64 word option" where
  "NewTimestamp t = Some (UnixMilli t)"

definition AsTime :: "64 word option \<Rightarrow> int" where
  "AsTime x = sint (case x of None \<Rightarrow> 0 | Some v \<Rightarrow> v) * 1000000"

subsection \<open>Facts\<close>

lemma length_FillBytes [simp]: "length (FillBytes n v) = n"
  by (induction n v rule: FillBytes.induct) simp_all

lemma SetBytes_snoc: "SetBytes (b @ [c]) = SetBytes b * 256 + of_char c"
  by (simp add: SetBytes_def)

lemma SetBytes_FillBytes: "SetBytes (FillBytes n v) = v mod 256 ^ n"
proof (induction n v rule: FillBytes.induct)
  case (1 v)
  show ?case by (simp add: SetBytes_def)
next
  case (2 n v)
  have "v mod 256 ^ Suc n = 256 * (v div 256 mod 256 ^ n) + v mod 256"
    by (simp add: mod_mult2_eq)
  with 2 show ?case by (simp add: SetBytes_snoc)
qed

lemma SetBytes_bound: "SetBytes b < 256 ^ length b"
proof (induction b rule: rev_induct)
  case Nil
  show ?case by (simp add: SetBytes_def)
next
  case (snoc c b)
  have "Suc (SetBytes b) * 256 \<le> 256 ^ length b * 256"
    using snoc by (intro mult_le_mono1) simp
  moreover have "SetBytes b * 256 + of_char c < Suc (SetBytes b) * 256" by simp
  ultimately have "SetBytes b * 256 + of_char c < 256 ^ length b * 256" by (rule less_le_trans [rotated])
  then show ?case by (simp add: SetBytes_snoc mult.commute)
qed

lemma FillBytes_SetBytes: "FillBytes (length b) (SetBytes b) = b"
proof (induction b rule: rev_induct)
  case Nil
  show ?case by simp
next
  case (snoc c b)
  have c: "of_char c < (256 :: nat)" by simp
  then have "(SetBytes b * 256 + of_char c) div 256 = SetBytes b"
    and "(SetBytes b * 256 + of_char c) mod 256 = of_char c"
    by simp_all
  with snoc show ?case by (simp add: SetBytes_snoc)
qed

lemma range_error_is: "errors_is (range_error d) ErrBigintRange"
  by (simp add: range_error_def errors_is_def)

lemma NewBigint_ok:
  "0 \<le> v \<Longrightarrow> v \<le> bigintMax \<Longrightarrow> NewBigint (Some v) = Inr (FillBytes BigintBytes (nat v))"
  by (simp add: NewBigint_def)

lemma BigInt_NewBigint:
  assumes "0 \<le> v" "v \<le> bigintMax"
  shows "BigInt (Some (FillBytes BigintBytes (nat v))) = Inr v"
proof -
  have "nat v < 256 ^ BigintBytes"
    using assms by (simp add: bigintMax_def BigintBytes_def nat_less_iff)
  with assms show ?thesis by (simp add: BigInt_def SetBytes_FillBytes)
qed

lemma UnixMilli_exact:
  assumes "- (2 ^ 63) \<le> t div 1000000" "t div 1000000 < 2 ^ 63"
  shows "sint (UnixMilli t) = t div 1000000"
proof -
  have t: "t mod 1000000000 + (t div 1000000000 * 1000) * 1000000 = t" by simp
  have "(t mod 1000000000 + (t div 1000000000 * 1000) * 1000000) div 1000000 =
      t div 1000000000 * 1000 + t mod 1000000000 div 1000000"
    by (rule div_mult_self1) simp
  then have "t div 1000000 = t div 1000000000 * 1000 + t mod 1000000000 div 1000000"
    unfolding t .
  then have "UnixMilli t = of_int (t div 1000000)"
    by (simp only: UnixMilli_def of_int_add of_int_mult of_int_numeral)
  with assms show ?thesis by (simp only: sint_of_int_64)
qed

section \<open>The check of every message\<close>

subsection \<open>Model\<close>

text \<open>
  A field has a cardinality and, when its values (the values of the entries, for a map) are
  messages, the name of their type. A schema lists the fields of every message type. A
  message shows its type, the bytes of its field 1 (read only for a bigint) and, for each
  populated message field in the order reflection visits them, the values it holds.
\<close>

datatype cardinality = Singular | Repeated | MapField

record field_desc =
  fd_card :: cardinality
  fd_Message :: "string option"

type_synonym schema = "(string \<times> field_desc list) list"

definition Fields :: "schema \<Rightarrow> string \<Rightarrow> field_desc list" where
  "Fields S md = (case map_of S md of None \<Rightarrow> [] | Some fds \<Rightarrow> fds)"

datatype message = Message (m_type: string) (m_value: bytes) (m_fields: "(field_desc \<times> message list) list")

definition bigintName :: string where "bigintName = ''bigint''"

text \<open>
  \<open>reachesBigintWalk\<close>, with the map of visited types threaded through the loop over the
  fields. The recursion descends only into types not visited before, so its depth is at
  most the number of types; the fuel is that number and one more.
\<close>

fun reachesBigintWalk :: "nat \<Rightarrow> schema \<Rightarrow> string \<Rightarrow> string set \<Rightarrow> bool \<times> string set"
and walkFields :: "nat \<Rightarrow> schema \<Rightarrow> field_desc list \<Rightarrow> string set \<Rightarrow> bool \<times> string set" where
  "reachesBigintWalk 0 S md visiting = (False, visiting)"
| "reachesBigintWalk (Suc n) S md visiting =
     (if md = bigintName then (True, visiting)
      else if md \<in> visiting then (False, visiting)
      else walkFields n S (Fields S md) (insert md visiting))"
| "walkFields n S [] visiting = (False, visiting)"
| "walkFields n S (fd # fds) visiting =
     (case fd_Message fd of
        None \<Rightarrow> walkFields n S fds visiting
      | Some m \<Rightarrow>
          let (found, visiting1) = reachesBigintWalk n S m visiting
          in if found then (True, visiting1) else walkFields n S fds visiting1)"

text \<open>\<open>reachesBigint\<close>, with the process-wide cache it reads and fills.\<close>

type_synonym cache = "string \<rightharpoonup> bool"

definition reachesBigint :: "schema \<Rightarrow> string \<Rightarrow> cache \<Rightarrow> bool \<times> cache" where
  "reachesBigint S md hasBigint =
     (case hasBigint md of
        Some v \<Rightarrow> (v, hasBigint)
      | None \<Rightarrow>
          let found = fst (reachesBigintWalk (Suc (length S)) S md {})
          in (found, hasBigint(md \<mapsto> found)))"

text \<open>
  \<open>checkMessage\<close>: the loop over the populated fields and, for each, over its values. The
  three branches of the switch differ in how they reach the values; all stop at the first
  error.
\<close>

fun checkMessage :: "schema \<Rightarrow> message \<Rightarrow> cache \<Rightarrow> err option \<times> cache"
and checkFields :: "schema \<Rightarrow> (field_desc \<times> message list) list \<Rightarrow> cache \<Rightarrow> err option \<times> cache"
and checkValues :: "schema \<Rightarrow> message list \<Rightarrow> cache \<Rightarrow> err option \<times> cache" where
  "checkMessage S (Message t v fs) c =
     (if t = bigintName
      then (if length v > BigintBytes then (Some (width_error (length v)), c) else (None, c))
      else checkFields S fs c)"
| "checkFields S [] c = (None, c)"
| "checkFields S ((fd, vs) # fs) c =
     (case fd_Message fd of
        None \<Rightarrow> checkFields S fs c
      | Some m \<Rightarrow>
          let (reaches, c1) = reachesBigint S m c
          in if \<not> reaches then checkFields S fs c1
             else (case checkValues S vs c1 of
                     (Some e, c2) \<Rightarrow> (Some e, c2)
                   | (None, c2) \<Rightarrow> checkFields S fs c2))"
| "checkValues S [] c = (None, c)"
| "checkValues S (m # ms) c =
     (case checkMessage S m c of
        (Some e, c1) \<Rightarrow> (Some e, c1)
      | (None, c1) \<Rightarrow> checkValues S ms c1)"

definition checkCustomTypes :: "schema \<Rightarrow> message \<Rightarrow> cache \<Rightarrow> err option \<times> cache" where
  "checkCustomTypes S m c =
     (let (reaches, c1) = reachesBigint S (m_type m) c
      in if \<not> reaches then (None, c1) else checkMessage S m c1)"

text \<open>
  \<open>unmarshal\<close> and \<open>marshal\<close>, over the protobuf library's own \<open>proto.Unmarshal\<close> and
  \<open>proto.Marshal\<close>.
\<close>

definition unmarshal ::
  "(bytes \<Rightarrow> (err, message) result) \<Rightarrow> schema \<Rightarrow> bytes \<Rightarrow> cache \<Rightarrow> (err, message) result \<times> cache" where
  "unmarshal proto_Unmarshal S b c =
     (case proto_Unmarshal b of
        Inl e \<Rightarrow> (Inl e, c)
      | Inr m \<Rightarrow>
          (case checkCustomTypes S m c of
             (Some e, c1) \<Rightarrow> (Inl e, c1)
           | (None, c1) \<Rightarrow> (Inr m, c1)))"

definition marshal ::
  "(message \<Rightarrow> (err, bytes) result) \<Rightarrow> schema \<Rightarrow> message \<Rightarrow> cache \<Rightarrow> (err, bytes) result \<times> cache" where
  "marshal proto_Marshal S m c =
     (case checkCustomTypes S m c of
        (Some e, c1) \<Rightarrow> (Inl e, c1)
      | (None, c1) \<Rightarrow> (proto_Marshal m, c1))"

subsection \<open>Reachability\<close>

text \<open>A type reaches bigint when a chain of message fields leads to it.\<close>

definition field_types :: "schema \<Rightarrow> string \<Rightarrow> string set" where
  "field_types S md = {m. \<exists>fd \<in> set (Fields S md). fd_Message fd = Some m}"

inductive reaches :: "schema \<Rightarrow> string \<Rightarrow> bool" for S where
  here: "reaches S bigintName"
| via: "m \<in> field_types S md \<Longrightarrow> reaches S m \<Longrightarrow> reaches S md"

lemma Fields_outside: "md \<notin> set (map fst S) \<Longrightarrow> Fields S md = []"
  by (simp add: Fields_def map_of_eq_None_iff [THEN iffD2])

lemma walk_found:
  "fst (reachesBigintWalk n S md V) \<Longrightarrow> reaches S md"
  "fst (walkFields n S fds V) \<Longrightarrow> \<exists>fd \<in> set fds. \<exists>m. fd_Message fd = Some m \<and> reaches S m"
proof (induction n S md V and n S fds V rule: reachesBigintWalk_walkFields.induct)
  case (2 n S md V)
  show ?case
  proof (cases "md = bigintName")
    case True
    then show ?thesis by (simp add: reaches.here)
  next
    case False
    with 2 obtain m where "m \<in> field_types S md" "reaches S m"
      by (auto simp: field_types_def split: if_splits)
    then show ?thesis by (rule reaches.via)
  qed
next
  case (4 n S fd fds V)
  show ?case
  proof (cases "fd_Message fd")
    case None
    with 4(1) 4(4) show ?thesis by simp
  next
    case (Some m)
    obtain found W where w: "reachesBigintWalk n S m V = (found, W)" by force
    show ?thesis
    proof (cases found)
      case True
      with w 4(2) Some have "reaches S m" by simp
      with Some show ?thesis by simp
    next
      case False
      with w 4(3) [OF Some w [symmetric] refl] 4(4) Some show ?thesis by simp
    qed
  qed
qed simp_all

text \<open>
  A walk that finds nothing, with fuel for every type not yet visited, has visited a set
  closed under fields and free of bigint.
\<close>

definition unvisited :: "schema \<Rightarrow> string set \<Rightarrow> nat" where
  "unvisited S V = card (set (map fst S) - V)"

lemma unvisited_mono: "V \<subseteq> W \<Longrightarrow> unvisited S W \<le> unvisited S V"
  unfolding unvisited_def by (intro card_mono) auto

lemma unvisited_insert:
  "md \<in> set (map fst S) \<Longrightarrow> md \<notin> V \<Longrightarrow> Suc (unvisited S (insert md V)) = unvisited S V"
  unfolding unvisited_def by (subst Diff_insert, rule card_Suc_Diff1) simp_all

definition closed_over :: "schema \<Rightarrow> string set \<Rightarrow> string set \<Rightarrow> bool" where
  "closed_over S V W \<longleftrightarrow> V \<subseteq> W \<and> (\<forall>x \<in> W - V. x \<noteq> bigintName \<and> field_types S x \<subseteq> W)"

lemma closed_over_trans: "closed_over S U V \<Longrightarrow> closed_over S V W \<Longrightarrow> closed_over S U W"
  unfolding closed_over_def by blast

lemma walk_not_found:
  "\<not> fst (reachesBigintWalk n S md V) \<Longrightarrow> unvisited S V < n \<Longrightarrow>
     closed_over S V (snd (reachesBigintWalk n S md V)) \<and> md \<in> snd (reachesBigintWalk n S md V)"
  "\<not> fst (walkFields n S fds V) \<Longrightarrow> unvisited S V < n \<or> fds = [] \<Longrightarrow>
     closed_over S V (snd (walkFields n S fds V)) \<and>
     (\<forall>fd \<in> set fds. \<forall>m. fd_Message fd = Some m \<longrightarrow> m \<in> snd (walkFields n S fds V))"
proof (induction n S md V and n S fds V rule: reachesBigintWalk_walkFields.induct)
  case (2 n S md V)
  show ?case
  proof (cases "md \<in> V")
    case True
    with 2(2) show ?thesis by (simp add: closed_over_def split: if_splits)
  next
    case False
    let ?W = "snd (walkFields n S (Fields S md) (insert md V))"
    from 2(2) False have md: "md \<noteq> bigintName" and "\<not> fst (walkFields n S (Fields S md) (insert md V))"
      by (simp_all split: if_splits)
    moreover have "unvisited S (insert md V) < n \<or> Fields S md = []"
      using 2(3) unvisited_insert [of md S V] False Fields_outside [of md S] by fastforce
    ultimately have "closed_over S (insert md V) ?W" "field_types S md \<subseteq> ?W"
      using 2(1) False by (auto simp: field_types_def)
    with md False show ?thesis by (auto simp: closed_over_def)
  qed
next
  case (4 n S fd fds V)
  show ?case
  proof (cases "fd_Message fd")
    case None
    with 4(1) 4(4,5) show ?thesis by simp
  next
    case (Some m)
    obtain found W where w: "reachesBigintWalk n S m V = (found, W)" by force
    with 4(4) Some have found: "\<not> found" and rest: "\<not> fst (walkFields n S fds W)"
      by (simp_all split: if_splits)
    with 4(2) [OF Some] w 4(5) have W: "closed_over S V W" "m \<in> W" by simp_all
    then have "unvisited S W < n"
      using unvisited_mono [of V W S] 4(5) by (simp add: closed_over_def)
    with 4(3) [OF Some w [symmetric] refl found rest] have
      "closed_over S W (snd (walkFields n S fds W))"
      "\<forall>fd \<in> set fds. \<forall>m. fd_Message fd = Some m \<longrightarrow> m \<in> snd (walkFields n S fds W)"
      by simp_all
    moreover from this(1) W(2) have "m \<in> snd (walkFields n S fds W)" by (auto simp: closed_over_def)
    moreover from closed_over_trans [OF W(1) calculation(1)] have "closed_over S V (snd (walkFields n S fds W))" .
    ultimately show ?thesis using Some w found by simp
  qed
qed (simp_all add: closed_over_def)

lemma closed_not_reaches:
  assumes "closed_over S {} W" "reaches S md"
  shows "md \<notin> W"
  using assms(2,1) by induction (auto simp: closed_over_def)

lemma walk_exact: "fst (reachesBigintWalk (Suc (length S)) S md {}) \<longleftrightarrow> reaches S md"
proof
  show "reaches S md" if "fst (reachesBigintWalk (Suc (length S)) S md {})"
    using that by (rule walk_found)
next
  assume r: "reaches S md"
  have "unvisited S {} < Suc (length S)"
    using card_length [of "map fst S"] by (simp add: unvisited_def)
  with walk_not_found(1) [of "Suc (length S)" S md "{}"] closed_not_reaches [OF _ r]
  show "fst (reachesBigintWalk (Suc (length S)) S md {})" by blast
qed

text \<open>A cache is sound for a schema when every entry tells the truth about it.\<close>

definition cache_ok :: "schema \<Rightarrow> cache \<Rightarrow> bool" where
  "cache_ok S c \<longleftrightarrow> (\<forall>md v. c md = Some v \<longrightarrow> v = reaches S md)"

lemma cache_ok_empty: "cache_ok S Map.empty"
  by (simp add: cache_ok_def)

lemma reachesBigint_exact:
  "cache_ok S c \<Longrightarrow>
     fst (reachesBigint S md c) = reaches S md \<and> cache_ok S (snd (reachesBigint S md c))"
  by (simp add: cache_ok_def reachesBigint_def Let_def walk_exact del: reachesBigintWalk.simps split: option.split)

subsection \<open>The check against its specification\<close>

text \<open>
  Messages of a schema, and the reference: all bigint values of a message in the order they
  are visited, with no regard to what the schema can reach.
\<close>

fun typed :: "schema \<Rightarrow> message \<Rightarrow> bool" where
  "typed S (Message t v fs) =
     list_all (\<lambda>(fd, vs). fd \<in> set (Fields S t) \<and>
       list_all (\<lambda>x. fd_Message fd = Some (m_type x) \<and> typed S x) vs) fs"

fun bigints :: "message \<Rightarrow> bytes list" where
  "bigints (Message t v fs) =
     (if t = bigintName then [v] else concat (map (\<lambda>(fd, vs). concat (map bigints vs)) fs))"

definition first_wide :: "bytes list \<Rightarrow> err option" where
  "first_wide bs = map_option (\<lambda>b. width_error (length b)) (find (\<lambda>b. length b > BigintBytes) bs)"

lemma first_wide_simps [simp]:
  "first_wide [] = None"
  "first_wide (b # bs) = (if length b > BigintBytes then Some (width_error (length b)) else first_wide bs)"
  by (simp_all add: first_wide_def)

lemma first_wide_append [simp]:
  "first_wide (bs @ cs) = (case first_wide bs of None \<Rightarrow> first_wide cs | Some e \<Rightarrow> Some e)"
  by (induction bs) simp_all

lemma typed_field:
  "typed S (Message t v fs) \<Longrightarrow> (fd, vs) \<in> set fs \<Longrightarrow> x \<in> set vs \<Longrightarrow>
     typed S x \<and> fd_Message fd = Some (m_type x) \<and> m_type x \<in> field_types S t"
  by (fastforce simp: list_all_iff field_types_def)

lemma unreached_no_bigints:
  assumes "typed S m" "\<not> reaches S (m_type m)"
  shows "bigints m = []"
  using assms
proof (induction m)
  case (Message t v fs)
  have "bigints x = []" if "(fd, vs) \<in> set fs" "x \<in> set vs" for fd vs x
  proof -
    from typed_field [OF Message.prems(1) that] have "typed S x" "m_type x \<in> field_types S t" by simp_all
    moreover from this(2) Message.prems(2) have "\<not> reaches S (m_type x)" by (auto intro: reaches.via)
    ultimately show ?thesis using Message.IH that by fastforce
  qed
  moreover have "t \<noteq> bigintName" using Message.prems(2) by (auto intro: reaches.here)
  ultimately show ?case by auto
qed

lemma check_exact:
  "cache_ok S c \<Longrightarrow> typed S m \<Longrightarrow>
     fst (checkMessage S m c) = first_wide (bigints m) \<and> cache_ok S (snd (checkMessage S m c))"
  "cache_ok S c \<Longrightarrow> (\<forall>(fd, vs) \<in> set fs. \<forall>x \<in> set vs. typed S x \<and> fd_Message fd = Some (m_type x)) \<Longrightarrow>
     fst (checkFields S fs c) = first_wide (concat (map (\<lambda>(fd, vs). concat (map bigints vs)) fs)) \<and>
     cache_ok S (snd (checkFields S fs c))"
  "cache_ok S c \<Longrightarrow> (\<forall>x \<in> set ms. typed S x) \<Longrightarrow>
     fst (checkValues S ms c) = first_wide (concat (map bigints ms)) \<and> cache_ok S (snd (checkValues S ms c))"
proof (induction S m c and S fs c and S ms c rule: checkMessage_checkFields_checkValues.induct)
  case (1 S t v fs c)
  have "\<forall>(fd, vs) \<in> set fs. \<forall>x \<in> set vs. typed S x \<and> fd_Message fd = Some (m_type x)"
    using 1(3) typed_field by blast
  with 1(1,2) show ?case by simp
next
  case (3 S fd vs fs c)
  show ?case
  proof (cases "fd_Message fd")
    case None
    with 3(6) have "vs = []" and rest: "\<forall>(fd, vs) \<in> set fs. \<forall>x \<in> set vs. typed S x \<and> fd_Message fd = Some (m_type x)"
      by (cases vs; auto)+
    with 3(1) [OF None 3(5) rest] None show ?thesis by simp
  next
    case (Some m)
    obtain r c1 where rc: "reachesBigint S m c = (r, c1)" by force
    from reachesBigint_exact [OF 3(5), of m] rc have r: "r = reaches S m" and c1: "cache_ok S c1" by simp_all
    have vs: "\<forall>x \<in> set vs. typed S x \<and> m_type x = m" using 3(6) Some by auto
    have rest: "\<forall>(fd, vs) \<in> set fs. \<forall>x \<in> set vs. typed S x \<and> fd_Message fd = Some (m_type x)"
      using 3(6) by auto
    show ?thesis
    proof (cases r)
      case False
      with vs r unreached_no_bigints have "concat (map bigints vs) = []" by fastforce
      then have "first_wide (concat (map bigints vs)) = None" by (simp only: first_wide_simps)
      with 3(2) [OF Some rc [symmetric] refl _ c1 rest] False Some rc show ?thesis by simp
    next
      case True
      obtain e c2 where ec: "checkValues S vs c1 = (e, c2)" by force
      from 3(3) [OF Some rc [symmetric] refl _ c1] True vs ec
      have e: "e = first_wide (concat (map bigints vs))" and c2: "cache_ok S c2" by simp_all
      show ?thesis
      proof (cases e)
        case None
        with 3(4) [OF Some rc [symmetric] refl _ ec [symmetric] None c2 rest] True Some rc ec e
        show ?thesis by simp
      next
        case (Some x)
        with e have "first_wide (concat (map bigints vs)) = Some x" by simp
        with True \<open>fd_Message fd = Some m\<close> rc ec Some c2 show ?thesis by simp
      qed
    qed
  qed
next
  case (5 S m ms c)
  then show ?case
    by (cases "checkMessage S m c") (auto split: option.split)
qed simp_all

lemma find_None_all: "find P xs = None \<longleftrightarrow> (\<forall>x \<in> set xs. \<not> P x)"
  by (auto simp: find_None_iff)

lemma checkCustomTypes_exact:
  assumes "cache_ok S c" "typed S m"
  shows "fst (checkCustomTypes S m c) = first_wide (bigints m) \<and> cache_ok S (snd (checkCustomTypes S m c))"
proof (cases "reaches S (m_type m)")
  case True
  with reachesBigint_exact [OF assms(1), of "m_type m"] check_exact(1) [OF _ assms(2)] show ?thesis
    by (auto simp: checkCustomTypes_def Let_def split: prod.split)
next
  case False
  with unreached_no_bigints [OF assms(2)] reachesBigint_exact [OF assms(1), of "m_type m"] show ?thesis
    by (auto simp: checkCustomTypes_def Let_def split: prod.split)
qed

text \<open>
  The cache is keyed by the name of a type alone. Two registries that declare different
  types under one name share an entry, and the verdict for the first is applied to the
  second: here a message with a bigint of 33 bytes passes.
\<close>

definition plain_schema :: schema where
  "plain_schema = [(''acme.Order'', [\<lparr>fd_card = Singular, fd_Message = None\<rparr>])]"

definition amount_schema :: schema where
  "amount_schema =
     [(''acme.Order'', [\<lparr>fd_card = Singular, fd_Message = Some bigintName\<rparr>]), (bigintName, [])]"

definition wide_order :: message where
  "wide_order = Message ''acme.Order'' []
     [(\<lparr>fd_card = Singular, fd_Message = Some bigintName\<rparr>, [Message bigintName (replicate 33 CHR ''x'') []])]"

lemma shared_cache_hides_wide_bigint:
  "typed amount_schema wide_order \<and> first_wide (bigints wide_order) \<noteq> None \<and>
   fst (checkCustomTypes amount_schema wide_order
     (snd (checkCustomTypes plain_schema (Message ''acme.Order'' [] []) Map.empty))) = None"
  by (simp add: plain_schema_def amount_schema_def wide_order_def Fields_def checkCustomTypes_def
      reachesBigint_def bigintName_def BigintBytes_def Let_def)

section \<open>Properties\<close>

text \<open>
  C22. A bigint is refused exactly when it is missing, negative or above \<open>2 ^ 256 - 1\<close>, and then
  with an error that is \<open>ErrBigintRange\<close>; otherwise it becomes exactly 32 bytes that read
  back as the same number. Every value of at most 32 bytes reads as a number that encodes,
  to the same bytes when it has the full width, and a wider one is refused.
\<close>

theorem bigint_roundtrip:
  "(case NewBigint p of
      Inl e \<Rightarrow> errors_is e ErrBigintRange \<and> (\<forall>v. p = Some v \<longrightarrow> v < 0 \<or> 2 ^ 256 \<le> v)
    | Inr b \<Rightarrow> length b = 32 \<and> (\<exists>v. p = Some v \<and> 0 \<le> v \<and> v < 2 ^ 256 \<and> BigInt (Some b) = Inr v)) \<and>
   (case BigInt x of
      Inl e \<Rightarrow> errors_is e ErrBigintRange \<and> (\<exists>b. x = Some b \<and> 32 < length b)
    | Inr v \<Rightarrow> (\<exists>b. NewBigint (Some v) = Inr b \<and> (\<forall>y. x = Some y \<and> length y = 32 \<longrightarrow> b = y)))"
proof
  show "case NewBigint p of
      Inl e \<Rightarrow> errors_is e ErrBigintRange \<and> (\<forall>v. p = Some v \<longrightarrow> v < 0 \<or> 2 ^ 256 \<le> v)
    | Inr b \<Rightarrow> length b = 32 \<and> (\<exists>v. p = Some v \<and> 0 \<le> v \<and> v < 2 ^ 256 \<and> BigInt (Some b) = Inr v)"
    using BigInt_NewBigint
    by (auto simp: NewBigint_def range_error_is bigintMax_def BigintBytes_def split: option.split sum.split if_splits)
next
  define y where "y = (case x of None \<Rightarrow> [] | Some v \<Rightarrow> v)"
  show "case BigInt x of
      Inl e \<Rightarrow> errors_is e ErrBigintRange \<and> (\<exists>b. x = Some b \<and> 32 < length b)
    | Inr v \<Rightarrow> (\<exists>b. NewBigint (Some v) = Inr b \<and> (\<forall>y. x = Some y \<and> length y = 32 \<longrightarrow> b = y))"
  proof (cases "length y > BigintBytes")
    case True
    then show ?thesis
      by (auto simp: BigInt_def y_def width_error_def range_error_is BigintBytes_def split: option.splits)
  next
    case False
    have "SetBytes y < 256 ^ length y" by (rule SetBytes_bound)
    also have "\<dots> \<le> (256 :: nat) ^ 32" using False by (intro power_increasing) (simp_all add: BigintBytes_def)
    finally have "int (SetBytes y) \<le> bigintMax" by (simp add: bigintMax_def BigintBytes_def)
    then have "NewBigint (Some (int (SetBytes y))) = Inr (FillBytes 32 (SetBytes y))"
      by (simp add: NewBigint_def BigintBytes_def)
    moreover have "BigInt x = Inr (int (SetBytes y))" using False by (simp add: BigInt_def y_def)
    ultimately show ?thesis using FillBytes_SetBytes [of y] by (auto simp: y_def)
  qed
qed

theorem bigint_roundtrip_witness:
  "\<exists>b. NewBigint (Some 258) = Inr b \<and> length b = 32 \<and> BigInt (Some b) = Inr 258"
  using bigint_roundtrip [of "Some 258" None]
  by (simp add: NewBigint_def bigintMax_def BigintBytes_def)

text \<open>
  C23. The check of custom types skips every part of a message whose type cannot contain a
  bigint and remembers what it found for each type. For every message of a schema, with a
  cache filled from that schema, it reports exactly what looking at all bigint values in
  order would: the first one wider than 32 bytes, if any; and it leaves the cache sound.
\<close>

theorem pruned_check_equivalent:
  assumes "cache_ok S c" "typed S m"
  shows "fst (checkCustomTypes S m c) = first_wide (bigints m) \<and>
    (fst (checkCustomTypes S m c) = None \<longleftrightarrow> (\<forall>b \<in> set (bigints m). length b \<le> BigintBytes)) \<and>
    cache_ok S (snd (checkCustomTypes S m c))"
  using checkCustomTypes_exact [OF assms] by (auto simp: first_wide_def find_None_all not_less)

theorem pruned_check_equivalent_witness:
  "fst (checkCustomTypes amount_schema wide_order Map.empty) = Some (width_error 33)"
  using pruned_check_equivalent [OF cache_ok_empty, of amount_schema wide_order]
  by (simp add: amount_schema_def wide_order_def Fields_def bigintName_def BigintBytes_def)

end
