(* ===== verification/Client.thy ===== *)
theory Client imports Streams begin

text \<open>
  The calling side: the options of a call and their validation (\<open>options.go\<close>), the client of
  one service with its request envelope, routing key and reply decoding (\<open>client.go\<close>), and
  the request message the dispatcher publishes. The broker's part of a call is in theory
  \<open>Dispatcher\<close>. What comes from outside the repository is an argument: the protowire
  codec, the text \<open>strconv.Quote\<close> and \<open>protowire.ParseError\<close> produce (it ends up in error
  texts only), and the encoder and decoder of the message types at hand.
\<close>

section \<open>Model\<close>

record lib =
  lb_pw :: protowire
  lb_quote :: "string \<Rightarrow> string"
  lb_parse :: "int \<Rightarrow> string"

subsection \<open>Options\<close>

record callOptions =
  co_actor :: string
  co_priority :: "8 word option"
  co_messageID :: "string option"
  co_noReply :: bool
  co_timeout :: duration

record streamOptions =
  so_actor :: string
  so_idleTimeout :: duration

datatype call_option =
    WithActor string
  | WithPriority "8 word"
  | WithMessageID string
  | WithTimeout duration
  | NoReply

datatype stream_option = StreamWithActor string | WithIdleTimeout duration

datatype client_option = WithInstance string

fun applyCall :: "call_option \<Rightarrow> callOptions \<Rightarrow> callOptions" where
  "applyCall (WithActor a) o1 = o1\<lparr>co_actor := a\<rparr>"
| "applyCall (WithPriority p) o1 = o1\<lparr>co_priority := Some p\<rparr>"
| "applyCall (WithMessageID i) o1 = o1\<lparr>co_messageID := Some i\<rparr>"
| "applyCall (WithTimeout d) o1 = o1\<lparr>co_timeout := d\<rparr>"
| "applyCall NoReply o1 = o1\<lparr>co_noReply := True\<rparr>"

fun applyStream :: "stream_option \<Rightarrow> streamOptions \<Rightarrow> streamOptions" where
  "applyStream (StreamWithActor a) o1 = o1\<lparr>so_actor := a\<rparr>"
| "applyStream (WithIdleTimeout d) o1 = o1\<lparr>so_idleTimeout := d\<rparr>"

fun applyClient :: "client_option \<Rightarrow> string \<Rightarrow> string" where
  "applyClient (WithInstance n) inst = n"

definition call_options :: "call_option list \<Rightarrow> callOptions" where
  "call_options opts =
     fold applyCall opts
       \<lparr>co_actor = '''', co_priority = None, co_messageID = None, co_noReply = False, co_timeout = 0\<rparr>"

definition stream_options :: "stream_option list \<Rightarrow> streamOptions" where
  "stream_options opts = fold applyStream opts \<lparr>so_actor = '''', so_idleTimeout = 0\<rparr>"

definition maxMessageIDBytes :: nat where "maxMessageIDBytes = 255"

definition validateMessageID :: "string option \<Rightarrow> err option" where
  "validateMessageID mid =
     (case mid of
        None \<Rightarrow> None
      | Some s \<Rightarrow>
          if \<not> utf8_valid s \<or> trim_space s = '''' then
            Some (wrap1 (sentinel_text ErrInvalidMessageID @
              '': must be a non-blank string; leave it unset to have one generated'')
              (Sentinel ErrInvalidMessageID))
          else if length s > maxMessageIDBytes then
            Some (wrap1 (sentinel_text ErrInvalidMessageID @ '': '' @ nat_digits (length s) @
              '' bytes, AMQP allows at most '' @ nat_digits maxMessageIDBytes @
              ''; hash a long key rather than concatenating it'') (Sentinel ErrInvalidMessageID))
          else None)"

definition validate_call :: "callOptions \<Rightarrow> err option" where
  "validate_call o1 =
     (case validateMessageID (co_messageID o1) of
        Some e \<Rightarrow> Some e
      | None \<Rightarrow>
          if co_timeout o1 < 0
          then Some (new_error (''protobus: negative call timeout '' @ duration_string (co_timeout o1)))
          else None)"

definition routing_specials :: string where
  "routing_specials = ''.*# '' @ [CHR 0x09, CHR 0x0D, CHR 0x0A]"

definition validInstance :: "lib \<Rightarrow> string \<Rightarrow> err option" where
  "validInstance L name =
     (if name \<noteq> '''' \<and> contains_any name routing_specials
      then Some (new_error (''protobus: instance name '' @ lb_quote L name @ '' must be a single routing-key word''))
      else None)"

subsection \<open>Names of methods\<close>

definition splitMethodName :: "string \<Rightarrow> (string \<times> string) option" where
  "splitMethodName full =
     (let i = last_index_byte full dot
      in if i \<le> 0 \<or> i = int (length full) - 1 then None
         else Some (take (nat i) full, drop (nat (i + 1)) full))"

text \<open>
  \<open>resolveContract\<close>: \<open>files\<close> is the registry's lookup, giving a descriptor when the name is
  that of a service. Each round shortens the name.
\<close>

lemma last_index_less: "last_index_byte s c < int (length s)"
  by (induction s) (auto simp: Let_def)

function resolve_from :: "(string \<Rightarrow> 'd option) \<Rightarrow> string \<Rightarrow> 'd option" where
  "resolve_from files name =
     (case files name of
        Some d \<Rightarrow> Some d
      | None \<Rightarrow>
          (let i = last_index_byte name dot
           in if i \<le> 0 then None else resolve_from files (take (nat i) name)))"
  by pat_completeness auto
termination
proof (relation "measure (length \<circ> snd)")
  fix files :: "string \<Rightarrow> 'd option" and name i
  assume "i = last_index_byte name dot" "\<not> i \<le> 0"
  with last_index_less [of name dot] have "nat i < length name" by (simp add: nat_less_iff)
  then show "((files, take (nat i) name), files, name) \<in> measure (length \<circ> snd)" by simp
qed simp

declare resolve_from.simps [simp del]

definition resolveContract :: "lib \<Rightarrow> (string \<Rightarrow> 'd option) \<Rightarrow> string \<Rightarrow> (err, 'd) result" where
  "resolveContract L files runtime =
     (case resolve_from files runtime of
        Some d \<Rightarrow> Inr d
      | None \<Rightarrow> Inl (new_error (''protobus: no service in the schema matches '' @ lb_quote L runtime @
                 '' or any prefix of it'')))"

subsection \<open>Clients\<close>

record client =
  cn_contract :: string
  cn_runtime :: string
  cn_err :: "err option"

definition NewClient :: "lib \<Rightarrow> string \<Rightarrow> client_option list \<Rightarrow> client" where
  "NewClient L service opts =
     (let inst = fold applyClient opts ''''
      in \<lparr>cn_contract = service,
          cn_runtime = (if inst \<noteq> '''' then service @ ''.'' @ inst else service),
          cn_err = validInstance L inst\<rparr>)"

definition routingKey :: "client \<Rightarrow> string \<Rightarrow> string" where
  "routingKey c meth = ''REQUEST.'' @ cn_runtime c @ ''.'' @ meth"

definition envelope ::
  "lib \<Rightarrow> ('m \<Rightarrow> (err, bytes) result) \<Rightarrow> client \<Rightarrow> string \<Rightarrow> 'm \<Rightarrow> string \<Rightarrow> (err, bytes) result" where
  "envelope L marsh c meth inp actor =
     (case cn_err c of
        Some e \<Rightarrow> Inl e
      | None \<Rightarrow>
          (case marsh inp of
             Inl e \<Rightarrow>
               Inl (wrap2 (sentinel_text ErrInvalidRequest @ '' for '' @ cn_contract c @ ''.'' @ meth @ '': '' @
                 error_text e) (Sentinel ErrInvalidRequest) e)
           | Inr data \<Rightarrow>
               Inr (AppendRequest (lb_pw L) []
                 \<lparr>req_Method = cn_contract c @ ''.'' @ meth, req_Actor = actor, req_Data = data\<rparr>)))"

text \<open>The error value of a failed decoding, \<open>envelope.go\<close>.\<close>

fun malformed :: "lib \<Rightarrow> wire_error \<Rightarrow> string" where
  "malformed L (MalformedTag n) = lb_parse L n"
| "malformed L (MalformedField num n) = ''field '' @ format_int num @ '': '' @ lb_parse L n"
| "malformed L (MalformedType num typ) =
     ''field '' @ format_int num @ '' has wire type '' @ format_int typ @ '', want length-delimited''"
| "malformed L (MalformedUTF8 num) = ''field '' @ format_int num @ '' is not valid UTF-8''"
| "malformed L MalformedNeither = ''response carries neither a result nor an error''"
| "malformed L _ = ''''"

definition wire_err :: "lib \<Rightarrow> wire_error \<Rightarrow> err" where
  "wire_err L w = wrap1 (sentinel_text ErrMalformed @ '': '' @ malformed L w) (Sentinel ErrMalformed)"

definition invalid_response :: "string \<Rightarrow> err \<Rightarrow> err" where
  "invalid_response meth e =
     wrap2 (sentinel_text ErrInvalidResponse @ '' for '' @ meth @ '': '' @ error_text e)
       (Sentinel ErrInvalidResponse) e"

text \<open>
  \<open>decodeReply\<close>; \<open>None\<close> would be a decoder that does not return or one that accepts a
  container without members, which never happens (\<open>decodeReply_returns\<close> below).
\<close>

definition decodeReply ::
  "lib \<Rightarrow> (bytes \<Rightarrow> (err, 'm) result) \<Rightarrow> bytes \<Rightarrow> string \<Rightarrow> (err, 'm) result option" where
  "decodeReply L unmarsh reply meth =
     (case DecodeResponse (lb_pw L) reply of
        None \<Rightarrow> None
      | Some (Inl w) \<Rightarrow> Some (Inl (invalid_response meth (wire_err L w)))
      | Some (Inr resp) \<Rightarrow>
          (case resp_Error resp of
             Some e \<Rightarrow> Some (Inl (RemoteError (err_Method e) (err_Code e) (err_Message e)))
           | None \<Rightarrow>
               (case resp_Result resp of
                  None \<Rightarrow> None
                | Some r \<Rightarrow>
                    if res_Method r \<noteq> meth then
                      Some (Inl (wrap1 (sentinel_text ErrInvalidResponse @ '': reply for '' @ meth @ '' answers '' @
                        lb_quote L (res_Method r)) (Sentinel ErrInvalidResponse)))
                    else
                      (case unmarsh (res_Data r) of
                         Inl e \<Rightarrow> Some (Inl (invalid_response meth e))
                       | Inr m \<Rightarrow> Some (Inr m)))))"

text \<open>
  \<open>Invoke\<close>, with the dispatcher's answer to the routing key, the body and the options as an
  argument. The result is the error, and the decoded message when there is one.
\<close>

definition Invoke ::
  "lib \<Rightarrow> ('m \<Rightarrow> (err, bytes) result) \<Rightarrow> (bytes \<Rightarrow> (err, 'n) result) \<Rightarrow>
   (string \<Rightarrow> bytes \<Rightarrow> callOptions \<Rightarrow> (err, bytes) result) \<Rightarrow>
   client \<Rightarrow> string \<Rightarrow> 'm \<Rightarrow> call_option list \<Rightarrow> (err, 'n option) result option" where
  "Invoke L marsh unmarsh call c meth inp opts =
     (let o1 = call_options opts in
      case envelope L marsh c meth inp (co_actor o1) of
        Inl e \<Rightarrow> Some (Inl e)
      | Inr body \<Rightarrow>
          (case call (routingKey c meth) body o1 of
             Inl e \<Rightarrow> Some (Inl e)
           | Inr reply \<Rightarrow>
               if co_noReply o1 then Some (Inr None)
               else map_option (map_sum id Some) (decodeReply L unmarsh reply (cn_contract c @ ''.'' @ meth))))"

text \<open>
  \<open>StreamWith\<close>: what the caller's loop is given, for the frames the dispatcher's stream
  produces (an error ends it) and a caller that goes on after its \<open>n\<close>th item or not.
\<close>

fun stream_items ::
  "lib \<Rightarrow> (bytes \<Rightarrow> (err, 'm) result) \<Rightarrow> string \<Rightarrow> (nat \<Rightarrow> bool) \<Rightarrow> nat \<Rightarrow> (err, bytes) result list \<Rightarrow>
   (err, 'm) result list" where
  "stream_items L unmarsh full go_on n [] = []"
| "stream_items L unmarsh full go_on n (Inl e # frames) = [Inl e]"
| "stream_items L unmarsh full go_on n (Inr frame # frames) =
     (case decodeReply L unmarsh frame full of
        None \<Rightarrow> []
      | Some (Inl e) \<Rightarrow> [Inl e]
      | Some (Inr m) \<Rightarrow> Inr m # (if go_on n then stream_items L unmarsh full go_on (Suc n) frames else []))"

definition StreamWith ::
  "lib \<Rightarrow> ('m \<Rightarrow> (err, bytes) result) \<Rightarrow> (bytes \<Rightarrow> (err, 'n) result) \<Rightarrow>
   (string \<Rightarrow> bytes \<Rightarrow> streamOptions \<Rightarrow> (err, bytes) result list) \<Rightarrow>
   client \<Rightarrow> string \<Rightarrow> 'm \<Rightarrow> stream_option list \<Rightarrow> (nat \<Rightarrow> bool) \<Rightarrow> (err, 'n) result list" where
  "StreamWith L marsh unmarsh stream c meth inp opts go_on =
     (let o1 = stream_options opts in
      case envelope L marsh c meth inp (so_actor o1) of
        Inl e \<Rightarrow> [Inl e]
      | Inr body \<Rightarrow>
          stream_items L unmarsh (cn_contract c @ ''.'' @ meth) go_on 0 (stream (routingKey c meth) body o1))"

text \<open>The request message of \<open>dispatcher.call\<close>, before it is published.\<close>

definition request_message :: "string \<Rightarrow> string \<Rightarrow> bytes \<Rightarrow> callOptions \<Rightarrow> Publishing" where
  "request_message correlationID replyTo body o1 =
     empty_publishing
       \<lparr>p_ContentType := contentTypeOctetStream, p_CorrelationId := correlationID, p_DeliveryMode := 2,
        p_Body := body,
        p_Priority := (case co_priority o1 of None \<Rightarrow> 0 | Some p \<Rightarrow> unat p),
        p_MessageId := (case co_messageID o1 of None \<Rightarrow> '''' | Some i \<Rightarrow> i),
        p_ReplyTo := (if co_noReply o1 then '''' else replyTo)\<rparr>"

section \<open>Facts\<close>

subsection \<open>Method names\<close>

lemma last_index_absent: "c \<notin> set s \<Longrightarrow> last_index_byte s c = -1"
  by (induction s) (auto simp: Let_def)

lemma last_index_snoc: "c \<notin> set t \<Longrightarrow> last_index_byte (s @ c # t) c = int (length s)"
  by (induction s) (auto simp: Let_def last_index_absent)

lemma last_index_split:
  assumes "0 \<le> last_index_byte s c"
  shows "s = take (nat (last_index_byte s c)) s @ c # drop (nat (last_index_byte s c + 1)) s \<and>
    c \<notin> set (drop (nat (last_index_byte s c + 1)) s)"
  using assms
proof (induction s)
  case (Cons x xs)
  show ?case
  proof (cases "0 \<le> last_index_byte xs c")
    case True
    with Cons.IH have IH: "xs = take (nat (last_index_byte xs c)) xs @ c # drop (nat (last_index_byte xs c + 1)) xs"
      "c \<notin> set (drop (nat (last_index_byte xs c + 1)) xs)" by simp_all
    with True show ?thesis by (simp add: Let_def nat_add_distrib)
  next
    case False
    then have "c \<notin> set xs"
      by (metis last_index_snoc of_nat_0_le_iff split_list_last)
    with Cons.prems False show ?thesis by (auto simp: Let_def split: if_splits)
  qed
qed simp

lemma lastSegment_snoc: "dot \<notin> set t \<Longrightarrow> lastSegment (s @ dot # t) = t"
  by (simp add: lastSegment_def last_index_snoc nat_add_distrib)

lemma lastSegment_no_dot: "dot \<notin> set (lastSegment s)"
proof (cases "0 \<le> last_index_byte s dot")
  case True
  then show ?thesis using last_index_split [OF True] by (simp add: lastSegment_def)
next
  case False
  then have "dot \<notin> set s" by (metis last_index_snoc of_nat_0_le_iff split_list_last)
  then show ?thesis by (simp add: lastSegment_def last_index_absent)
qed

lemma splitMethodName_join:
  "s \<noteq> [] \<Longrightarrow> t \<noteq> [] \<Longrightarrow> dot \<notin> set t \<Longrightarrow> splitMethodName (s @ dot # t) = Some (s, t)"
  by (simp add: splitMethodName_def last_index_snoc nat_add_distrib)

lemma splitMethodName_Some:
  assumes "splitMethodName full = Some (s, t)"
  shows "full = s @ dot # t \<and> s \<noteq> [] \<and> t \<noteq> [] \<and> dot \<notin> set t \<and> lastSegment full = t"
proof -
  let ?i = "last_index_byte full dot"
  from assms have i: "0 < ?i" "?i \<noteq> int (length full) - 1" and s: "s = take (nat ?i) full"
    and t: "t = drop (nat (?i + 1)) full"
    by (auto simp: splitMethodName_def Let_def split: if_splits)
  from last_index_split [of full dot] i s t have eq: "full = s @ dot # t" and "dot \<notin> set t" by simp_all
  moreover have "s \<noteq> []" using i(1) s last_index_less [of full dot] by auto
  moreover have "t \<noteq> []" using i last_index_less [of full dot] t by auto
  ultimately show ?thesis using lastSegment_snoc by simp
qed

text \<open>
  The contract found for a runtime name belongs to the name or to a prefix of it that ends
  before a dot; a name with one instance segment resolves to the service it extends.
\<close>

lemma resolve_from_prefix:
  "resolve_from files name = Some d \<Longrightarrow>
     \<exists>p q. name = p @ q \<and> files p = Some d \<and> (q = [] \<or> hd q = dot)"
proof (induction files name rule: resolve_from.induct)
  case (1 files name)
  let ?i = "last_index_byte name dot"
  show ?case
  proof (cases "files name")
    case (Some x)
    with 1(2) have "x = d" by (simp add: resolve_from.simps)
    with Some show ?thesis by (intro exI [of _ name] exI [of _ "[]"]) simp
  next
    case None
    with 1(2) have i: "\<not> ?i \<le> 0" and "resolve_from files (take (nat ?i) name) = Some d"
      by (simp_all add: resolve_from.simps [of files name] Let_def split: if_splits)
    with 1(1) [OF None refl i] obtain p q where
      pq: "take (nat ?i) name = p @ q" "files p = Some d" "q = [] \<or> hd q = dot" by blast
    from last_index_split [of name dot] i pq(1)
    have "name = p @ (q @ dot # drop (nat (?i + 1)) name)" by simp
    with pq show ?thesis by (metis hd_append2 append_Nil list.sel(1))
  qed
qed

lemma resolve_instance:
  assumes "files service = Some d" "files (service @ dot # inst) = None" "dot \<notin> set inst" "service \<noteq> []"
  shows "resolve_from files (service @ dot # inst) = Some d"
  using assms by (subst resolve_from.simps) (simp add: last_index_snoc resolve_from.simps [of files service])

subsection \<open>Replies\<close>

lemma decodeReply_result:
  assumes "protowire_laws (lb_pw L)" "utf8_valid meth"
    and "length (AppendResult (lb_pw L) [] \<lparr>res_Method = meth, res_Data = data\<rparr>) < 2 ^ 63"
  shows "decodeReply L unmarsh
      (fst (AppendResponse (lb_pw L) [] \<lparr>resp_Result = Some \<lparr>res_Method = meth, res_Data = data\<rparr>, resp_Error = None\<rparr>)) meth =
    Some (case unmarsh data of Inl e \<Rightarrow> Inl (invalid_response meth e) | Inr m \<Rightarrow> Inr m)"
  using protowire_laws.response_result_roundtrip [OF assms(1), of "\<lparr>res_Method = meth, res_Data = data\<rparr>"] assms(2,3)
  by (simp add: decodeReply_def split: sum.split)

lemma decodeReply_error:
  assumes "protowire_laws (lb_pw L)"
    and "utf8_valid (err_Method e)" "utf8_valid (err_Message e)" "utf8_valid (err_Code e)"
    and "length (appendError (lb_pw L) [] e) < 2 ^ 63"
  shows "decodeReply L unmarsh (fst (AppendResponse (lb_pw L) [] \<lparr>resp_Result = None, resp_Error = Some e\<rparr>)) meth =
    Some (Inl (RemoteError (err_Method e) (err_Code e) (err_Message e)))"
  using protowire_laws.response_error_roundtrip [OF assms] by (simp add: decodeReply_def)

lemma decodeReply_bad_text:
  assumes "protowire_laws (lb_pw L)"
    and "utf8_valid (err_Method e)" "\<not> utf8_valid (err_Message e)" "length (appendError (lb_pw L) [] e) < 2 ^ 63"
  shows "decodeReply L unmarsh (fst (AppendResponse (lb_pw L) [] \<lparr>resp_Result = None, resp_Error = Some e\<rparr>)) meth =
    Some (Inl (invalid_response meth (wire_err L (MalformedUTF8 2))))"
  using protowire_laws.response_error_bad_text [OF assms] by (simp add: decodeReply_def)

lemma DecodeResponse_member:
  "DecodeResponse pw b = Some (Inr resp) \<Longrightarrow> resp_Error resp \<noteq> None \<or> resp_Result resp \<noteq> None"
  by (auto simp: DecodeResponse_def split: if_splits option.splits prod.splits)

lemma decodeReply_returns:
  assumes "protowire_laws (lb_pw L)"
  shows "decodeReply L unmarsh reply meth \<noteq> None"
proof -
  have "DecodeResponse (lb_pw L) reply \<noteq> None"
    unfolding DecodeResponse_def option.map_disc_iff
    by (rule protowire_laws.decoders_return [OF assms])
  then obtain r where r: "DecodeResponse (lb_pw L) reply = Some r" by blast
  show ?thesis
  proof (cases r)
    case (Inr resp)
    with r DecodeResponse_member [of "lb_pw L" reply resp] show ?thesis
      by (auto simp: decodeReply_def split: sum.split option.split)
  qed (simp add: decodeReply_def r)
qed

end
