(* ===== verification/Service.thy ===== *)
theory Service imports Client Config Topic begin

text \<open>
  The serving side, \<open>service.go\<close> and the interceptor chains of \<open>desc.go\<close>: the options of a
  service and their validation, \<open>Register\<close>, the specification of its request consumer, and
  the handling of one request, from the envelope through the checks against routing key and
  contract to the method's handler and the reply. A handler is the application's: it is a
  function of the request's context, the decoder of its payload and the interceptor, and it
  transforms a state \<open>'w\<close> standing for everything it touches. Logging is left out.
\<close>

section \<open>Model\<close>

subsection \<open>Interceptors\<close>

text \<open>
  The result type is left open, so the chains are those of effectful interceptors as well.
  The server interface's \<open>info\<close> is the value handed to every interceptor of a call.
\<close>

type_synonym ('c, 'm, 'r) UnaryHandler = "'c \<Rightarrow> 'm \<Rightarrow> 'r"
type_synonym ('c, 'm, 'i, 'r) UnaryServerInterceptor = "'c \<Rightarrow> 'm \<Rightarrow> 'i \<Rightarrow> ('c, 'm, 'r) UnaryHandler \<Rightarrow> 'r"
type_synonym ('c, 'm, 's, 'r) StreamHandler = "'c \<Rightarrow> 'm \<Rightarrow> 's \<Rightarrow> 'r"
type_synonym ('c, 'm, 's, 'i, 'r) StreamServerInterceptor =
  "'c \<Rightarrow> 'm \<Rightarrow> 's \<Rightarrow> 'i \<Rightarrow> ('c, 'm, 's, 'r) StreamHandler \<Rightarrow> 'r"

text \<open>The loops: \<open>i\<close> runs from the last index down to 1.\<close>

fun chain_unary_next ::
  "('c, 'm, 'i, 'r) UnaryServerInterceptor list \<Rightarrow> 'i \<Rightarrow> nat \<Rightarrow> ('c, 'm, 'r) UnaryHandler \<Rightarrow> ('c, 'm, 'r) UnaryHandler" where
  "chain_unary_next ics info 0 nxt = nxt"
| "chain_unary_next ics info (Suc i) nxt =
     (let inner = nxt; ic = ics ! Suc i
      in chain_unary_next ics info i (\<lambda>ctx req. ic ctx req info inner))"

definition chainUnary ::
  "('c, 'm, 'i, 'r) UnaryServerInterceptor list \<Rightarrow> ('c, 'm, 'i, 'r) UnaryServerInterceptor option" where
  "chainUnary ics =
     (case ics of
        [] \<Rightarrow> None
      | [ic] \<Rightarrow> Some ic
      | _ \<Rightarrow> Some (\<lambda>ctx req info handler.
               (ics ! 0) ctx req info (chain_unary_next ics info (length ics - 1) handler)))"

fun chain_stream_next ::
  "('c, 'm, 's, 'i, 'r) StreamServerInterceptor list \<Rightarrow> 'i \<Rightarrow> nat \<Rightarrow> ('c, 'm, 's, 'r) StreamHandler \<Rightarrow>
   ('c, 'm, 's, 'r) StreamHandler" where
  "chain_stream_next ics info 0 nxt = nxt"
| "chain_stream_next ics info (Suc i) nxt =
     (let inner = nxt; ic = ics ! Suc i
      in chain_stream_next ics info i (\<lambda>ctx req stream. ic ctx req stream info inner))"

definition chainStream ::
  "('c, 'm, 's, 'i, 'r) StreamServerInterceptor list \<Rightarrow> ('c, 'm, 's, 'i, 'r) StreamServerInterceptor option" where
  "chainStream ics =
     (case ics of
        [] \<Rightarrow> None
      | [ic] \<Rightarrow> Some ic
      | _ \<Rightarrow> Some (\<lambda>ctx req stream info handler.
               (ics ! 0) ctx req stream info (chain_stream_next ics info (length ics - 1) handler)))"

subsection \<open>Requests and handlers\<close>

record CallInfo =
  ci_Method :: string
  ci_Actor :: string
  ci_CorrelationID :: string
  ci_MessageID :: string
  ci_RoutingKey :: string
  ci_Redelivered :: bool
  ci_Attempt :: int
  ci_Headers :: headers

text \<open>
  A unary handler returns an error or a response, which may be nil. A streaming handler is
  what it does to its stream: the messages it sends, each with the state of its context at
  that moment, the error it returns and the context's state when it returns.
\<close>

type_synonym ('m, 'w) unary_run = "'w \<Rightarrow> (err, 'm option) result \<times> 'w"
type_synonym behaviour = "(live \<times> (err, bytes) result) list \<times> err option \<times> live"
type_synonym 'w stream_run = "'w \<Rightarrow> behaviour \<times> 'w"
type_synonym ('m, 'w) unary_ic = "(CallInfo, 'm, string, ('m, 'w) unary_run) UnaryServerInterceptor"
type_synonym ('m, 'w) stream_ic = "(CallInfo, 'm, unit, string, 'w stream_run) StreamServerInterceptor"
type_synonym 'm DecodeFunc = "string \<Rightarrow> (err, 'm) result"

record ('m, 'w) MethodDesc =
  md_MethodName :: string
  md_Handler :: "CallInfo \<Rightarrow> 'm DecodeFunc \<Rightarrow> ('m, 'w) unary_ic option \<Rightarrow> ('m, 'w) unary_run"

record ('m, 'w) StreamDesc =
  sd_MethodName :: string
  sd_Handler :: "CallInfo \<Rightarrow> 'm DecodeFunc \<Rightarrow> ('m, 'w) stream_ic option \<Rightarrow> 'w stream_run"

text \<open>
  \<open>reflect\<close>'s view of the declared handler type: its text, and the interface it points to if
  it is a pointer to one. An implementation has a type and satisfies some interfaces.
\<close>

record handler_type =
  ht_text :: string
  ht_interface :: "string option"

record implementation =
  im_type :: string
  im_Implements :: "string \<Rightarrow> bool"

record ('m, 'w) ServiceDesc =
  de_ServiceName :: string
  de_HandlerType :: "handler_type option"
  de_Methods :: "('m, 'w) MethodDesc list"
  de_Streams :: "('m, 'w) StreamDesc list"

subsection \<open>Options\<close>

record RetryPolicy =
  rt_MaxRetries :: int
  rt_Delay :: duration
  rt_MessageTTL :: duration

record EventRetryPolicy =
  er_MaxRetries :: int
  er_Delay :: duration

definition DefaultRetryPolicy :: RetryPolicy where
  "DefaultRetryPolicy = \<lparr>rt_MaxRetries = 3, rt_Delay = 5 * Second, rt_MessageTTL = 0\<rparr>"

record ('m, 'w) serviceOptions =
  sp_instance :: string
  sp_maxConcurrent :: int
  sp_retry :: RetryPolicy
  sp_earlyAck :: bool
  sp_processingTimeout :: duration
  sp_maxPriority :: "8 word option"
  sp_eventRetry :: EventRetryPolicy
  sp_eventConcurrency :: int
  sp_unaryInterceptors :: "('m, 'w) unary_ic list"
  sp_streamInterceptors :: "('m, 'w) stream_ic list"

datatype ('m, 'w) service_option =
    ServiceWithInstance string
  | WithMaxConcurrent int
  | WithRetry RetryPolicy
  | WithEarlyAck
  | WithProcessingTimeout duration
  | WithMaxPriority "8 word"
  | WithEventRetry EventRetryPolicy
  | WithEventConcurrency int
  | WithUnaryInterceptor "('m, 'w) unary_ic list"
  | WithStreamInterceptor "('m, 'w) stream_ic list"

fun applyService :: "('m, 'w) service_option \<Rightarrow> ('m, 'w) serviceOptions \<Rightarrow> ('m, 'w) serviceOptions" where
  "applyService (ServiceWithInstance n) o1 = o1\<lparr>sp_instance := n\<rparr>"
| "applyService (WithMaxConcurrent n) o1 = o1\<lparr>sp_maxConcurrent := n\<rparr>"
| "applyService (WithRetry p) o1 = o1\<lparr>sp_retry := p\<rparr>"
| "applyService WithEarlyAck o1 = o1\<lparr>sp_earlyAck := True\<rparr>"
| "applyService (WithProcessingTimeout d) o1 = o1\<lparr>sp_processingTimeout := d\<rparr>"
| "applyService (WithMaxPriority n) o1 = o1\<lparr>sp_maxPriority := Some n\<rparr>"
| "applyService (WithEventRetry p) o1 = o1\<lparr>sp_eventRetry := p\<rparr>"
| "applyService (WithEventConcurrency n) o1 = o1\<lparr>sp_eventConcurrency := n\<rparr>"
| "applyService (WithUnaryInterceptor is) o1 = o1\<lparr>sp_unaryInterceptors := sp_unaryInterceptors o1 @ is\<rparr>"
| "applyService (WithStreamInterceptor is) o1 = o1\<lparr>sp_streamInterceptors := sp_streamInterceptors o1 @ is\<rparr>"

definition default_service_options :: "Config \<Rightarrow> ('m, 'w) serviceOptions" where
  "default_service_options cfg =
     \<lparr>sp_instance = '''', sp_maxConcurrent = 1, sp_retry = DefaultRetryPolicy, sp_earlyAck = False,
      sp_processingTimeout = 0, sp_maxPriority = None,
      sp_eventRetry = \<lparr>er_MaxRetries = 0, er_Delay = 0\<rparr>, sp_eventConcurrency = cf_DefaultPrefetch cfg,
      sp_unaryInterceptors = [], sp_streamInterceptors = []\<rparr>"

text \<open>The errors of \<open>validate\<close> and of \<open>Register\<close>, one constructor for each.\<close>

datatype register_error =
    BadMaxConcurrent int
  | BadEventConcurrency int
  | BadRetryPolicy RetryPolicy
  | BadEventRetryPolicy EventRetryPolicy
  | NegativeTimeout duration
  | BadInstance err
  | ZeroPriority
  | PriorityNeedsLateAck
  | NilImplementation
  | NilDesc
  | NotInterfacePointer string
  | DoesNotImplement string string
  | UnknownService string
  | NotAService string
  | NoSuchMethod string string
  | StreamingAsUnary string string
  | NotServerStreaming string string

definition validate_service :: "lib \<Rightarrow> ('m, 'w) serviceOptions \<Rightarrow> register_error option" where
  "validate_service L o1 =
     (if sp_maxConcurrent o1 < 1 \<or> sp_maxConcurrent o1 > 65535 then Some (BadMaxConcurrent (sp_maxConcurrent o1))
      else if sp_eventConcurrency o1 < 1 \<or> sp_eventConcurrency o1 > 65535
      then Some (BadEventConcurrency (sp_eventConcurrency o1))
      else if rt_MaxRetries (sp_retry o1) < 0 \<or>
        rt_MaxRetries (sp_retry o1) > 0 \<and> rt_Delay (sp_retry o1) \<le> 0 \<or> rt_MessageTTL (sp_retry o1) < 0
      then Some (BadRetryPolicy (sp_retry o1))
      else if er_MaxRetries (sp_eventRetry o1) < 0 \<or>
        er_MaxRetries (sp_eventRetry o1) > 0 \<and> er_Delay (sp_eventRetry o1) \<le> 0
      then Some (BadEventRetryPolicy (sp_eventRetry o1))
      else if sp_processingTimeout o1 < 0 then Some (NegativeTimeout (sp_processingTimeout o1))
      else (case validInstance L (sp_instance o1) of
              Some e \<Rightarrow> Some (BadInstance e)
            | None \<Rightarrow>
                (case sp_maxPriority o1 of
                   None \<Rightarrow> None
                 | Some p \<Rightarrow>
                     if p < 1 then Some ZeroPriority
                     else if sp_earlyAck o1 then Some PriorityNeedsLateAck
                     else None)))"

subsection \<open>Registration\<close>

record method_descriptor =
  mt_StreamingServer :: bool
  mt_StreamingClient :: bool

record service_descriptor =
  ds_FullName :: string
  ds_Methods :: "string \<rightharpoonup> method_descriptor"

datatype descriptor = Svc service_descriptor | NotSvc

record ('m, 'w) Service =
  sv_cfg :: Config
  sv_contract :: service_descriptor
  sv_name :: string
  sv_opts :: "('m, 'w) serviceOptions"
  sv_unary :: "string \<rightharpoonup> ('m, 'w) MethodDesc"
  sv_streams :: "string \<rightharpoonup> ('m, 'w) StreamDesc"
  sv_unaryIC :: "('m, 'w) unary_ic option"
  sv_streamIC :: "('m, 'w) stream_ic option"

text \<open>The two loops of \<open>Register\<close> over the declared methods.\<close>

fun add_methods ::
  "service_descriptor \<Rightarrow> string \<Rightarrow> ('m, 'w) MethodDesc list \<Rightarrow> (string \<rightharpoonup> ('m, 'w) MethodDesc) \<Rightarrow>
   (register_error, string \<rightharpoonup> ('m, 'w) MethodDesc) result" where
  "add_methods sd sname [] acc = Inr acc"
| "add_methods sd sname (m # ms) acc =
     (case ds_Methods sd (md_MethodName m) of
        None \<Rightarrow> Inl (NoSuchMethod sname (md_MethodName m))
      | Some md \<Rightarrow>
          if mt_StreamingServer md \<or> mt_StreamingClient md then Inl (StreamingAsUnary sname (md_MethodName m))
          else add_methods sd sname ms (acc(md_MethodName m \<mapsto> m)))"

fun add_streams ::
  "service_descriptor \<Rightarrow> string \<Rightarrow> ('m, 'w) StreamDesc list \<Rightarrow> (string \<rightharpoonup> ('m, 'w) StreamDesc) \<Rightarrow>
   (register_error, string \<rightharpoonup> ('m, 'w) StreamDesc) result" where
  "add_streams sd sname [] acc = Inr acc"
| "add_streams sd sname (st # sts) acc =
     (case ds_Methods sd (sd_MethodName st) of
        None \<Rightarrow> Inl (NoSuchMethod sname (sd_MethodName st))
      | Some md \<Rightarrow>
          if \<not> mt_StreamingServer md \<or> mt_StreamingClient md then Inl (NotServerStreaming sname (sd_MethodName st))
          else add_streams sd sname sts (acc(sd_MethodName st \<mapsto> st)))"

definition check_impl :: "handler_type option \<Rightarrow> implementation \<Rightarrow> register_error option" where
  "check_impl ht impl =
     (case ht of
        None \<Rightarrow> None
      | Some t \<Rightarrow>
          (case ht_interface t of
             None \<Rightarrow> Some (NotInterfacePointer (ht_text t))
           | Some i \<Rightarrow> if im_Implements impl i then None else Some (DoesNotImplement (im_type impl) i)))"

definition build_service ::
  "Config \<Rightarrow> service_descriptor \<Rightarrow> ('m, 'w) ServiceDesc \<Rightarrow> ('m, 'w) serviceOptions \<Rightarrow>
   (register_error, ('m, 'w) Service) result" where
  "build_service cfg sd desc o1 =
     (let sname = de_ServiceName desc
      in case add_methods sd sname (de_Methods desc) Map.empty of
           Inl e \<Rightarrow> Inl e
         | Inr unary \<Rightarrow>
             (case add_streams sd sname (de_Streams desc) Map.empty of
                Inl e \<Rightarrow> Inl e
              | Inr streams \<Rightarrow>
                  Inr \<lparr>sv_cfg = cfg, sv_contract = sd,
                       sv_name = (if sp_instance o1 \<noteq> '''' then sname @ ''.'' @ sp_instance o1 else sname),
                       sv_opts = o1, sv_unary = unary, sv_streams = streams,
                       sv_unaryIC = chainUnary (sp_unaryInterceptors o1),
                       sv_streamIC = chainStream (sp_streamInterceptors o1)\<rparr>))"

definition Register ::
  "lib \<Rightarrow> Config \<Rightarrow> (string \<rightharpoonup> descriptor) \<Rightarrow> ('m, 'w) ServiceDesc option \<Rightarrow> implementation option \<Rightarrow>
   ('m, 'w) service_option list \<Rightarrow> (register_error, ('m, 'w) Service) result" where
  "Register L cfg files pdesc pimpl opts =
     (let o1 = fold applyService opts (default_service_options cfg) in
      case validate_service L o1 of
        Some e \<Rightarrow> Inl e
      | None \<Rightarrow>
          (case pimpl of
             None \<Rightarrow> Inl NilImplementation
           | Some impl \<Rightarrow>
               (case pdesc of
                  None \<Rightarrow> Inl NilDesc
                | Some desc \<Rightarrow>
                    (case check_impl (de_HandlerType desc) impl of
                       Some e \<Rightarrow> Inl e
                     | None \<Rightarrow>
                         (case files (de_ServiceName desc) of
                            None \<Rightarrow> Inl (UnknownService (de_ServiceName desc))
                          | Some NotSvc \<Rightarrow> Inl (NotAService (de_ServiceName desc))
                          | Some (Svc sd) \<Rightarrow> build_service cfg sd desc o1)))))"

definition Contract :: "('m, 'w) Service \<Rightarrow> string" where
  "Contract s = ds_FullName (sv_contract s)"

subsection \<open>Requests\<close>

definition encodeError :: "lib \<Rightarrow> ('m, 'w) Service \<Rightarrow> string \<Rightarrow> err \<Rightarrow> bytes" where
  "encodeError L s meth e =
     (let ce = sanitizeForCaller e (cf_ExposeInternalErrors (sv_cfg s))
      in fst (AppendResponse (lb_pw L) []
           \<lparr>resp_Result = None,
            resp_Error = Some \<lparr>err_Method = meth, err_Message = ce_Message ce, err_Code = ce_Code ce\<rparr>\<rparr>))"

definition replies :: "bytes \<Rightarrow> handlerResult" where
  "replies body = \<lparr>hr_reply = Some body, hr_err = None, hr_errReply = None, hr_handled = False\<rparr>"

definition rejection :: "lib \<Rightarrow> ('m, 'w) Service \<Rightarrow> string \<Rightarrow> string \<Rightarrow> handlerResult" where
  "rejection L s label reason = replies (encodeError L s label (newProtocolError reason))"

definition timeoutReply :: "lib \<Rightarrow> ('m, 'w) Service \<Rightarrow> Delivery \<Rightarrow> err \<Rightarrow> bytes" where
  "timeoutReply L s d e = encodeError L s (Contract s @ ''.'' @ lastSegment (d_RoutingKey d)) e"

definition failure :: "lib \<Rightarrow> ('m, 'w) Service \<Rightarrow> string \<Rightarrow> err \<Rightarrow> handlerResult" where
  "failure L s meth e =
     (if first_some is_payload (preorder e) \<noteq> None
      then rejection L s meth (''payload did not decode as the request type of '' @ meth)
      else if errors_is e ErrUnimplemented
      then rejection L s meth (''invalid service method '' @ lastSegment meth)
      else if asAnswerable e \<noteq> None then replies (encodeError L s meth e)
      else \<lparr>hr_reply = None, hr_err = Some e, hr_errReply = Some (encodeError L s meth e), hr_handled = False\<rparr>)"

text \<open>
  \<open>handle\<close>. \<open>unmarsh\<close> decodes a payload as a message type and \<open>marsh\<close> encodes a response;
  \<open>conv\<close> is the conversion of out-of-range float headers (theory \<open>Headers\<close>). The result
  comes with the state after the handler and the history of what a stream published.
  The value \<open>None\<close> would be an envelope decoder that does not return.
\<close>

record 'm codec =
  cd_lib :: lib
  cd_marshal :: "'m \<Rightarrow> (err, bytes) result"
  cd_unmarshal :: "string \<Rightarrow> bytes \<Rightarrow> (err, 'm) result"
  cd_conv :: "float64 \<Rightarrow> int"

definition call_info :: "'m codec \<Rightarrow> Request \<Rightarrow> Delivery \<Rightarrow> CallInfo" where
  "call_info C rq d =
     \<lparr>ci_Method = req_Method rq, ci_Actor = req_Actor rq, ci_CorrelationID = d_CorrelationId d,
      ci_MessageID = d_MessageId d, ci_RoutingKey = d_RoutingKey d, ci_Redelivered = d_Redelivered d,
      ci_Attempt = retryCount (cd_conv C) (d_Headers d), ci_Headers = d_Headers d\<rparr>"

definition decode_func :: "'m codec \<Rightarrow> Request \<Rightarrow> 'm DecodeFunc" where
  "decode_func C rq t =
     (case cd_unmarshal C t (req_Data rq) of Inl e \<Rightarrow> Inl (PayloadError e) | Inr m \<Rightarrow> Inr m)"

definition unary_reply :: "'m codec \<Rightarrow> ('m, 'w) Service \<Rightarrow> string \<Rightarrow> (err, 'm option) result \<Rightarrow> handlerResult" where
  "unary_reply C s meth outcome =
     (case outcome of
        Inl e \<Rightarrow> failure (cd_lib C) s meth e
      | Inr resp \<Rightarrow>
          (case (case resp of None \<Rightarrow> Inr [] | Some m \<Rightarrow> cd_marshal C m) of
             Inl e \<Rightarrow> failure (cd_lib C) s meth
                        (wrap1 (''encoding the response of '' @ meth @ '': '' @ error_text e) e)
           | Inr data \<Rightarrow>
               replies (fst (AppendResponse (lb_pw (cd_lib C)) []
                 \<lparr>resp_Result = Some \<lparr>res_Method = meth, res_Data = data\<rparr>, resp_Error = None\<rparr>))))"

text \<open>The checks that decide whether a request runs: the reason to reject it and the label, or the method.\<close>

definition admit ::
  "('m, 'w) Service \<Rightarrow> Delivery \<Rightarrow> Request \<Rightarrow> (string \<times> string, string \<times> method_descriptor) result" where
  "admit s d rq =
     (let contract = Contract s;
          key = d_RoutingKey d;
          keyMethod = (if key = '''' then lastSegment (req_Method rq) else lastSegment key);
          label = contract @ ''.'' @ keyMethod
      in if key \<noteq> '''' \<and> \<not> has_prefix key (''REQUEST.'' @ sv_name s @ ''.'')
         then Inl (label, ''routing key '' @ key @ '' does not belong to service '' @ sv_name s)
         else if key \<noteq> '''' \<and> keyMethod \<noteq> lastSegment (req_Method rq)
         then Inl (label, ''request method '' @ req_Method rq @ '' contradicts routing key '' @ key)
         else (case splitMethodName (req_Method rq) of
                 None \<Rightarrow> Inl (label, ''request method '' @ req_Method rq @ '' is not a qualified method name'')
               | Some (service, meth) \<Rightarrow>
                   if service \<noteq> contract
                   then Inl (label, ''request method '' @ req_Method rq @ '' is not a method of '' @ contract)
                   else (case ds_Methods (sv_contract s) meth of
                           None \<Rightarrow> Inl (label, contract @ '' declares no method '' @ meth)
                         | Some md \<Rightarrow> Inr (meth, md))))"

definition handle ::
  "env \<Rightarrow> 'm codec \<Rightarrow> consumer_ctx \<Rightarrow> nat \<Rightarrow> ('m, 'w) Service \<Rightarrow> Delivery \<Rightarrow> 'w \<Rightarrow> history \<Rightarrow>
   (handlerResult \<times> 'w \<times> history) option" where
  "handle E C cc pub s d w h =
     (let L = cd_lib C in
      case DecodeRequest (lb_pw L) (d_Body d) of
        None \<Rightarrow> None
      | Some (rq, Some _) \<Rightarrow>
          Some (rejection L s (if d_RoutingKey d = '''' then ''unknown'' else d_RoutingKey d)
            ''request envelope did not decode'', w, h)
      | Some (rq, None) \<Rightarrow>
          (case admit s d rq of
             Inl (label, reason) \<Rightarrow> Some (rejection L s label reason, w, h)
           | Inr (meth, md) \<Rightarrow>
               let info = call_info C rq d; dec = decode_func C rq; full = req_Method rq
               in if mt_StreamingServer md then
                    (case sv_streams s meth of
                       None \<Rightarrow> Some (rejection L s full (''invalid service method '' @ meth), w, h)
                     | Some st \<Rightarrow>
                         let ((sends, e, cx), w1) = sd_Handler st info dec (sv_streamIC s) w;
                             sc = \<lparr>sc_consumer = cc, sc_pub = pub, sc_d = d, sc_method = full,
                                   sc_expose = cf_ExposeInternalErrors (sv_cfg s), sc_pw = lb_pw L\<rparr>;
                             (res, h1) = serveStream E sc sends e cx h
                         in Some (res, w1, h1))
                  else
                    (case sv_unary s meth of
                       None \<Rightarrow> Some (rejection L s full (''invalid service method '' @ meth), w, h)
                     | Some m \<Rightarrow>
                         let (outcome, w1) = md_Handler m info dec (sv_unaryIC s) w
                         in Some (unary_reply C s full outcome, w1, h))))"

text \<open>
  \<open>requestSpec\<close>. Milliseconds of a positive duration; the arguments of the queue are those
  the options ask for.
\<close>

definition Milliseconds :: "duration \<Rightarrow> 64 word" where
  "Milliseconds d = of_int (if d < 0 then - ((- d) div 1000000) else d div 1000000)"

definition request_queue_args :: "('m, 'w) serviceOptions \<Rightarrow> table" where
  "request_queue_args o1 =
     (if rt_MessageTTL (sp_retry o1) > 0
      then [(''x-message-ttl'', intHeader (Milliseconds (rt_MessageTTL (sp_retry o1))))] else []) @
     (case sp_maxPriority o1 of None \<Rightarrow> [] | Some p \<Rightarrow> [(''x-max-priority'', VInt32 (ucast p))])"

definition request_retry :: "('m, 'w) Service \<Rightarrow> retrySpec option" where
  "request_retry s =
     (if rt_MaxRetries (sp_retry (sv_opts s)) > 0 \<and> \<not> sp_earlyAck (sv_opts s)
      then Some \<lparr>rs_maxRetries = rt_MaxRetries (sp_retry (sv_opts s)), rs_exchange = sv_name s @ ''.Retry.Exchange'',
                 rs_queue = sv_name s @ ''.Retry'', rs_dlq = sv_name s @ ''.DLQ''\<rparr>
      else None)"

definition requestSpec :: "lib \<Rightarrow> ('m, 'w) Service \<Rightarrow> consumerSpec" where
  "requestSpec L s =
     (let o1 = sv_opts s; cfg = sv_cfg s in
      \<lparr>cs_queue = sv_name s, cs_queueArgs = request_queue_args o1, cs_exchange = cf_BusExchange cfg,
       cs_lateAck = (\<not> sp_earlyAck o1), cs_prefetch = sp_maxConcurrent o1, cs_concurrency = sp_maxConcurrent o1,
       cs_timeout = (if sp_processingTimeout o1 > 0 then sp_processingTimeout o1 else cf_ProcessingTimeout cfg),
       cs_retry = request_retry s, cs_dlqHandled = False,
       cs_timeoutReply = Some (\<lambda>d e. Some (timeoutReply L s d e)), cs_describe = sv_name s\<rparr>)"

definition request_bindings :: "('m, 'w) Service \<Rightarrow> string list" where
  "request_bindings s = [''REQUEST.'' @ sv_name s @ ''.*'']"

section \<open>Facts\<close>

subsection \<open>Chains\<close>

text \<open>The reference: each interceptor wraps the composition of those after it.\<close>

definition nest_unary ::
  "('c, 'm, 'i, 'r) UnaryServerInterceptor list \<Rightarrow> 'i \<Rightarrow> ('c, 'm, 'r) UnaryHandler \<Rightarrow> ('c, 'm, 'r) UnaryHandler" where
  "nest_unary ics info handler = foldr (\<lambda>ic inner ctx req. ic ctx req info inner) ics handler"

definition nest_stream ::
  "('c, 'm, 's, 'i, 'r) StreamServerInterceptor list \<Rightarrow> 'i \<Rightarrow> ('c, 'm, 's, 'r) StreamHandler \<Rightarrow>
   ('c, 'm, 's, 'r) StreamHandler" where
  "nest_stream ics info handler = foldr (\<lambda>ic inner ctx req stream. ic ctx req stream info inner) ics handler"

lemma chain_unary_next_nests:
  "i < length ics \<Longrightarrow>
     chain_unary_next ics info i (nest_unary (drop (Suc i) ics) info handler) =
     nest_unary (drop 1 ics) info handler"
proof (induction i)
  case (Suc i)
  have "drop (Suc i) ics = ics ! Suc i # drop (Suc (Suc i)) ics"
    using Suc.prems by (simp add: Cons_nth_drop_Suc)
  with Suc show ?case by (simp add: nest_unary_def Let_def)
qed simp

lemma chain_stream_next_nests:
  "i < length ics \<Longrightarrow>
     chain_stream_next ics info i (nest_stream (drop (Suc i) ics) info handler) =
     nest_stream (drop 1 ics) info handler"
proof (induction i)
  case (Suc i)
  have "drop (Suc i) ics = ics ! Suc i # drop (Suc (Suc i)) ics"
    using Suc.prems by (simp add: Cons_nth_drop_Suc)
  with Suc show ?case by (simp add: nest_stream_def Let_def)
qed simp

lemma chainUnary_nests:
  "chainUnary ics = None \<longleftrightarrow> ics = []"
  "chainUnary ics = Some f \<Longrightarrow> f ctx req info handler = nest_unary ics info handler ctx req"
proof -
  show "chainUnary ics = None \<longleftrightarrow> ics = []" by (simp add: chainUnary_def split: list.split)
  assume f: "chainUnary ics = Some f"
  show "f ctx req info handler = nest_unary ics info handler ctx req"
  proof (cases ics)
    case (Cons a rest)
    show ?thesis
    proof (cases rest)
      case Nil
      with Cons f show ?thesis by (simp add: chainUnary_def nest_unary_def)
    next
      case (Cons b more)
      with chain_unary_next_nests [of "length ics - 1" ics info handler] \<open>ics = a # rest\<close> f show ?thesis
        by (auto simp: chainUnary_def nest_unary_def)
    qed
  qed (use f in \<open>simp add: chainUnary_def\<close>)
qed

lemma chainStream_nests:
  "chainStream ics = None \<longleftrightarrow> ics = []"
  "chainStream ics = Some f \<Longrightarrow> f ctx req stream info handler = nest_stream ics info handler ctx req stream"
proof -
  show "chainStream ics = None \<longleftrightarrow> ics = []" by (simp add: chainStream_def split: list.split)
  assume f: "chainStream ics = Some f"
  show "f ctx req stream info handler = nest_stream ics info handler ctx req stream"
  proof (cases ics)
    case (Cons a rest)
    show ?thesis
    proof (cases rest)
      case Nil
      with Cons f show ?thesis by (simp add: chainStream_def nest_stream_def)
    next
      case (Cons b more)
      with chain_stream_next_nests [of "length ics - 1" ics info handler] \<open>ics = a # rest\<close> f show ?thesis
        by (auto simp: chainStream_def nest_stream_def)
    qed
  qed (use f in \<open>simp add: chainStream_def\<close>)
qed

subsection \<open>Registered services\<close>

lemma add_methods_ok:
  "add_methods sd sname ms acc = Inr tbl \<Longrightarrow>
     \<forall>k m. tbl k = Some m \<longrightarrow> acc k = Some m \<or>
       k = md_MethodName m \<and> m \<in> set ms \<and>
       (\<exists>md. ds_Methods sd k = Some md \<and> \<not> mt_StreamingServer md \<and> \<not> mt_StreamingClient md)"
  by (induction sd sname ms acc rule: add_methods.induct) (auto split: option.splits if_splits)

lemma add_streams_ok:
  "add_streams sd sname ms acc = Inr tbl \<Longrightarrow>
     \<forall>k m. tbl k = Some m \<longrightarrow> acc k = Some m \<or>
       k = sd_MethodName m \<and> m \<in> set ms \<and>
       (\<exists>md. ds_Methods sd k = Some md \<and> mt_StreamingServer md \<and> \<not> mt_StreamingClient md)"
  by (induction sd sname ms acc rule: add_streams.induct) (auto split: option.splits if_splits)

text \<open>
  What holds of every registered service: its tables agree with its contract, and its
  options are within the bounds.
\<close>

definition service_ok :: "('m, 'w) Service \<Rightarrow> bool" where
  "service_ok s \<longleftrightarrow>
     (\<forall>k m. sv_unary s k = Some m \<longrightarrow> k = md_MethodName m \<and>
        (\<exists>md. ds_Methods (sv_contract s) k = Some md \<and> \<not> mt_StreamingServer md \<and> \<not> mt_StreamingClient md)) \<and>
     (\<forall>k m. sv_streams s k = Some m \<longrightarrow> k = sd_MethodName m \<and>
        (\<exists>md. ds_Methods (sv_contract s) k = Some md \<and> mt_StreamingServer md \<and> \<not> mt_StreamingClient md)) \<and>
     dom (sv_unary s) \<inter> dom (sv_streams s) = {} \<and>
     1 \<le> sp_maxConcurrent (sv_opts s) \<and> sp_maxConcurrent (sv_opts s) \<le> 65535 \<and>
     (\<forall>rs. request_retry s = Some rs \<longrightarrow> 0 < rs_maxRetries rs \<and> 0 < rt_Delay (sp_retry (sv_opts s)))"

lemma build_service_ok:
  assumes "build_service cfg sd desc o1 = Inr s" "validate_service L o1 = None"
  shows "service_ok s \<and> sv_contract s = sd \<and> sv_opts s = o1 \<and> sv_cfg s = cfg \<and>
    validInstance L (sp_instance o1) = None \<and>
    sv_name s = (if sp_instance o1 \<noteq> [] then de_ServiceName desc @ dot # sp_instance o1 else de_ServiceName desc)"
proof -
  from assms(1) obtain u t where u: "add_methods sd (de_ServiceName desc) (de_Methods desc) Map.empty = Inr u"
    and t: "add_streams sd (de_ServiceName desc) (de_Streams desc) Map.empty = Inr t"
    and s: "sv_unary s = u" "sv_streams s = t" "sv_contract s = sd" "sv_opts s = o1" "sv_cfg s = cfg"
      "sv_name s = (if sp_instance o1 \<noteq> [] then de_ServiceName desc @ dot # sp_instance o1 else de_ServiceName desc)"
    by (auto simp: build_service_def Let_def split: sum.splits)
  have "dom u \<inter> dom t = {}"
    using add_methods_ok [OF u] add_streams_ok [OF t] by (fastforce simp: dom_def)
  moreover have "1 \<le> sp_maxConcurrent o1 \<and> sp_maxConcurrent o1 \<le> 65535 \<and> validInstance L (sp_instance o1) = None \<and>
      (rt_MaxRetries (sp_retry o1) > 0 \<longrightarrow> rt_Delay (sp_retry o1) > 0)"
    using assms(2) by (auto simp: validate_service_def split: if_splits option.splits)
  ultimately show ?thesis
    using add_methods_ok [OF u] add_streams_ok [OF t] s by (auto simp: service_ok_def request_retry_def)
qed

lemma Register_ok:
  assumes "Register L cfg files pdesc pimpl opts = Inr s"
  shows "service_ok s \<and> (\<exists>desc. pdesc = Some desc \<and> files (de_ServiceName desc) = Some (Svc (sv_contract s)) \<and>
    validInstance L (sp_instance (sv_opts s)) = None \<and>
    sv_name s = (if sp_instance (sv_opts s) \<noteq> [] then de_ServiceName desc @ dot # sp_instance (sv_opts s)
                 else de_ServiceName desc))"
  using assms build_service_ok
  by (fastforce simp: Register_def Let_def split: option.splits descriptor.splits)

subsection \<open>Requests\<close>

lemma admit_ok:
  assumes "admit s d rq = Inr (meth, md)"
  shows "req_Method rq = Contract s @ dot # meth \<and> meth \<noteq> [] \<and> dot \<notin> set meth \<and>
    ds_Methods (sv_contract s) meth = Some md \<and>
    (d_RoutingKey d \<noteq> [] \<longrightarrow>
       has_prefix (d_RoutingKey d) (''REQUEST.'' @ sv_name s @ ''.'') \<and> lastSegment (d_RoutingKey d) = meth)"
proof -
  from assms obtain service where sp: "splitMethodName (req_Method rq) = Some (service, meth)"
    and "service = Contract s" "ds_Methods (sv_contract s) meth = Some md"
    and key: "d_RoutingKey d \<noteq> [] \<longrightarrow> has_prefix (d_RoutingKey d) (''REQUEST.'' @ sv_name s @ ''.'') \<and>
      lastSegment (d_RoutingKey d) = lastSegment (req_Method rq)"
    by (auto simp: admit_def Let_def split: if_splits option.splits prod.splits)
  with splitMethodName_Some [OF sp] show ?thesis by auto
qed

lemma admit_own:
  assumes "req_Method rq = Contract s @ dot # meth" "Contract s \<noteq> []" "meth \<noteq> []" "dot \<notin> set meth"
    and "ds_Methods (sv_contract s) meth = Some md"
    and "d_RoutingKey d = ''REQUEST.'' @ sv_name s @ ''.'' @ meth"
  shows "admit s d rq = Inr (meth, md)"
proof -
  have "lastSegment (d_RoutingKey d) = meth"
    using lastSegment_snoc [OF assms(4), of "''REQUEST.'' @ sv_name s"] assms(6) by simp
  moreover have "lastSegment (req_Method rq) = meth" using lastSegment_snoc [OF assms(4)] assms(1) by simp
  moreover have "has_prefix (d_RoutingKey d) (''REQUEST.'' @ sv_name s @ ''.'')"
    using assms(6) by (simp add: has_prefix_def)
  ultimately show ?thesis
    using assms splitMethodName_join [OF assms(2,3,4)] by (simp add: admit_def Let_def)
qed

lemma decode_func_own:
  "decode_func C \<lparr>req_Method = f, req_Actor = a, req_Data = data\<rparr> t =
     (case cd_unmarshal C t data of Inl e \<Rightarrow> Inl (PayloadError e) | Inr m \<Rightarrow> Inr m)"
  by (simp add: decode_func_def)

lemma handle_cases:
  assumes "handle E C cc pub s d w h = Some (res, w1, h1)"
  obtains label reason where "res = rejection (cd_lib C) s label reason" "w1 = w" "h1 = h"
  | rq meth md where "DecodeRequest (lb_pw (cd_lib C)) (d_Body d) = Some (rq, None)" "admit s d rq = Inr (meth, md)"
      "if mt_StreamingServer md
       then \<exists>st. sv_streams s meth = Some st \<and>
         w1 = snd (sd_Handler st (call_info C rq d) (decode_func C rq) (sv_streamIC s) w)
       else \<exists>m outcome. sv_unary s meth = Some m \<and> h1 = h \<and>
         md_Handler m (call_info C rq d) (decode_func C rq) (sv_unaryIC s) w = (outcome, w1) \<and>
         res = unary_reply C s (req_Method rq) outcome"
proof -
  obtain rq e where rq: "DecodeRequest (lb_pw (cd_lib C)) (d_Body d) = Some (rq, e)"
    using assms by (auto simp: handle_def Let_def split: option.splits)
  show ?thesis
  proof (cases e)
    case (Some x)
    with rq assms show ?thesis by (auto simp: handle_def Let_def intro: that(1))
  next
    case None
    show ?thesis
    proof (cases "admit s d rq")
      case (Inl lr)
      with rq None assms show ?thesis by (cases lr) (auto simp: handle_def Let_def intro: that(1))
    next
      case (Inr mm)
      obtain meth md where mm: "mm = (meth, md)" by force
      show ?thesis
      proof (cases "(if mt_StreamingServer md then sv_streams s meth = None else sv_unary s meth = None)")
        case True
        with rq None Inr mm assms show ?thesis
          by (auto simp: handle_def Let_def intro: that(1) split: if_splits)
      next
        case False
        with rq None Inr mm assms show ?thesis
          by (intro that(2) [of rq meth md]) (auto simp: handle_def Let_def split: if_splits prod.splits)
      qed
    qed
  qed
qed

text \<open>A request as a client of the service writes it reaches the method's handler.\<close>

lemma handle_unary_own:
  fixes s :: "('m, 'w) Service"
  assumes "protowire_laws (lb_pw (cd_lib C))"
    and "Contract s \<noteq> []" "meth \<noteq> []" "dot \<notin> set meth" "utf8_valid (Contract s @ dot # meth)" "utf8_valid actor"
    and rq: "rq = \<lparr>req_Method = Contract s @ dot # meth, req_Actor = actor, req_Data = data\<rparr>"
    and "length (AppendRequest (lb_pw (cd_lib C)) [] rq) < 2 ^ 63"
    and "ds_Methods (sv_contract s) meth = Some md" "\<not> mt_StreamingServer md" "sv_unary s meth = Some m"
    and "d_RoutingKey d = ''REQUEST.'' @ sv_name s @ ''.'' @ meth"
    and "d_Body d = AppendRequest (lb_pw (cd_lib C)) [] rq"
    and "md_Handler m (call_info C rq d) (decode_func C rq) (sv_unaryIC s) w = (outcome, w1)"
  shows "handle E C cc pub s d w h = Some (unary_reply C s (Contract s @ dot # meth) outcome, w1, h)"
proof -
  have "DecodeRequest (lb_pw (cd_lib C)) (d_Body d) = Some (rq, None)"
    using protowire_laws.request_roundtrip [OF assms(1), of rq] assms(5,6,8,13) rq by simp
  moreover have "admit s d rq = Inr (meth, md)"
    using admit_own [OF _ assms(2-4) assms(9) assms(12), of rq] rq by simp
  ultimately show ?thesis using assms(10,11,14) rq by (simp add: handle_def Let_def)
qed

text \<open>The names a service can run under contain no wildcard word.\<close>

definition plain_name :: "string \<Rightarrow> bool" where
  "plain_name s \<longleftrightarrow> ''*'' \<notin> set (split_dots s) \<and> ''#'' \<notin> set (split_dots s)"

lemma bound_key:
  assumes "plain_name (sv_name s)" "p \<in> set (request_bindings s)"
    and "topicMatch (split_dots p) (split_dots key)"
  shows "\<exists>meth. dot \<notin> set meth \<and> key = ''REQUEST.'' @ sv_name s @ dot # meth"
proof -
  have "split_dots (''REQUEST.'' @ sv_name s) = ''REQUEST'' # split_dots (sv_name s)"
    using split_on_append [of dot "''REQUEST''" "sv_name s"] by simp
  with assms(1) topicMatch_prefix_star [of "''REQUEST.'' @ sv_name s" key] assms(2,3) show ?thesis
    by (simp add: plain_name_def request_bindings_def)
qed

section \<open>Properties\<close>

text \<open>
  C25. Interceptors compose: the loops that build a chain give the same call as nesting the
  interceptors in the order they were given, the first outermost, for unary and for
  streaming methods; no interceptors give no chain. The result type is arbitrary, so this
  holds for interceptors with any effects.
\<close>

theorem chains_equal_nesting:
  "(case chainUnary ics of
      None \<Rightarrow> ics = []
    | Some f \<Rightarrow> f ctx req info handler = foldr (\<lambda>ic inner ctx req. ic ctx req info inner) ics handler ctx req) \<and>
   (case chainStream scs of
      None \<Rightarrow> scs = []
    | Some f \<Rightarrow> f ctx req stream info shandler =
        foldr (\<lambda>ic inner ctx req stream. ic ctx req stream info inner) scs shandler ctx req stream)"
  using chainUnary_nests [of ics] chainStream_nests [of scs]
  by (auto simp: nest_unary_def nest_stream_def split: option.split)

text \<open>
  C7. A request runs only the method its routing key names. For a request delivered through
  a binding of the service, either it is answered with a PROTOCOL_ERROR and nothing ran, or
  the key is exactly \<open>REQUEST.<name>.<method>\<close>, the body names that method of the service's
  own contract in full, the contract declares it, and what ran is the handler registered
  for it, through the service's interceptors.
\<close>

theorem handler_bound_to_key:
  assumes "plain_name (sv_name s)" "p \<in> set (request_bindings s)"
    and "topicMatch (split_dots p) (split_dots (d_RoutingKey d))"
    and "handle E C cc pub s d w h = Some (res, w1, h1)"
  shows "(\<exists>label reason. res = rejection (cd_lib C) s label reason \<and> w1 = w \<and> h1 = h) \<or>
    (\<exists>rq meth md. DecodeRequest (lb_pw (cd_lib C)) (d_Body d) = Some (rq, None) \<and>
       d_RoutingKey d = ''REQUEST.'' @ sv_name s @ ''.'' @ meth \<and>
       req_Method rq = Contract s @ ''.'' @ meth \<and> dot \<notin> set meth \<and>
       ds_Methods (sv_contract s) meth = Some md \<and>
       (if mt_StreamingServer md
        then \<exists>st. sv_streams s meth = Some st \<and>
          w1 = snd (sd_Handler st (call_info C rq d) (decode_func C rq) (sv_streamIC s) w)
        else \<exists>m outcome. sv_unary s meth = Some m \<and> h1 = h \<and>
          md_Handler m (call_info C rq d) (decode_func C rq) (sv_unaryIC s) w = (outcome, w1) \<and>
          res = unary_reply C s (req_Method rq) outcome))"
proof -
  from bound_key [OF assms(1-3)] obtain k where key: "dot \<notin> set k" "d_RoutingKey d = ''REQUEST.'' @ sv_name s @ dot # k"
    by blast
  with lastSegment_snoc [of k "''REQUEST.'' @ sv_name s"] have seg: "lastSegment (d_RoutingKey d) = k" by simp
  from assms(4) show ?thesis
  proof (cases rule: handle_cases)
    case (1 label reason)
    then show ?thesis by blast
  next
    case (2 rq meth md)
    from admit_ok [OF 2(2)] key seg show ?thesis
      using 2(1,3) by (intro disjI2 exI [of _ rq] exI [of _ meth] exI [of _ md]) auto
  qed
qed

text \<open>
  A small service for concrete runs: one unary method that returns its request reversed and
  counts its calls. Messages are byte strings.
\<close>

definition demo_codec :: "bytes codec" where
  "demo_codec =
     \<lparr>cd_lib = \<lparr>lb_pw = leb128, lb_quote = id, lb_parse = \<lambda>_. ''proto: cannot parse invalid wire-format data''\<rparr>,
      cd_marshal = Inr, cd_unmarshal = \<lambda>_. Inr, cd_conv = \<lambda>_. 0\<rparr>"

definition reverse_desc :: "(bytes, nat) MethodDesc" where
  "reverse_desc =
     \<lparr>md_MethodName = ''reverse'',
      md_Handler = \<lambda>info dec ic n.
        (case dec ''demo.Text'' of Inl e \<Rightarrow> Inl e
         | Inr m \<Rightarrow> if m = [] then Inl (NewHandledError ''EMPTY'' ''nothing to reverse'') else Inr (Some (rev m)), n + 1)\<rparr>"

definition demo_contract :: service_descriptor where
  "demo_contract =
     \<lparr>ds_FullName = ''demo.Text'',
      ds_Methods = [''reverse'' \<mapsto> \<lparr>mt_StreamingServer = False, mt_StreamingClient = False\<rparr>]\<rparr>"

definition demo_service :: "(bytes, nat) Service" where
  "demo_service =
     \<lparr>sv_cfg = DefaultConfig, sv_contract = demo_contract, sv_name = ''demo.Text.a'',
      sv_opts = (default_service_options DefaultConfig)\<lparr>sp_instance := ''a''\<rparr>,
      sv_unary = [''reverse'' \<mapsto> reverse_desc], sv_streams = Map.empty, sv_unaryIC = None, sv_streamIC = None\<rparr>"

definition demo_request :: "bytes \<Rightarrow> Request" where
  "demo_request b = \<lparr>req_Method = ''demo.Text.reverse'', req_Actor = [], req_Data = b\<rparr>"

definition demo_delivery :: "bytes \<Rightarrow> Delivery" where
  "demo_delivery b =
     \<lparr>d_Headers = Map.empty, d_ContentType = [], d_ContentEncoding = [], d_DeliveryMode = 2, d_Priority = 0,
      d_CorrelationId = ''c1'', d_ReplyTo = ''r'', d_Expiration = [], d_MessageId = ''m1'', d_Timestamp = 0,
      d_Type = [], d_UserId = [], d_AppId = [], d_DeliveryTag = 1, d_Redelivered = False,
      d_Exchange = ''proto.bus'', d_RoutingKey = ''REQUEST.demo.Text.a.reverse'',
      d_Body = AppendRequest leb128 [] (demo_request b)\<rparr>"

lemma demo_handle:
  "handle reliable demo_codec cc pub demo_service (demo_delivery ''ab'') 0 h =
     Some (unary_reply demo_codec demo_service ''demo.Text.reverse'' (Inr (Some ''ba'')), 1, h)"
  using handle_unary_own [of demo_codec demo_service "''reverse''" "[]" "demo_request ''ab''" "''ab''"
      "\<lparr>mt_StreamingServer = False, mt_StreamingClient = False\<rparr>" reverse_desc "demo_delivery ''ab''" 0 "Inr (Some ''ba'')" 1
      reliable cc pub h]
  by (simp add: demo_codec_def demo_service_def demo_contract_def Contract_def demo_request_def demo_delivery_def
      reverse_desc_def decode_func_def leb_witness leb.AppendRequest_fields)

theorem handler_bound_to_key_witness:
  "\<exists>rq. DecodeRequest leb128 (d_Body (demo_delivery ''ab'')) = Some (rq, None) \<and>
     req_Method rq = ''demo.Text.reverse'' \<and> (\<exists>m. sv_unary demo_service ''reverse'' = Some m)"
  using handler_bound_to_key [of demo_service "''REQUEST.demo.Text.a.*''" "demo_delivery ''ab''" reliable demo_codec
      undefined 0 0 "[]" "unary_reply demo_codec demo_service ''demo.Text.reverse'' (Inr (Some ''ba''))" 1 "[]",
      OF _ _ _ demo_handle]
  by (auto simp: plain_name_def request_bindings_def demo_service_def demo_delivery_def demo_codec_def
      demo_contract_def Contract_def split: if_splits)

end
