(* ===== verification/Listener.thy ===== *)
theory Listener imports Service begin

text \<open>
  Events: publishing them (\<open>events.go\<close>) and the listener that runs the handlers whose topic
  patterns match a delivery (\<open>eventlistener.go\<close>). A subscription is an object with an
  identity, so a listener holds a store of subscriptions and files their addresses in the
  topic trie of theory \<open>Topic\<close>. Handlers are the application's and transform a state \<open>'w\<close>.
  Starting and binding go through the consumer; here only their outcome matters.
\<close>

section \<open>Model\<close>

subsection \<open>Publishing\<close>

record publishOptions =
  po_topic :: string
  po_messageID :: "string option"

datatype publish_option = PublishWithTopic string | PublishWithMessageID string

fun applyPublish :: "publish_option \<Rightarrow> publishOptions \<Rightarrow> publishOptions" where
  "applyPublish (PublishWithTopic t) o1 = o1\<lparr>po_topic := t\<rparr>"
| "applyPublish (PublishWithMessageID i) o1 = o1\<lparr>po_messageID := Some i\<rparr>"

definition EventTopic :: "string \<Rightarrow> string" where
  "EventTopic typ = ''EVENT.'' @ typ"

text \<open>
  \<open>PublishEvent\<close> up to the publish: the topic and the message. \<open>typ\<close> is the message's full
  name and \<open>correlationID\<close> the fresh id.
\<close>

definition PublishEvent ::
  "lib \<Rightarrow> ('m \<Rightarrow> (err, bytes) result) \<Rightarrow> string \<Rightarrow> string \<Rightarrow> 'm \<Rightarrow> publish_option list \<Rightarrow> (err, string \<times> Publishing) result" where
  "PublishEvent L marsh correlationID typ msg opts =
     (let o1 = fold applyPublish opts \<lparr>po_topic = '''', po_messageID = None\<rparr> in
      if typ = '''' then
        Inl (wrap1 (sentinel_text ErrInvalidRequest @ '': event has no message type'') (Sentinel ErrInvalidRequest))
      else
        let topic = (if po_topic o1 = '''' then ''EVENT.'' @ typ else po_topic o1) in
        case validateMessageID (po_messageID o1) of
          Some e \<Rightarrow> Inl e
        | None \<Rightarrow>
            (case marsh msg of
               Inl e \<Rightarrow>
                 Inl (wrap2 (sentinel_text ErrInvalidRequest @ '': event '' @ typ @ '': '' @ error_text e)
                   (Sentinel ErrInvalidRequest) e)
             | Inr data \<Rightarrow>
                 Inr (topic, empty_publishing
                   \<lparr>p_ContentType := contentTypeOctetStream, p_CorrelationId := correlationID, p_DeliveryMode := 2,
                    p_Body := AppendEvent (lb_pw L) [] \<lparr>ev_Type = typ, ev_Topic = topic, ev_Data = data\<rparr>,
                    p_MessageId := (case po_messageID o1 of None \<Rightarrow> '''' | Some i \<Rightarrow> i)\<rparr>)))"

subsection \<open>Listeners\<close>

record EventInfo =
  ei_Type :: string
  ei_Topic :: string
  ei_RoutingKey :: string
  ei_MessageID :: string
  ei_CorrelationID :: string
  ei_Redelivered :: bool
  ei_Attempt :: int
  ei_Headers :: headers

type_synonym 'w event_run = "'w \<Rightarrow> err option \<times> 'w"

record 'w subscription =
  sb_typeName :: string
  sb_handle :: "Event \<Rightarrow> EventInfo \<Rightarrow> 'w event_run"

record 'w listener =
  ls_queue :: string
  ls_router :: "nat trie"
  ls_all :: "nat list"
  ls_patterns :: "string list"
  ls_started :: bool
  ls_lazy :: bool
  ls_standalone :: bool
  ls_subs :: "nat \<Rightarrow> 'w subscription"
  ls_fresh :: nat

definition no_subscription :: "'w subscription" where
  "no_subscription = \<lparr>sb_typeName = '''', sb_handle = \<lambda>_ _ w. (None, w)\<rparr>"

definition newEventListener :: "string \<Rightarrow> 'w listener" where
  "newEventListener queue =
     \<lparr>ls_queue = queue, ls_router = Topic.New, ls_all = [], ls_patterns = [], ls_started = False, ls_lazy = False,
      ls_standalone = False, ls_subs = \<lambda>_. no_subscription, ls_fresh = 0\<rparr>"

text \<open>The consumer of a listener, and the checks of the exported constructor.\<close>

definition event_retry :: "string \<Rightarrow> EventRetryPolicy \<Rightarrow> retrySpec option" where
  "event_retry queue retry =
     (if er_MaxRetries retry > 0 \<and> queue \<noteq> ''''
      then Some \<lparr>rs_maxRetries = er_MaxRetries retry, rs_exchange = queue @ ''.Retry.Exchange'',
                 rs_queue = queue @ ''.Retry'', rs_dlq = queue @ ''.DLQ''\<rparr>
      else None)"

definition eventSpec :: "Config \<Rightarrow> string \<Rightarrow> int \<Rightarrow> EventRetryPolicy \<Rightarrow> consumerSpec" where
  "eventSpec cfg queue concurrency retry =
     \<lparr>cs_queue = queue, cs_queueArgs = [], cs_exchange = cf_EventsExchange cfg, cs_lateAck = True,
      cs_prefetch = concurrency, cs_concurrency = concurrency, cs_timeout = cf_ProcessingTimeout cfg,
      cs_retry = event_retry queue retry, cs_dlqHandled = (event_retry queue retry \<noteq> None),
      cs_timeoutReply = None, cs_describe = queue\<rparr>"

datatype listener_error = BadConcurrency int | BadEventPolicy EventRetryPolicy | RetryNeedsName

definition NewEventListener ::
  "string \<Rightarrow> int \<Rightarrow> EventRetryPolicy \<Rightarrow> (listener_error, 'w listener) result" where
  "NewEventListener queue concurrency retry =
     (if concurrency < 1 \<or> concurrency > 65535 then Inl (BadConcurrency concurrency)
      else if er_MaxRetries retry < 0 \<or> er_MaxRetries retry > 0 \<and> er_Delay retry \<le> 0
      then Inl (BadEventPolicy retry)
      else if queue = '''' \<and> er_MaxRetries retry > 0 then Inl RetryNeedsName
      else Inr ((newEventListener queue)\<lparr>ls_standalone := True\<rparr>))"

text \<open>\<open>Start\<close>, given how the consumer's start turns out.\<close>

definition Start :: "err option \<Rightarrow> 'w listener \<Rightarrow> err option \<times> 'w listener" where
  "Start outcome l =
     (if ls_started l then (None, l)
      else case outcome of
             Some e \<Rightarrow>
               (Some (wrap1 (''protobus: starting event listener '' @ ls_queue l @ '': '' @ error_text e) e),
                l\<lparr>ls_started := False\<rparr>)
           | None \<Rightarrow> (None, l\<lparr>ls_started := True\<rparr>))"

text \<open>
  \<open>add\<close>: the critical section, then the start or the binding it calls for, with their
  outcomes as arguments.
\<close>

definition register_sub :: "string \<Rightarrow> 'w subscription \<Rightarrow> bool \<Rightarrow> 'w listener \<Rightarrow> 'w listener" where
  "register_sub pattern s all l =
     (let a = ls_fresh l;
          l1 = l\<lparr>ls_subs := (ls_subs l)(a := s), ls_fresh := Suc a\<rparr>;
          l2 = (if all then l1\<lparr>ls_all := ls_all l1 @ [a]\<rparr>
                else l1\<lparr>ls_router := Add (ls_router l1) pattern a\<rparr>)
      in if pattern \<in> set (ls_patterns l2) then l2 else l2\<lparr>ls_patterns := ls_patterns l2 @ [pattern]\<rparr>)"

definition add :: "err option \<Rightarrow> err option \<Rightarrow> string \<Rightarrow> 'w subscription \<Rightarrow> bool \<Rightarrow> 'w listener \<Rightarrow> err option \<times> 'w listener" where
  "add started bound pattern s all l =
     (let fresh = (pattern \<notin> set (ls_patterns l));
          l1 = register_sub pattern s all l
      in if ls_lazy l1 \<and> \<not> ls_started l1 then Start started l1
         else if fresh \<and> ls_started l1 then
           (case bound of
              Some e \<Rightarrow> (Some (wrap1 (''protobus: binding '' @ pattern @ '': '' @ error_text e) e), l1)
            | None \<Rightarrow> (None, l1))
         else (None, l1))"

definition eventDecodeError :: "string \<Rightarrow> err \<Rightarrow> err" where
  "eventDecodeError typ e =
     (let pe = newProtocolError (''event '' @ typ @ '' did not decode'')
      in wrap2 (error_text pe @ '': '' @ error_text e) pe e)"

text \<open>The subscriptions \<open>SubscribeType\<close> and \<open>SubscribeAll\<close> make.\<close>

definition SubscribeType ::
  "'m codec \<Rightarrow> string \<Rightarrow> ('m \<Rightarrow> EventInfo \<Rightarrow> 'w event_run) \<Rightarrow> 'w subscription" where
  "SubscribeType C name handler =
     \<lparr>sb_typeName = name,
      sb_handle = \<lambda>ev info w.
        (case cd_unmarshal C name (ev_Data ev) of
           Inl e \<Rightarrow> (Some (eventDecodeError (ev_Type ev) e), w)
         | Inr m \<Rightarrow> handler m info w)\<rparr>"

definition subscribe_topic :: "string \<Rightarrow> string option \<Rightarrow> string" where
  "subscribe_topic name topic = (case topic of None \<Rightarrow> ''EVENT.'' @ name | Some t \<Rightarrow> t)"

definition SubscribeAll ::
  "'m codec \<Rightarrow> (string \<Rightarrow> bool) \<Rightarrow> ('m \<Rightarrow> EventInfo \<Rightarrow> 'w event_run) \<Rightarrow> 'w subscription" where
  "SubscribeAll C known handler =
     \<lparr>sb_typeName = '''',
      sb_handle = \<lambda>ev info w.
        (if \<not> known (ev_Type ev) then
           (Some (eventDecodeError (ev_Type ev)
              (wrap1 (sentinel_text ErrUnknownEventType @ '' '' @ lb_quote (cd_lib C) (ev_Type ev))
                (Sentinel ErrUnknownEventType))), w)
         else case cd_unmarshal C (ev_Type ev) (ev_Data ev) of
                Inl e \<Rightarrow> (Some (eventDecodeError (ev_Type ev) e), w)
              | Inr m \<Rightarrow> handler m info w)\<rparr>"

text \<open>The loop over the subscriptions, then \<open>handle\<close>.\<close>

fun run_subs :: "'w subscription list \<Rightarrow> Event \<Rightarrow> EventInfo \<Rightarrow> 'w event_run" where
  "run_subs [] ev info w = (None, w)"
| "run_subs (s # ss) ev info w =
     (if sb_typeName s \<noteq> '''' \<and> sb_typeName s \<noteq> ev_Type ev then run_subs ss ev info w
      else (case sb_handle s ev info w of
              (Some e, w1) \<Rightarrow> (Some e, w1)
            | (None, w1) \<Rightarrow> run_subs ss ev info w1))"

definition event_info :: "'m codec \<Rightarrow> Event \<Rightarrow> Delivery \<Rightarrow> EventInfo" where
  "event_info C ev d =
     \<lparr>ei_Type = ev_Type ev, ei_Topic = ev_Topic ev, ei_RoutingKey = d_RoutingKey d, ei_MessageID = d_MessageId d,
      ei_CorrelationID = d_CorrelationId d, ei_Redelivered = d_Redelivered d,
      ei_Attempt = retryCount (cd_conv C) (d_Headers d), ei_Headers = d_Headers d\<rparr>"

definition handle_event :: "'m codec \<Rightarrow> 'w listener \<Rightarrow> Delivery \<Rightarrow> 'w \<Rightarrow> (handlerResult \<times> 'w) option" where
  "handle_event C l d w =
     (case DecodeEvent (lb_pw (cd_lib C)) (d_Body d) of
        None \<Rightarrow> None
      | Some (ev, Some we) \<Rightarrow>
          Some (\<lparr>hr_reply = None, hr_err = Some (eventDecodeError ''(unknown)'' (wire_err (cd_lib C) we)),
                 hr_errReply = None, hr_handled = True\<rparr>, w)
      | Some (ev, None) \<Rightarrow>
          (let matchOn = (if d_RoutingKey d = '''' then ev_Topic ev else d_RoutingKey d);
               subs = Match (ls_router l) matchOn (ls_all l);
               (e, w1) = run_subs (map (ls_subs l) subs) ev (event_info C ev d) w
           in Some (\<lparr>hr_reply = None, hr_err = e, hr_errReply = None,
                     hr_handled = (case e of None \<Rightarrow> False | Some x \<Rightarrow> AsHandled x \<noteq> None)\<rparr>, w1)))"

section \<open>Facts\<close>

subsection \<open>Subscriptions\<close>

text \<open>
  The listeners the operations can produce, with the log of what was subscribed: starts and
  bindings may succeed or fail at any time.
\<close>

type_synonym 'w sub_log = "(string \<times> 'w subscription \<times> bool) list"

inductive listener_reach :: "string \<Rightarrow> 'w sub_log \<Rightarrow> 'w listener \<Rightarrow> bool" for q where
  new: "listener_reach q [] (newEventListener q)"
| mark: "listener_reach q log l \<Longrightarrow> listener_reach q log (l\<lparr>ls_lazy := z, ls_standalone := y\<rparr>)"
| start: "listener_reach q log l \<Longrightarrow> listener_reach q log (snd (Start o1 l))"
| add: "listener_reach q log l \<Longrightarrow> listener_reach q (log @ [(p, s, all)]) (snd (add o1 o2 p s all l))"

definition addr_regs :: "'w sub_log \<Rightarrow> (string \<times> nat) list" where
  "addr_regs log = map (\<lambda>(i, p, s, all). (p, i)) (filter (\<lambda>(i, p, s, all). \<not> all) (enumerate 0 log))"

definition all_addrs :: "'w sub_log \<Rightarrow> nat list" where
  "all_addrs log = map fst (filter (\<lambda>(i, p, s, all). all) (enumerate 0 log))"

definition listener_inv :: "'w sub_log \<Rightarrow> 'w listener \<Rightarrow> bool" where
  "listener_inv log l \<longleftrightarrow>
     ls_fresh l = length log \<and> (\<forall>i < length log. ls_subs l i = fst (snd (log ! i))) \<and>
     represents (ls_router l) (addr_regs log) \<and> ls_all l = all_addrs log \<and>
     ls_patterns l = dedup_into [] (map fst log)"

lemma addr_regs_snoc:
  "addr_regs (log @ [(p, s, all)]) = addr_regs log @ (if all then [] else [(p, length log)])"
  by (simp add: addr_regs_def enumerate_append_eq)

lemma all_addrs_snoc:
  "all_addrs (log @ [(p, s, all)]) = all_addrs log @ (if all then [length log] else [])"
  by (simp add: all_addrs_def enumerate_append_eq)

lemma listener_inv_register:
  assumes "listener_inv log l"
  shows "listener_inv (log @ [(p, s, all)]) (register_sub p s all l)"
proof -
  have nth: "(log @ [(p, s, all)]) ! i = (if i = length log then (p, s, all) else log ! i)"
    if "i < Suc (length log)" for i
    using that by (simp add: nth_append)
  with assms show ?thesis
    by (simp add: listener_inv_def register_sub_def Let_def addr_regs_snoc all_addrs_snoc dedup_into_append
        router.holds_insert)
qed

lemma snd_add:
  "snd (add o1 o2 p s all l) =
     (let l1 = register_sub p s all l in
      if ls_lazy l1 \<and> \<not> ls_started l1 then snd (Start o1 l1) else l1)"
  by (simp add: add_def Let_def split: option.split)

lemma listener_inv_Start: "listener_inv log l \<Longrightarrow> listener_inv log (snd (Start o1 l))"
  by (auto simp: listener_inv_def Start_def split: option.split)

lemma listener_reach_inv: "listener_reach q log l \<Longrightarrow> listener_inv log l"
proof (induction rule: listener_reach.induct)
  case new
  show ?case
    by (simp add: listener_inv_def newEventListener_def addr_regs_def all_addrs_def represents_New)
next
  case (mark log l z y)
  then show ?case by (simp add: listener_inv_def)
next
  case (start log l o1)
  then show ?case by (simp add: listener_inv_Start)
next
  case (add log l p s all o1 o2)
  then show ?case by (simp add: snd_add Let_def listener_inv_Start listener_inv_register)
qed

lemma map_enumerate_filter:
  assumes "\<forall>i < length xs. f i = g (xs ! i)"
  shows "map (\<lambda>(i, x). f i) (filter (\<lambda>(i, x). Q x) (enumerate 0 xs)) = map g (filter Q xs)"
  using assms
proof (induction xs rule: rev_induct)
  case (snoc x xs)
  then have "\<forall>i < length xs. f i = g (xs ! i)" by (metis length_append_singleton less_SucI nth_append)
  with snoc show ?case by (simp add: enumerate_append_eq nth_append)
qed simp

lemma distinct_addr_regs: "distinct (map snd (addr_regs log))"
proof -
  have "map snd (addr_regs log) = map fst (filter (\<lambda>(i, p, s, all). \<not> all) (enumerate 0 log))"
    by (auto simp: addr_regs_def)
  moreover have "distinct (map fst (enumerate 0 log))" by (simp add: map_fst_enumerate)
  ultimately show ?thesis by (simp add: distinct_map_filter)
qed

lemma length_addr_regs: "length (addr_regs log) \<le> length log"
  using length_filter_le [of "\<lambda>(i, p, s, all). \<not> all" "enumerate 0 log"] by (simp add: addr_regs_def)

text \<open>The subscriptions a key reaches: those to everything, then the typed ones whose pattern matches.\<close>

definition matching :: "'w sub_log \<Rightarrow> string \<Rightarrow> 'w subscription list" where
  "matching log key =
     map (fst \<circ> snd) (filter (\<lambda>(p, s, all). all) log) @
     map (fst \<circ> snd) (filter (\<lambda>(p, s, all). \<not> all \<and> topicMatch (split_dots p) (split_dots key)) log)"

lemma subs_matching:
  assumes "listener_inv log l" "length log < 2 ^ 64"
  shows "map (ls_subs l) (Match (ls_router l) key (ls_all l)) = matching log key"
proof -
  have subs: "\<forall>i < length log. ls_subs l i = (fst \<circ> snd) (log ! i)" and all: "ls_all l = all_addrs log"
    and rep: "represents (ls_router l) (addr_regs log)"
    using assms(1) by (simp_all add: listener_inv_def)
  have "Match (ls_router l) key (ls_all l) =
      all_addrs log @ map snd (filter (\<lambda>(p, i). topicMatch (split_dots p) (split_dots key)) (addr_regs log))"
    using router.lookup_distinct [OF rep _ distinct_addr_regs] length_addr_regs [of log] assms(2) all by simp
  moreover have "map snd (filter (\<lambda>(p, i). topicMatch (split_dots p) (split_dots key)) (addr_regs log)) =
      map fst (filter (\<lambda>(i, x). case x of (p, s, all) \<Rightarrow> \<not> all \<and> topicMatch (split_dots p) (split_dots key)) (enumerate 0 log))"
    by (induction log rule: rev_induct) (auto simp: addr_regs_def enumerate_append_eq)
  ultimately show ?thesis
    using map_enumerate_filter [OF subs, of "\<lambda>(p, s, all). all"]
      map_enumerate_filter [OF subs, of "\<lambda>(p, s, all). \<not> all \<and> topicMatch (split_dots p) (split_dots key)"]
    by (simp add: matching_def all_addrs_def case_prod_unfold comp_def)
qed

subsection \<open>Handling\<close>

text \<open>The reference for one event: the handlers that accept its type, until one fails.\<close>

definition accepts :: "Event \<Rightarrow> 'w subscription \<Rightarrow> bool" where
  "accepts ev s \<longleftrightarrow> sb_typeName s = [] \<or> sb_typeName s = ev_Type ev"

fun until_failure :: "'w event_run list \<Rightarrow> 'w event_run" where
  "until_failure [] w = (None, w)"
| "until_failure (f # fs) w = (case f w of (Some e, w1) \<Rightarrow> (Some e, w1) | (None, w1) \<Rightarrow> until_failure fs w1)"

lemma run_subs_accepts:
  "run_subs ss ev info w = until_failure (map (\<lambda>s. sb_handle s ev info) (filter (accepts ev) ss)) w"
  by (induction ss ev info w rule: run_subs.induct) (auto simp: accepts_def split: option.split prod.split)

lemma handle_event_ok:
  assumes "listener_reach q log l" "length log < 2 ^ 64"
    and "DecodeEvent (lb_pw (cd_lib C)) (d_Body d) = Some (ev, None)" "d_RoutingKey d \<noteq> []"
  shows "handle_event C l d w =
    (let (e, w1) = until_failure (map (\<lambda>s. sb_handle s ev (event_info C ev d))
           (filter (accepts ev) (matching log (d_RoutingKey d)))) w
     in Some (\<lparr>hr_reply = None, hr_err = e, hr_errReply = None,
               hr_handled = (case e of None \<Rightarrow> False | Some x \<Rightarrow> AsHandled x \<noteq> None)\<rparr>, w1))"
  using subs_matching [OF listener_reach_inv [OF assms(1)] assms(2)] assms(3,4)
  by (simp add: handle_event_def run_subs_accepts Let_def)

lemma event_decode_handled: "AsHandled (eventDecodeError t e) \<noteq> None"
  by (simp add: eventDecodeError_def newProtocolError_def AsHandled_def Let_def)

section \<open>Properties\<close>

text \<open>
  C10. Which handlers an event runs. After any sequence of subscriptions, starts and bindings,
  whatever fails among them, an event delivered on a key runs the subscriptions to
  everything first, then the typed ones whose pattern matches the key by the AMQP rule, each
  group in the order of subscription and each only if it accepts the event's type, until one
  fails; the topic in the body plays no part. An event that does not decode runs nothing and
  is a handled failure. The patterns a restore binds are exactly those subscribed.
\<close>

theorem event_handlers_exact:
  assumes "listener_reach q log l" "length log < 2 ^ 64" "d_RoutingKey d \<noteq> []"
    and "DecodeEvent (lb_pw (cd_lib C)) (d_Body d) = Some (ev, we)"
  shows "set (ls_patterns l) = fst ` set log \<and> distinct (ls_patterns l) \<and>
    (case we of
       None \<Rightarrow>
         handle_event C l d w =
           (let (e, w1) = until_failure (map (\<lambda>s. sb_handle s ev (event_info C ev d))
                  (filter (accepts ev) (matching log (d_RoutingKey d)))) w
            in Some (\<lparr>hr_reply = None, hr_err = e, hr_errReply = None,
                      hr_handled = (case e of None \<Rightarrow> False | Some x \<Rightarrow> AsHandled x \<noteq> None)\<rparr>, w1))
     | Some x \<Rightarrow>
         (\<exists>e. handle_event C l d w = Some (\<lparr>hr_reply = None, hr_err = Some e, hr_errReply = None, hr_handled = True\<rparr>, w) \<and>
            AsHandled e \<noteq> None))"
proof -
  have "ls_patterns l = dedup_into [] (map fst log)"
    using listener_reach_inv [OF assms(1)] by (simp add: listener_inv_def)
  then have "set (ls_patterns l) = fst ` set log \<and> distinct (ls_patterns l)" by (simp add: distinct_dedup_into)
  moreover have "handle_event C l d w = Some (\<lparr>hr_reply = None,
      hr_err = Some (eventDecodeError ''(unknown)'' (wire_err (cd_lib C) x)), hr_errReply = None, hr_handled = True\<rparr>, w)"
    if "we = Some x" for x
    using assms(4) that by (simp add: handle_event_def)
  ultimately show ?thesis
    using handle_event_ok [OF assms(1,2) _ assms(3), of C ev w] assms(4) event_decode_handled
    by (auto split: option.split)
qed

text \<open>
  A concrete listener: a typed subscription first, then one to everything. Each handler
  appends its name to a list; the second subscriber still runs first.
\<close>

definition noting :: "string \<Rightarrow> string list event_run" where
  "noting name w = (None, w @ [name])"

definition demo_log :: "string list sub_log" where
  "demo_log =
     [(''EVENT.shop.*'', SubscribeType demo_codec ''shop.Order'' (\<lambda>_ _. noting ''typed''), False),
      (''#'', SubscribeAll demo_codec (\<lambda>_. True) (\<lambda>_ _. noting ''all''), True)]"

definition demo_listener :: "string list listener" where
  "demo_listener =
     snd (add None None ''#'' (SubscribeAll demo_codec (\<lambda>_. True) (\<lambda>_ _. noting ''all'')) True
       (snd (add None None ''EVENT.shop.*'' (SubscribeType demo_codec ''shop.Order'' (\<lambda>_ _. noting ''typed'')) False
         (newEventListener ''shop''))))"

definition demo_event :: Delivery where
  "demo_event =
     (demo_delivery [])\<lparr>d_RoutingKey := ''EVENT.shop.Order'',
       d_Body := AppendEvent leb128 [] \<lparr>ev_Type = ''shop.Order'', ev_Topic = ''t'', ev_Data = ''x''\<rparr>\<rparr>"

lemma demo_listener_reach: "listener_reach ''shop'' demo_log demo_listener"
  unfolding demo_log_def demo_listener_def
  using listener_reach.add [OF listener_reach.add [OF listener_reach.new]] by simp

theorem event_handlers_exact_witness:
  "\<exists>res. handle_event demo_codec demo_listener demo_event [] = Some (res, [''all'', ''typed''])"
proof -
  have "DecodeEvent (lb_pw (cd_lib demo_codec)) (d_Body demo_event) =
      Some (\<lparr>ev_Type = ''shop.Order'', ev_Topic = ''t'', ev_Data = ''x''\<rparr>, None)"
    using leb.event_roundtrip [of "\<lparr>ev_Type = ''shop.Order'', ev_Topic = ''t'', ev_Data = ''x''\<rparr>"]
    by (simp add: demo_event_def demo_codec_def leb_witness leb.AppendEvent_fields)
  from event_handlers_exact [OF demo_listener_reach _ _ this, of "[]"] show ?thesis
    by (simp add: demo_log_def demo_event_def matching_def accepts_def SubscribeType_def SubscribeAll_def
        demo_codec_def noting_def)
qed

end
