(* ===== verification/Topology.thy ===== *)
theory Topology imports Listener begin

text \<open>
  The topology every component declares on a fresh connection: the core exchanges and the
  reply queue of \<open>dispatcher.go\<close>, the queues of a consumer (\<open>consumer.go\<close>) with the retry
  topology of \<open>service.go\<close> and the redelivery path of \<open>eventlistener.go\<close>, the event publisher of
  \<open>events.go\<close> and the cancel listener of \<open>cancel.go\<close>. The operations go through the interface of
  \<open>internal/transport/transport.go\<close>, a record of functions on the state of whatever is behind
  it: in this theory an environment that may fail at any point, in theory \<open>Routes\<close> the
  in-memory broker.
\<close>

section \<open>Model\<close>

subsection \<open>The transport interface\<close>

text \<open>
  A connection opens channels; the other calls name one. Exchanges are always declared
  durable and with no other flags, so only name and kind are arguments; a queue declaration
  returns the name. \<open>ap_code\<close> is the code of an error that is an \<open>*amqp.Error\<close>.
\<close>

type_synonym ('s, 'a) io = "'s \<Rightarrow> (err, 'a) result \<times> 's"

record 's amqp_api =
  ap_open :: "('s, nat) io"
  ap_confirm :: "nat \<Rightarrow> ('s, unit) io"
  ap_qos :: "nat \<Rightarrow> int \<Rightarrow> ('s, unit) io"
  ap_exchange :: "nat \<Rightarrow> string \<Rightarrow> string \<Rightarrow> ('s, unit) io"
  ap_queue :: "nat \<Rightarrow> string \<Rightarrow> bool \<Rightarrow> bool \<Rightarrow> bool \<Rightarrow> table \<Rightarrow> ('s, string) io"
  ap_bind :: "nat \<Rightarrow> string \<Rightarrow> string \<Rightarrow> string \<Rightarrow> ('s, unit) io"
  ap_consume :: "nat \<Rightarrow> string \<Rightarrow> string \<Rightarrow> bool \<Rightarrow> bool \<Rightarrow> ('s, unit) io"
  ap_cancel :: "nat \<Rightarrow> string \<Rightarrow> ('s, unit) io"
  ap_close :: "nat \<Rightarrow> 's \<Rightarrow> 's"
  ap_code :: "err \<Rightarrow> nat option"

text \<open>Sequencing with early return on an error, errors with a context, and the closure \<open>fail\<close>.\<close>

definition io_return :: "'a \<Rightarrow> ('s, 'a) io" where
  "io_return a s = (Inr a, s)"

definition io_bind :: "('s, 'a) io \<Rightarrow> ('a \<Rightarrow> ('s, 'b) io) \<Rightarrow> ('s, 'b) io" where
  "io_bind m f s = (case m s of (Inl e, s1) \<Rightarrow> (Inl e, s1) | (Inr a, s1) \<Rightarrow> f a s1)"

definition io_wrap :: "(err \<Rightarrow> err) \<Rightarrow> ('s, 'a) io \<Rightarrow> ('s, 'a) io" where
  "io_wrap f m s = apfst (map_sum f id) (m s)"

definition on_failure :: "('s \<Rightarrow> 's) \<Rightarrow> ('s, 'a) io \<Rightarrow> ('s, 'a) io" where
  "on_failure cleanup m s = (case m s of (Inl e, s1) \<Rightarrow> (Inl e, cleanup s1) | (Inr a, s1) \<Rightarrow> (Inr a, s1))"

fun io_each :: "('a \<Rightarrow> ('s, unit) io) \<Rightarrow> 'a list \<Rightarrow> ('s, unit) io" where
  "io_each f [] = io_return ()"
| "io_each f (x # xs) = io_bind (f x) (\<lambda>_. io_each f xs)"

definition wrapping :: "string \<Rightarrow> err \<Rightarrow> err" where
  "wrapping what e = wrap1 (what @ '': '' @ error_text e) e"

subsection \<open>Publishing channels and core exchanges\<close>

definition open_pub :: "'s amqp_api \<Rightarrow> nat \<Rightarrow> ('s, unit) io" where
  "open_pub A ch = io_wrap (wrapping ''protobus: enabling publisher confirms'') (ap_confirm A ch)"

fun declare_each :: "'s amqp_api \<Rightarrow> (string \<times> string) list \<Rightarrow> 's \<Rightarrow> 's" where
  "declare_each A [] s = s"
| "declare_each A ((name, kind) # exs) s =
     (case ap_open A s of
        (Inl e, s1) \<Rightarrow> s1
      | (Inr ch, s1) \<Rightarrow>
          (case ap_exchange A ch name kind s1 of
             (Inl e, s2) \<Rightarrow> declare_each A exs s2
           | (Inr _, s2) \<Rightarrow> declare_each A exs (ap_close A ch s2)))"

definition declareCoreExchanges :: "'s amqp_api \<Rightarrow> Config \<Rightarrow> 's \<Rightarrow> 's" where
  "declareCoreExchanges A cfg =
     declare_each A
       [(cf_BusExchange cfg, ''topic''), (cf_CallbacksExchange cfg, ''direct''),
        (cf_EventsExchange cfg, ''topic''), (cf_CancelExchange cfg, ''fanout'')]"

subsection \<open>The dispatcher's reply queue\<close>

text \<open>
  \<open>dispatcher.restoreTopology\<close> up to the second look at \<open>closed\<close>: the consuming channel, the
  publishing channel and the reply queue. Theory \<open>Dispatcher\<close> installs them.
\<close>

definition reply_channels :: "'s amqp_api \<Rightarrow> Config \<Rightarrow> ('s, nat \<times> nat \<times> string) io" where
  "reply_channels A cfg =
     io_bind (ap_open A) (\<lambda>ch.
       on_failure (ap_close A ch)
         (io_bind (io_wrap (wrapping (''declaring exchange '' @ cf_CallbacksExchange cfg))
                    (ap_exchange A ch (cf_CallbacksExchange cfg) ''direct'')) (\<lambda>_.
          io_bind (io_wrap (wrapping ''declaring reply queue'') (ap_queue A ch '''' False True True [])) (\<lambda>q.
          io_bind (io_wrap (wrapping ''binding reply queue'') (ap_bind A ch q q (cf_CallbacksExchange cfg))) (\<lambda>_.
          io_bind (ap_open A) (\<lambda>pub.
          io_bind (on_failure (ap_close A pub) (open_pub A pub)) (\<lambda>_.
          io_bind (on_failure (ap_close A pub)
                    (io_wrap (wrapping ''consuming replies'') (ap_consume A ch q '''' True True))) (\<lambda>_.
          io_return (ch, pub, q)))))))))"

definition restore_dispatcher :: "'s amqp_api \<Rightarrow> Config \<Rightarrow> bool \<Rightarrow> bool \<Rightarrow> ('s, (nat \<times> nat \<times> string) option) io" where
  "restore_dispatcher A cfg closed closed_meanwhile s =
     (if closed then (Inr None, s)
      else (case reply_channels A cfg (declareCoreExchanges A cfg s) of
              (Inl e, s1) \<Rightarrow> (Inl e, s1)
            | (Inr (ch, pub, q), s1) \<Rightarrow>
                if closed_meanwhile then (Inr None, ap_close A ch (ap_close A pub s1))
                else (Inr (Some (ch, pub, q)), s1)))"

subsection \<open>Retry and redelivery\<close>

definition precondition_failed_code :: nat where "precondition_failed_code = 406"

definition retry_mismatch :: "string \<Rightarrow> duration \<Rightarrow> err \<Rightarrow> err" where
  "retry_mismatch queue delay e =
     wrap1 (sentinel_text ErrRetryQueueMismatch @ '': '' @ queue @
       '' already exists with other arguments (most likely a different retry delay, now '' @ duration_string delay @
       ''). RabbitMQ cannot change a queue's x-message-ttl in place: drain and delete the queue, or keep the original delay: '' @
       error_text e) (Sentinel ErrRetryQueueMismatch)"

definition retry_queue_error :: "'s amqp_api \<Rightarrow> string \<Rightarrow> duration \<Rightarrow> err \<Rightarrow> err" where
  "retry_queue_error A queue delay e =
     (if first_some (ap_code A) (preorder e) = Some precondition_failed_code then retry_mismatch queue delay e
      else wrapping (''declaring '' @ queue) e)"

definition declareRetryTopology :: "'s amqp_api \<Rightarrow> nat \<Rightarrow> retrySpec \<Rightarrow> duration \<Rightarrow> string \<Rightarrow> ('s, unit) io" where
  "declareRetryTopology A ch rs delay deadLetterTo =
     io_bind (io_wrap (wrapping (''declaring '' @ rs_dlq rs)) (ap_queue A ch (rs_dlq rs) True False False [])) (\<lambda>_.
     io_bind (io_wrap (retry_queue_error A (rs_queue rs) delay)
       (ap_queue A ch (rs_queue rs) True False False
         [(''x-message-ttl'', intHeader (Milliseconds delay)), (''x-dead-letter-exchange'', VString deadLetterTo)])) (\<lambda>_.
     io_bind (io_wrap (wrapping (''declaring '' @ rs_exchange rs)) (ap_exchange A ch (rs_exchange rs) ''topic'')) (\<lambda>_.
     io_wrap (wrapping (''binding '' @ rs_queue rs)) (ap_bind A ch (rs_queue rs) ''#'' (rs_exchange rs)))))"

definition request_declare :: "'s amqp_api \<Rightarrow> ('m, 'w) Service \<Rightarrow> nat \<Rightarrow> string \<Rightarrow> ('s, unit) io" where
  "request_declare A s ch q =
     (case request_retry s of
        None \<Rightarrow> io_return ()
      | Some rs \<Rightarrow> declareRetryTopology A ch rs (rt_Delay (sp_retry (sv_opts s))) (cf_BusExchange (sv_cfg s)))"

definition redelivery :: "string \<Rightarrow> string" where
  "redelivery queue = queue @ ''.Redelivery''"

definition event_declare :: "'s amqp_api \<Rightarrow> string \<Rightarrow> EventRetryPolicy \<Rightarrow> nat \<Rightarrow> string \<Rightarrow> ('s, unit) io" where
  "event_declare A queue retry ch q =
     (case event_retry queue retry of
        None \<Rightarrow> io_return ()
      | Some rs \<Rightarrow>
          io_bind (io_wrap (wrapping (''declaring '' @ redelivery queue)) (ap_exchange A ch (redelivery queue) ''topic'')) (\<lambda>_.
          io_bind (io_wrap (wrapping (''binding '' @ redelivery queue)) (ap_bind A ch q ''#'' (redelivery queue))) (\<lambda>_.
          declareRetryTopology A ch rs (er_Delay retry) (redelivery queue))))"

subsection \<open>Consumers\<close>

text \<open>
  The part of \<open>consumer.restoreTopology\<close> that declares: a channel with its topology, or an
  error and no channel.
\<close>

definition declare_consumer ::
  "'s amqp_api \<Rightarrow> consumerSpec \<Rightarrow> string list \<Rightarrow> (nat \<Rightarrow> string \<Rightarrow> ('s, unit) io) \<Rightarrow> ('s, nat \<times> string) io" where
  "declare_consumer A spec bindings declare =
     io_bind (ap_open A) (\<lambda>ch.
       on_failure (ap_close A ch)
         (io_bind (open_pub A ch) (\<lambda>_.
          io_bind (ap_qos A ch (cs_prefetch spec)) (\<lambda>_.
          io_bind (io_wrap (wrapping (''declaring exchange '' @ cs_exchange spec))
                    (ap_exchange A ch (cs_exchange spec) ''topic'')) (\<lambda>_.
          io_bind (let anonymous = (cs_queue spec = '''')
                   in io_wrap (wrapping (''declaring queue '' @ cs_queue spec))
                        (ap_queue A ch (cs_queue spec) (\<not> anonymous) anonymous anonymous (cs_queueArgs spec))) (\<lambda>q.
          io_bind (io_each (\<lambda>key. io_wrap (wrapping (''binding '' @ q @ '' to '' @ key))
                      (ap_bind A ch q key (cs_exchange spec))) bindings) (\<lambda>_.
          io_bind (declare ch q) (\<lambda>_.
          io_return (ch, q)))))))))"

record consumer_state =
  cm_ch :: "nat option"
  cm_queue :: string
  cm_tag :: string
  cm_consuming :: bool
  cm_closed :: bool

definition newConsumer :: consumer_state where
  "newConsumer = \<lparr>cm_ch = None, cm_queue = '''', cm_tag = '''', cm_consuming = False, cm_closed = False\<rparr>"

definition stopConsuming :: "'s amqp_api \<Rightarrow> bool \<Rightarrow> consumer_state \<Rightarrow> 's \<Rightarrow> consumer_state \<times> 's" where
  "stopConsuming A ch_closed c s =
     (c\<lparr>cm_consuming := False, cm_tag := ''''\<rparr>,
      case cm_ch c of
        Some ch \<Rightarrow> if cm_tag c \<noteq> '''' \<and> \<not> ch_closed then snd (ap_cancel A ch (cm_tag c) s) else s
      | None \<Rightarrow> s)"

definition close_consumer :: "'s amqp_api \<Rightarrow> bool \<Rightarrow> consumer_state \<Rightarrow> 's \<Rightarrow> consumer_state \<times> 's" where
  "close_consumer A ch_closed c s =
     (let (c1, s1) = stopConsuming A ch_closed c s in
      if cm_closed c1 then (c1, s1)
      else (c1\<lparr>cm_closed := True, cm_ch := None\<rparr>,
            case cm_ch c1 of None \<Rightarrow> s1 | Some ch \<Rightarrow> ap_close A ch s1))"

text \<open>
  Between two critical sections of a restore the application may stop or close the
  consumer; the flag is what \<open>ch.IsClosed\<close> tells it.
\<close>

datatype meanwhile = Quiet | Stops bool | Closes bool

fun others :: "'s amqp_api \<Rightarrow> meanwhile \<Rightarrow> consumer_state \<Rightarrow> 's \<Rightarrow> consumer_state \<times> 's" where
  "others A Quiet c s = (c, s)"
| "others A (Stops b) c s = stopConsuming A b c s"
| "others A (Closes b) c s = close_consumer A b c s"

text \<open>
  \<open>startConsuming\<close> with a fresh consumer tag. The delivery loop it starts, and waiting for the
  loop of an old channel in \<open>restoreTopology\<close>, are not visible in this state.
\<close>

definition startConsuming ::
  "'s amqp_api \<Rightarrow> consumerSpec \<Rightarrow> string \<Rightarrow> meanwhile \<Rightarrow> consumer_state \<Rightarrow> 's \<Rightarrow> err option \<times> consumer_state \<times> 's" where
  "startConsuming A spec tag m c s =
     (case cm_ch c of
        None \<Rightarrow> (Some (wrap1 (sentinel_text ErrNotReady @ '': no channel'') (Sentinel ErrNotReady)), c, s)
      | Some ch \<Rightarrow>
          (case ap_consume A ch (cm_queue c) tag False (cs_queue spec = '''') s of
             (Inl e, s1) \<Rightarrow> (Some (wrapping (''consuming '' @ cm_queue c) e), c, s1)
           | (Inr _, s1) \<Rightarrow>
               let (c2, s2) = others A m c s1 in
               if cm_consuming c2 \<and> \<not> cm_closed c2 \<and> cm_ch c2 = Some ch then (None, c2\<lparr>cm_tag := tag\<rparr>, s2)
               else (None, c2, snd (ap_cancel A ch tag s2))))"

definition restore_consumer ::
  "'s amqp_api \<Rightarrow> consumerSpec \<Rightarrow> string list \<Rightarrow> (nat \<Rightarrow> string \<Rightarrow> ('s, unit) io) \<Rightarrow> string \<Rightarrow> meanwhile \<Rightarrow> meanwhile \<Rightarrow>
   consumer_state \<Rightarrow> 's \<Rightarrow> err option \<times> consumer_state \<times> 's" where
  "restore_consumer A spec bindings declare tag m1 m2 c0 s =
     (if cm_closed c0 then (None, c0, s)
      else (case declare_consumer A spec bindings declare s of
              (Inl e, s1) \<Rightarrow> (Some e, c0, s1)
            | (Inr (ch, q), s1) \<Rightarrow>
                let (c, s2) = others A m1 c0 s1 in
                if cm_closed c then (None, c, ap_close A ch s2)
                else
                  let c1 = c\<lparr>cm_ch := Some ch, cm_queue := q\<rparr>;
                      s3 = (case cm_ch c of None \<Rightarrow> s2 | Some old \<Rightarrow> if old \<noteq> ch then ap_close A old s2 else s2)
                  in if cm_consuming c then startConsuming A spec tag m2 c1 s3 else (None, c1, s3)))"

definition bind_consumer :: "'s amqp_api \<Rightarrow> consumerSpec \<Rightarrow> bool \<Rightarrow> string \<Rightarrow> consumer_state \<Rightarrow> ('s, unit) io" where
  "bind_consumer A spec ch_closed key c s =
     (case cm_ch c of
        None \<Rightarrow> (Inr (), s)
      | Some ch \<Rightarrow> if ch_closed then (Inr (), s) else ap_bind A ch (cm_queue c) key (cs_exchange spec) s)"

subsection \<open>Event publisher and cancel listener\<close>

definition restore_publisher :: "'s amqp_api \<Rightarrow> Config \<Rightarrow> nat option \<Rightarrow> 's \<Rightarrow> err option \<times> nat option \<times> 's" where
  "restore_publisher A cfg old s =
     (case io_bind (ap_open A) (\<lambda>raw.
             io_bind (io_wrap (wrapping (''declaring exchange '' @ cf_EventsExchange cfg))
                       (ap_exchange A raw (cf_EventsExchange cfg) ''topic'')) (\<lambda>_.
             io_bind (open_pub A raw) (\<lambda>_. io_return raw))) s of
        (Inl e, s1) \<Rightarrow> (Some e, old, s1)
      | (Inr raw, s1) \<Rightarrow> (None, Some raw, case old of None \<Rightarrow> s1 | Some o1 \<Rightarrow> ap_close A o1 s1))"

definition start_cancel_listener :: "'s amqp_api \<Rightarrow> Config \<Rightarrow> ('s, nat) io" where
  "start_cancel_listener A cfg =
     io_bind (ap_open A) (\<lambda>ch.
       on_failure (ap_close A ch)
         (io_bind (ap_exchange A ch (cf_CancelExchange cfg) ''fanout'') (\<lambda>_.
          io_bind (ap_queue A ch '''' False True True []) (\<lambda>q.
          io_bind (ap_bind A ch q '''' (cf_CancelExchange cfg)) (\<lambda>_.
          io_bind (ap_consume A ch q '''' True True) (\<lambda>_.
          io_return ch))))))"

text \<open>\<open>cancelListener.restoreTopology\<close> swallows the error.\<close>

definition restore_cancel_listener :: "'s amqp_api \<Rightarrow> Config \<Rightarrow> nat option \<Rightarrow> 's \<Rightarrow> nat option \<times> 's" where
  "restore_cancel_listener A cfg old s =
     (case start_cancel_listener A cfg s of
        (Inl e, s1) \<Rightarrow> (old, s1)
      | (Inr ch, s1) \<Rightarrow> (Some ch, s1))"

section \<open>Channels are not leaked\<close>

text \<open>
  What the components rely on: a channel that is opened is not one of those in use, a call
  that fails is a channel exception and closes its channel (AMQP reports every error of
  these calls so), a call that succeeds opens and closes nothing. \<open>live\<close> is the set of
  channels open in a state.
\<close>

definition leaves :: "('s \<Rightarrow> nat set) \<Rightarrow> nat \<Rightarrow> ('s, 'a) io \<Rightarrow> bool" where
  "leaves live ch m \<longleftrightarrow>
     (\<forall>s r s1. m s = (r, s1) \<longrightarrow>
        (case r of Inr _ \<Rightarrow> live s1 = live s | Inl _ \<Rightarrow> live s1 = live s - {ch}))"

text \<open>
  \<open>adds live ch held m\<close>: on success exactly the channels \<open>held\<close> of the result are new; on
  failure nothing is, and only \<open>ch\<close> may have been closed.
\<close>

definition adds :: "('s \<Rightarrow> nat set) \<Rightarrow> nat \<Rightarrow> ('a \<Rightarrow> nat set) \<Rightarrow> ('s, 'a) io \<Rightarrow> bool" where
  "adds live ch held m \<longleftrightarrow>
     (\<forall>s r s1. m s = (r, s1) \<longrightarrow> ch \<in> live s \<longrightarrow>
        (case r of
           Inr a \<Rightarrow> live s1 = live s \<union> held a \<and> held a \<inter> live s = {}
         | Inl _ \<Rightarrow> live s1 - {ch} = live s - {ch}))"

text \<open>\<open>builds live held m\<close>: success adds exactly the channels of the result, failure adds none.\<close>

definition builds :: "('s \<Rightarrow> nat set) \<Rightarrow> ('a \<Rightarrow> nat set) \<Rightarrow> ('s, 'a) io \<Rightarrow> bool" where
  "builds live held m \<longleftrightarrow>
     (\<forall>s r s1. m s = (r, s1) \<longrightarrow>
        (case r of
           Inr a \<Rightarrow> live s1 = live s \<union> held a \<and> held a \<inter> live s = {}
         | Inl _ \<Rightarrow> live s1 = live s))"

abbreviation none_held :: "'a \<Rightarrow> nat set" where "none_held \<equiv> \<lambda>_. {}"

lemma leavesD:
  "leaves live ch m \<Longrightarrow> m s = (Inr a, s1) \<Longrightarrow> live s1 = live s"
  "leaves live ch m \<Longrightarrow> m s = (Inl e, s1) \<Longrightarrow> live s1 = live s - {ch}"
  by (fastforce simp: leaves_def)+

lemma addsD:
  "adds live ch held m \<Longrightarrow> m s = (Inr a, s1) \<Longrightarrow> ch \<in> live s \<Longrightarrow>
     live s1 = live s \<union> held a \<and> held a \<inter> live s = {}"
  "adds live ch held m \<Longrightarrow> m s = (Inl e, s1) \<Longrightarrow> ch \<in> live s \<Longrightarrow> live s1 - {ch} = live s - {ch}"
  by (fastforce simp: adds_def)+

lemma buildsD:
  "builds live held m \<Longrightarrow> m s = (Inr a, s1) \<Longrightarrow> live s1 = live s \<union> held a \<and> held a \<inter> live s = {}"
  "builds live held m \<Longrightarrow> m s = (Inl e, s1) \<Longrightarrow> live s1 = live s"
  by (fastforce simp: builds_def)+

lemma io_bind_cases:
  assumes "io_bind m f s = (r, s2)"
  obtains (fail) e where "m s = (Inl e, s2)" "r = Inl e"
  | (ok) a s1 where "m s = (Inr a, s1)" "f a s1 = (r, s2)"
  using assms by (auto simp: io_bind_def split: prod.splits sum.splits)

lemma io_wrap_cases:
  assumes "io_wrap g m s = (r, s1)"
  obtains (fail) e where "m s = (Inl e, s1)" "r = Inl (g e)"
  | (ok) a where "m s = (Inr a, s1)" "r = Inr a"
  using assms by (cases "m s"; cases "fst (m s)") (auto simp: io_wrap_def)

lemma on_failure_cases:
  assumes "on_failure g m s = (r, s2)"
  obtains (fail) e s1 where "m s = (Inl e, s1)" "r = Inl e" "s2 = g s1"
  | (ok) a where "m s = (Inr a, s2)" "r = Inr a"
  using assms by (auto simp: on_failure_def split: prod.splits sum.splits)

lemma leaves_adds: "leaves live ch m \<Longrightarrow> adds live ch none_held m"
  by (auto simp: leaves_def adds_def split: sum.split) (fastforce split: sum.splits)+

lemma adds_wrap: "adds live ch held m \<Longrightarrow> adds live ch held (io_wrap f m)"
  unfolding adds_def [of _ _ _ "io_wrap f m"] by (auto elim!: io_wrap_cases dest: addsD)

lemma adds_result:
  "adds live ch none_held m \<Longrightarrow> (\<And>s a s1. m s = (Inr a, s1) \<Longrightarrow> held a = {}) \<Longrightarrow> adds live ch held m"
  unfolding adds_def [of _ _ held] by (auto split: sum.split dest: addsD)

lemma leaves_wrap: "leaves live ch m \<Longrightarrow> leaves live ch (io_wrap f m)"
  unfolding leaves_def [of _ _ "io_wrap f m"] by (auto elim!: io_wrap_cases dest: leavesD)

lemma adds_return: "adds live ch none_held (io_return a)"
  by (auto simp: adds_def io_return_def)

lemma adds_bind:
  assumes "adds live ch none_held m" "\<And>a. adds live ch held (f a)"
  shows "adds live ch held (io_bind m f)"
  unfolding adds_def
proof (intro allI impI)
  fix s r s2
  assume "io_bind m f s = (r, s2)" and ch: "ch \<in> live s"
  then show "case r of Inr a \<Rightarrow> live s2 = live s \<union> held a \<and> held a \<inter> live s = {} | Inl _ \<Rightarrow> live s2 - {ch} = live s - {ch}"
  proof (cases rule: io_bind_cases)
    case (fail e)
    with addsD(2) [OF assms(1) _ ch] show ?thesis by simp
  next
    case (ok a s1)
    with addsD(1) [OF assms(1) _ ch] have "live s1 = live s" by simp
    with ok(2) ch show ?thesis by (cases r) (auto dest!: addsD [OF assms(2) [of a]])
  qed
qed

lemma leaves_bind:
  assumes "leaves live ch m" "\<And>a. leaves live ch (f a)"
  shows "leaves live ch (io_bind m f)"
  unfolding leaves_def
proof (intro allI impI)
  fix s r s2
  assume "io_bind m f s = (r, s2)"
  then show "case r of Inr _ \<Rightarrow> live s2 = live s | Inl _ \<Rightarrow> live s2 = live s - {ch}"
  proof (cases rule: io_bind_cases)
    case (fail e)
    with leavesD(2) [OF assms(1)] show ?thesis by simp
  next
    case (ok a s1)
    with leavesD(1) [OF assms(1)] have "live s1 = live s" by simp
    with ok(2) show ?thesis by (cases r) (auto dest!: leavesD [OF assms(2) [of a]])
  qed
qed

lemma leaves_return: "leaves live ch (io_return a)"
  by (auto simp: leaves_def io_return_def)

lemma adds_each: "(\<And>x. adds live ch none_held (f x)) \<Longrightarrow> adds live ch none_held (io_each f xs)"
  by (induction xs) (simp_all add: adds_return adds_bind)

definition holding :: "consumer_state \<Rightarrow> nat set" where
  "holding c = set_option (cm_ch c)"

locale channel_api =
  fixes A :: "'s amqp_api" and live :: "'s \<Rightarrow> nat set"
  assumes opens: "case ap_open A s of
      (Inr c, s1) \<Rightarrow> c \<notin> live s \<and> live s1 = insert c (live s) | (Inl e, s1) \<Rightarrow> live s1 = live s"
    and confirm_leaves: "leaves live ch (ap_confirm A ch)"
    and qos_leaves: "leaves live ch (ap_qos A ch n)"
    and exchange_leaves: "leaves live ch (ap_exchange A ch x k)"
    and queue_leaves: "leaves live ch (ap_queue A ch q du au ex args)"
    and bind_leaves: "leaves live ch (ap_bind A ch q key x)"
    and consume_leaves: "leaves live ch (ap_consume A ch q tag auto excl)"
    and cancel_leaves: "leaves live ch (ap_cancel A ch tag)"
    and close_closes: "live (ap_close A ch s) = live s - {ch}"
begin

lemmas op_leaves =
  confirm_leaves qos_leaves exchange_leaves queue_leaves bind_leaves consume_leaves cancel_leaves

lemmas op_adds = op_leaves [THEN leaves_adds]

lemma pub_leaves: "leaves live ch (open_pub A ch)"
  by (simp add: open_pub_def leaves_wrap op_leaves)

lemma openD:
  "ap_open A s = (Inr c, s1) \<Longrightarrow> c \<notin> live s \<and> live s1 = insert c (live s)"
  "ap_open A s = (Inl e, s1) \<Longrightarrow> live s1 = live s"
  using opens [of s] by simp_all

lemma builds_open:
  assumes "\<And>ch. adds live ch (\<lambda>a. held a - {ch}) (f ch)"
    and "\<And>ch s a s1. f ch s = (Inr a, s1) \<Longrightarrow> ch \<in> held a"
  shows "builds live held (io_bind (ap_open A) (\<lambda>ch. on_failure (ap_close A ch) (f ch)))"
  unfolding builds_def
proof (intro allI impI)
  fix s r s3
  assume "io_bind (ap_open A) (\<lambda>ch. on_failure (ap_close A ch) (f ch)) s = (r, s3)"
  then show "case r of Inr a \<Rightarrow> live s3 = live s \<union> held a \<and> held a \<inter> live s = {} | Inl _ \<Rightarrow> live s3 = live s"
  proof (cases rule: io_bind_cases)
    case (fail e)
    with opens [of s] show ?thesis by simp
  next
    case (ok ch s1)
    with opens [of s] have ch: "ch \<notin> live s" "live s1 = insert ch (live s)" by simp_all
    from ok(2) show ?thesis
    proof (cases rule: on_failure_cases)
      case (fail e s2)
      with addsD(2) [OF assms(1) fail(1)] ch have "live s2 - {ch} = live s" by auto
      with fail show ?thesis by (simp add: close_closes)
    next
      case (ok a)
      with addsD(1) [OF assms(1) ok(1)] ch assms(2) [OF ok(1)] show ?thesis by auto
    qed
  qed
qed

lemma builds_open_one:
  assumes "\<And>ch. adds live ch none_held (f ch)"
    and "\<And>ch s a s1. f ch s = (Inr a, s1) \<Longrightarrow> held a = {ch}"
  shows "builds live held (io_bind (ap_open A) (\<lambda>ch. on_failure (ap_close A ch) (f ch)))"
proof (rule builds_open)
  show "adds live ch (\<lambda>a. held a - {ch}) (f ch)" for ch
    by (rule adds_result [OF assms(1)]) (simp add: assms(2))
qed (simp add: assms(2))

lemmas step_adds = adds_bind adds_wrap adds_each adds_return op_adds pub_leaves [THEN leaves_adds]
lemmas step_leaves = leaves_bind leaves_wrap leaves_return op_leaves pub_leaves

lemma retry_topology_adds: "adds live ch none_held (declareRetryTopology A ch rs delay x)"
  unfolding declareRetryTopology_def by (intro step_adds)

lemma request_declare_adds: "adds live ch none_held (request_declare A s ch q)"
  unfolding request_declare_def by (cases "request_retry s") (simp_all add: adds_return retry_topology_adds)

lemma event_declare_adds: "adds live ch none_held (event_declare A queue retry ch q)"
proof (cases "event_retry queue retry")
  case (Some rs)
  show ?thesis unfolding event_declare_def Some option.case by (intro step_adds retry_topology_adds)
qed (simp add: event_declare_def adds_return)

lemma io_return_result: "io_return a s = (Inr b, s1) \<longleftrightarrow> b = a \<and> s1 = s"
  by (auto simp: io_return_def)

lemma declare_consumer_builds:
  assumes "\<And>ch q. adds live ch none_held (declare ch q)"
  shows "builds live (\<lambda>(ch, q). {ch}) (declare_consumer A spec bindings declare)"
  unfolding declare_consumer_def Let_def
proof (rule builds_open_one)
  show "adds live ch none_held
      (io_bind (open_pub A ch) (\<lambda>_. io_bind (ap_qos A ch (cs_prefetch spec)) (\<lambda>_.
       io_bind (io_wrap (wrapping (''declaring exchange '' @ cs_exchange spec)) (ap_exchange A ch (cs_exchange spec) ''topic'')) (\<lambda>_.
       io_bind (io_wrap (wrapping (''declaring queue '' @ cs_queue spec))
         (ap_queue A ch (cs_queue spec) (cs_queue spec \<noteq> []) (cs_queue spec = []) (cs_queue spec = []) (cs_queueArgs spec))) (\<lambda>q.
       io_bind (io_each (\<lambda>key. io_wrap (wrapping (''binding '' @ q @ '' to '' @ key)) (ap_bind A ch q key (cs_exchange spec))) bindings) (\<lambda>_.
       io_bind (declare ch q) (\<lambda>_. io_return (ch, q))))))))" for ch
    by (intro step_adds assms)
qed (auto elim!: io_bind_cases simp: io_return_result)

lemma start_cancel_builds: "builds live (\<lambda>ch. {ch}) (start_cancel_listener A cfg)"
  unfolding start_cancel_listener_def
  by (rule builds_open_one) (intro step_adds, auto elim!: io_bind_cases simp: io_return_result)

lemma declare_each_live: "live (declare_each A exs s) = live s"
proof (induction exs arbitrary: s)
  case (Cons x exs)
  obtain name kind where x: "x = (name, kind)" by force
  obtain r s1 where o1: "ap_open A s = (r, s1)" by force
  show ?case
  proof (cases r)
    case (Inl e)
    with o1 opens [of s] x show ?thesis by simp
  next
    case (Inr ch)
    obtain r2 s2 where d: "ap_exchange A ch name kind s1 = (r2, s2)" by force
    have ch: "ch \<notin> live s" "live s1 = insert ch (live s)" using opens [of s] o1 Inr by simp_all
    from leavesD [OF exchange_leaves] d ch Cons.IH o1 Inr x show ?thesis
      by (cases r2) (fastforce simp: close_closes)+
  qed
qed simp

lemma second_channel_adds:
  "adds live ch (\<lambda>(c, p, q). {c, p} - {ch})
     (io_bind (ap_open A) (\<lambda>pub.
      io_bind (on_failure (ap_close A pub) (open_pub A pub)) (\<lambda>_.
      io_bind (on_failure (ap_close A pub) (io_wrap (wrapping what) (ap_consume A ch q tag au ex))) (\<lambda>_.
      io_return (ch, pub, q)))))"
  unfolding adds_def
  by (intro allI impI, elim io_bind_cases on_failure_cases io_wrap_cases)
     (auto simp: io_return_def close_closes
       dest!: openD leavesD [OF pub_leaves] leavesD [OF consume_leaves])

lemma reply_channels_builds: "builds live (\<lambda>(ch, pub, q). {ch, pub}) (reply_channels A cfg)"
  unfolding reply_channels_def
proof (rule builds_open, goal_cases)
  case (1 ch)
  have held: "(\<lambda>a. (case a of (ch, pub, q) \<Rightarrow> {ch, pub}) - {ch}) = (\<lambda>(c, p, q). {c, p} - {ch})" by auto
  show ?case
    unfolding held
    by (rule adds_bind [OF adds_wrap [OF exchange_leaves [THEN leaves_adds]]],
        rule adds_bind [OF adds_wrap [OF queue_leaves [THEN leaves_adds]]],
        rule adds_bind [OF adds_wrap [OF bind_leaves [THEN leaves_adds]]], rule second_channel_adds)
next
  case (2 ch s a s1)
  then show ?case by (auto elim!: io_bind_cases simp: io_return_result)
qed

text \<open>
  Whatever happens, a restore changes which channels are open only by those the component
  holds before and after.
\<close>

lemma cancel_other: "x \<noteq> ch \<Longrightarrow> x \<in> live (snd (ap_cancel A ch tag s)) \<longleftrightarrow> x \<in> live s"
  using leavesD [OF cancel_leaves] by (cases "ap_cancel A ch tag s"; cases "fst (ap_cancel A ch tag s)") auto

lemma stop_live: "stopConsuming A b c s = (c1, s1) \<Longrightarrow> live s1 - holding c1 = live s - holding c"
  by (cases "cm_ch c") (auto simp: stopConsuming_def holding_def cancel_other split: if_splits)

lemma close_live:
  assumes "close_consumer A b c s = (c1, s1)"
  shows "live s1 - holding c1 = live s - holding c"
proof -
  obtain c2 s2 where st: "stopConsuming A b c s = (c2, s2)" by force
  have ch: "cm_ch c2 = cm_ch c" using st by (auto simp: stopConsuming_def)
  note l = stop_live [OF st]
  show ?thesis
  proof (cases "cm_closed c2")
    case True
    with assms st l show ?thesis by (simp add: close_consumer_def)
  next
    case False
    with assms st have "c1 = c2\<lparr>cm_closed := True, cm_ch := None\<rparr>"
      "s1 = (case cm_ch c2 of None \<Rightarrow> s2 | Some ch \<Rightarrow> ap_close A ch s2)"
      by (simp_all add: close_consumer_def)
    with l ch show ?thesis by (cases "cm_ch c") (simp_all add: holding_def close_closes)
  qed
qed

lemma others_live: "others A m c s = (c1, s1) \<Longrightarrow> live s1 - holding c1 = live s - holding c"
  by (cases m) (simp_all add: stop_live close_live)

lemma others_held: "others A m c s = (c1, s1) \<Longrightarrow> holding c1 \<subseteq> holding c"
  by (cases m) (auto simp: stopConsuming_def close_consumer_def holding_def Let_def split: if_splits)

lemma start_live:
  assumes "startConsuming A spec tag m c s = (e, c1, s1)"
  shows "live s1 - holding c1 = live s - holding c"
proof (cases "cm_ch c")
  case None
  with assms show ?thesis by (simp add: startConsuming_def)
next
  case (Some ch)
  obtain r s2 where co: "ap_consume A ch (cm_queue c) tag False (cs_queue spec = []) s = (r, s2)" by force
  show ?thesis
  proof (cases r)
    case (Inl x)
    with leavesD(2) [OF consume_leaves] co Some assms show ?thesis
      by (auto simp: startConsuming_def holding_def)
  next
    case (Inr u)
    with leavesD(1) [OF consume_leaves] co have s2: "live s2 = live s" by fastforce
    obtain c3 s3 where ot: "others A m c s2 = (c3, s3)" by force
    note l = others_live [OF ot] others_held [OF ot]
    show ?thesis
    proof (cases "cm_consuming c3 \<and> \<not> cm_closed c3 \<and> cm_ch c3 = Some ch")
      case True
      with assms Some co Inr ot have "c1 = c3\<lparr>cm_tag := tag\<rparr>" "s1 = s3" by (auto simp: startConsuming_def)
      with l(1) s2 show ?thesis by (simp add: holding_def)
    next
      case False
      with assms Some co Inr ot have "c1 = c3" "s1 = snd (ap_cancel A ch tag s3)" by (auto simp: startConsuming_def)
      moreover have "live (snd (ap_cancel A ch tag s3)) = live s3 \<or> live (snd (ap_cancel A ch tag s3)) = live s3 - {ch}"
        using leavesD [OF cancel_leaves] by (cases "ap_cancel A ch tag s3"; cases "fst (ap_cancel A ch tag s3)") auto
      ultimately show ?thesis
        using l s2 Some by (cases "cm_ch c3") (auto simp: holding_def)
    qed
  qed
qed

lemma restore_consumer_live:
  assumes decl: "\<And>ch q. adds live ch none_held (dc ch q)"
    and run: "restore_consumer A spec bindings dc tag m1 m2 c0 s = (e, c1, s1)"
  shows "live s1 - holding c1 = live s - holding c0"
proof (cases "cm_closed c0")
  case True
  with run show ?thesis by (simp add: restore_consumer_def)
next
  case False
  obtain r s2 where de: "declare_consumer A spec bindings dc s = (r, s2)" by force
  note b = buildsD [OF declare_consumer_builds [OF decl], where s = s]
  show ?thesis
  proof (cases r)
    case (Inl x)
    with b(2) de False run show ?thesis by (auto simp: restore_consumer_def)
  next
    case (Inr chq)
    obtain ch q where chq: "chq = (ch, q)" by force
    with b(1) de Inr have s2: "live s2 = insert ch (live s)" "ch \<notin> live s" by auto
    obtain c s3 where ot: "others A m1 c0 s2 = (c, s3)" by force
    note l = others_live [OF ot] others_held [OF ot]
    define s4 where "s4 = (case cm_ch c of None \<Rightarrow> s3 | Some old \<Rightarrow> if old \<noteq> ch then ap_close A old s3 else s3)"
    define c2 where "c2 = c\<lparr>cm_ch := Some ch, cm_queue := q\<rparr>"
    have s4: "live s4 - {ch} = live s - holding c0"
      using l s2 by (cases "cm_ch c") (auto simp: s4_def holding_def close_closes)
    have eq: "restore_consumer A spec bindings dc tag m1 m2 c0 s =
        (if cm_closed c then (None, c, ap_close A ch s3)
         else if cm_consuming c then startConsuming A spec tag m2 c2 s4 else (None, c2, s4))"
      using False de Inr chq ot
      by (cases "cm_closed c"; cases "cm_consuming c") (simp_all add: restore_consumer_def Let_def s4_def c2_def)
    have held: "holding c2 = {ch}" by (simp add: c2_def holding_def)
    consider "c1 = c" "s1 = ap_close A ch s3" | "startConsuming A spec tag m2 c2 s4 = (e, c1, s1)" | "c1 = c2" "s1 = s4"
      using run unfolding eq by (simp split: if_splits)
    then show ?thesis
    proof cases
      case 1
      with l s2 show ?thesis by (auto simp: close_closes)
    next
      case 2
      from start_live [OF 2] s4 held show ?thesis by simp
    next
      case 3
      with s4 held show ?thesis by simp
    qed
  qed
qed

lemma restore_publisher_live:
  assumes "restore_publisher A cfg old s = (e, pub, s1)"
  shows "live s1 - set_option pub = live s - set_option old"
proof -
  let ?m = "io_bind (ap_open A) (\<lambda>raw.
      io_bind (io_wrap (wrapping (''declaring exchange '' @ cf_EventsExchange cfg)) (ap_exchange A raw (cf_EventsExchange cfg) ''topic'')) (\<lambda>_.
      io_bind (open_pub A raw) (\<lambda>_. io_return raw)))"
  have "builds live (\<lambda>raw. {raw}) ?m"
    unfolding builds_def
    by (intro allI impI, elim io_bind_cases io_wrap_cases)
       (auto simp: io_return_def dest!: openD leavesD [OF pub_leaves] leavesD [OF exchange_leaves])
  note b = buildsD [OF this, where s = s]
  obtain r s2 where m: "?m s = (r, s2)" by force
  show ?thesis
  proof (cases r)
    case (Inl x)
    with m assms b(2) show ?thesis by (auto simp: restore_publisher_def)
  next
    case (Inr raw)
    with m assms have "pub = Some raw" "s1 = (case old of None \<Rightarrow> s2 | Some o1 \<Rightarrow> ap_close A o1 s2)"
      by (simp_all add: restore_publisher_def)
    with b(1) [where a = raw] m Inr show ?thesis by (cases old) (auto simp: close_closes)
  qed
qed

lemma restore_dispatcher_live:
  assumes "restore_dispatcher A cfg closed closed_meanwhile s = (r, s1)"
  shows "case r of Inr (Some (ch, pub, q)) \<Rightarrow> live s1 = insert ch (insert pub (live s)) | _ \<Rightarrow> live s1 = live s"
proof (cases closed)
  case True
  with assms show ?thesis by (auto simp: restore_dispatcher_def)
next
  case False
  define s0 where "s0 = declareCoreExchanges A cfg s"
  have s0: "live s0 = live s" unfolding s0_def declareCoreExchanges_def by (rule declare_each_live)
  obtain r2 s2 where m: "reply_channels A cfg s0 = (r2, s2)" by force
  note b = buildsD [OF reply_channels_builds, where s = s0]
  show ?thesis
  proof (cases r2)
    case (Inl x)
    with m False assms b(2) s0 show ?thesis by (auto simp: restore_dispatcher_def s0_def)
  next
    case (Inr cpq)
    obtain ch pub q where "cpq = (ch, pub, q)" by (cases cpq) auto
    with Inr m b(1) [where a = cpq] s0 False assms show ?thesis
      by (auto simp: restore_dispatcher_def s0_def close_closes split: if_splits)
  qed
qed

end

section \<open>An environment behind the interface\<close>

text \<open>
  The histories of theory \<open>Amqp\<close> as a transport: every call is decided by the environment,
  which may fail any of them. \<open>code\<close> tells which errors are AMQP exceptions.
\<close>

definition env_call :: "env \<Rightarrow> amqp_op \<Rightarrow> 'a \<Rightarrow> (history, 'a) io" where
  "env_call E op a h = (case perform E op h of (Some e, h1) \<Rightarrow> (Inl e, h1) | (None, h1) \<Rightarrow> (Inr a, h1))"

fun opened :: "amqp_op \<times> err option \<Rightarrow> nat" where
  "opened (OpenChannel c, r) = Suc c"
| "opened (op, r) = 0"

definition fresh_chan :: "history \<Rightarrow> nat" where
  "fresh_chan h = fold (\<lambda>x n. max n (opened x)) h 0"

definition env_api :: "(err \<Rightarrow> nat option) \<Rightarrow> env \<Rightarrow> history amqp_api" where
  "env_api code E =
     \<lparr>ap_open = \<lambda>h. env_call E (OpenChannel (fresh_chan h)) (fresh_chan h) h,
      ap_confirm = \<lambda>ch. env_call E (Confirm ch) (),
      ap_qos = \<lambda>ch n. env_call E (Qos ch n) (),
      ap_exchange = \<lambda>ch x k. env_call E (ExchangeDeclare ch x k) (),
      ap_queue = \<lambda>ch q du au ex args h.
        env_call E (QueueDeclare ch q du au ex args) (if q = '''' then env_name E h else q) h,
      ap_bind = \<lambda>ch q key x. env_call E (QueueBind ch q key x) (),
      ap_consume = \<lambda>ch q tag au ex. env_call E (Consume ch q tag au ex) (),
      ap_cancel = \<lambda>ch tag. env_call E (CancelConsumer ch tag) (),
      ap_close = \<lambda>ch h. snd (perform E (CloseChannel ch) h),
      ap_code = code\<rparr>"

text \<open>The channels open after a history.\<close>

fun op_channel :: "amqp_op \<Rightarrow> nat set" where
  "op_channel (Confirm c) = {c}"
| "op_channel (Qos c n) = {c}"
| "op_channel (ExchangeDeclare c x k) = {c}"
| "op_channel (QueueDeclare c q du au ex args) = {c}"
| "op_channel (QueueBind c q key x) = {c}"
| "op_channel (Consume c q tag au ex) = {c}"
| "op_channel (CancelConsumer c tag) = {c}"
| "op_channel op = {}"

fun live_after :: "amqp_op \<times> err option \<Rightarrow> nat set \<Rightarrow> nat set" where
  "live_after (OpenChannel c, r) S = (if r = None then insert c S else S)"
| "live_after (CloseChannel c, r) S = S - {c}"
| "live_after (op, r) S = (if r = None then S else S - op_channel op)"

definition live_channels :: "history \<Rightarrow> nat set" where
  "live_channels h = fold live_after h {}"

lemma live_channels_snoc: "live_channels (h @ [x]) = live_after x (live_channels h)"
  by (simp add: live_channels_def)

lemma fresh_chan_snoc: "fresh_chan (h @ [x]) = max (fresh_chan h) (opened x)"
  by (simp add: fresh_chan_def)

lemma live_below_fresh: "c \<in> live_channels h \<Longrightarrow> c < fresh_chan h"
proof (induction h rule: rev_induct)
  case (snoc x h)
  then show ?case
    by (cases x; cases "fst x") (auto simp: live_channels_snoc fresh_chan_snoc less_max_iff_disj split: if_splits)
qed (simp add: live_channels_def)

interpretation amqp_env: channel_api "env_api code E" live_channels for code E
proof (unfold_locales, goal_cases)
  case (1 s)
  then show ?case
    using live_below_fresh [of "fresh_chan s" s]
    by (auto simp: env_api_def env_call_def perform_def live_channels_snoc split: option.split)
qed (auto simp: leaves_def env_api_def env_call_def perform_def live_channels_snoc split: option.splits sum.split)

section \<open>The life of a consumer\<close>

text \<open>
  What can happen to a consumer, in any order: the application starts and stops it, its
  session restores it with whatever bindings there are by then, it is bound to another
  key, it is closed.
\<close>

inductive consumer_step ::
  "'s amqp_api \<Rightarrow> consumerSpec \<Rightarrow> (nat \<Rightarrow> string \<Rightarrow> ('s, unit) io) \<Rightarrow>
   consumer_state \<times> 's \<Rightarrow> consumer_state \<times> 's \<Rightarrow> bool" for A spec dc where
  wants: "\<not> cm_closed c \<Longrightarrow> consumer_step A spec dc (c, s) (c\<lparr>cm_consuming := True\<rparr>, s)"
| start_failed: "consumer_step A spec dc (c, s) (c\<lparr>cm_consuming := False\<rparr>, s)"
| restored: "restore_consumer A spec bindings dc tag m1 m2 c s = (e, c1, s1) \<Longrightarrow>
    consumer_step A spec dc (c, s) (c1, s1)"
| stopped: "stopConsuming A b c s = (c1, s1) \<Longrightarrow> consumer_step A spec dc (c, s) (c1, s1)"
| closed: "close_consumer A b c s = (c1, s1) \<Longrightarrow> consumer_step A spec dc (c, s) (c1, s1)"
| bound: "bind_consumer A spec b key c s = (r, s1) \<Longrightarrow> consumer_step A spec dc (c, s) (c, s1)"

lemma closed_others: "others A m c s = (c1, s1) \<Longrightarrow> (cm_closed c \<Longrightarrow> cm_ch c = None) \<Longrightarrow> cm_closed c1 \<Longrightarrow> cm_ch c1 = None"
  by (cases m) (auto simp: stopConsuming_def close_consumer_def Let_def split: if_splits)

lemma closed_start:
  assumes "startConsuming A spec tag m c s = (e, c1, s1)" "cm_closed c \<Longrightarrow> cm_ch c = None" "cm_closed c1"
  shows "cm_ch c1 = None"
  using assms closed_others [of A m c] by (auto simp: startConsuming_def Let_def split: option.splits sum.splits prod.splits if_splits)

lemma closed_holds_nothing:
  assumes "consumer_step A spec dc (c, s) (c1, s1)" "cm_closed c \<Longrightarrow> cm_ch c = None" "cm_closed c1"
  shows "cm_ch c1 = None"
  using assms(1)
proof cases
  case (restored bindings tag m1 m2 e)
  show ?thesis
  proof (cases "cm_closed c")
    case True
    with restored assms show ?thesis by (simp add: restore_consumer_def)
  next
    case False
    with restored assms(3) closed_others [of A m1 c] closed_start [of A spec tag m2] show ?thesis
      by (fastforce simp: restore_consumer_def Let_def split: sum.splits prod.splits if_splits)
  qed
qed (use assms closed_others [of A "Stops _"] closed_others [of A "Closes _"] in auto)


inductive consumer_life ::
  "'s amqp_api \<Rightarrow> consumerSpec \<Rightarrow> (nat \<Rightarrow> string \<Rightarrow> ('s, unit) io) \<Rightarrow> 's \<Rightarrow> consumer_state \<times> 's \<Rightarrow> bool" for A spec dc s0 where
  created: "consumer_life A spec dc s0 (newConsumer, s0)"
| lives: "consumer_life A spec dc s0 (c, s) \<Longrightarrow> consumer_step A spec dc (c, s) (c1, s1) \<Longrightarrow>
    consumer_life A spec dc s0 (c1, s1)"

context channel_api
begin

lemma step_live:
  assumes decl: "\<And>ch q. adds live ch none_held (dc ch q)" and st: "consumer_step A spec dc (c, s) (c1, s1)"
  shows "live s1 - holding c1 = live s - holding c"
  using st
proof cases
  case (restored bindings tag m1 m2 e)
  then show ?thesis by (rule restore_consumer_live [OF decl])
next
  case (bound b key r)
  then show ?thesis
    using leavesD [OF bind_leaves, where s = s]
    by (cases "cm_ch c"; cases r) (auto simp: bind_consumer_def holding_def split: if_splits)
next
  case (stopped b)
  then show ?thesis by (rule stop_live)
next
  case (closed b)
  then show ?thesis by (rule close_live)
qed (simp_all add: holding_def)

lemma life_live:
  assumes decl: "\<And>ch q. adds live ch none_held (dc ch q)" and "consumer_life A spec dc s0 (c, s)"
  shows "live s - holding c = live s0 \<and> (cm_closed c \<longrightarrow> holding c = {})"
  using assms(2)
proof (induction "(c, s)" arbitrary: c s)
  case created
  then show ?case by (simp add: newConsumer_def holding_def)
next
  case (lives c s c1 s1)
  have "cm_closed c \<Longrightarrow> cm_ch c = None" using lives.hyps(2) by (simp add: holding_def)
  from closed_holds_nothing [OF lives.hyps(3) this] step_live [OF decl lives.hyps(3)] lives.hyps(2)
  show ?case by (simp add: holding_def)
qed

lemma cancel_listener_live:
  assumes "restore_cancel_listener A cfg old s = (l, s1)"
  shows "(l = old \<and> live s1 = live s) \<or> (\<exists>ch. l = Some ch \<and> ch \<notin> live s \<and> live s1 = insert ch (live s))"
  using assms buildsD [OF start_cancel_builds, where s = s]
  by (cases "start_cancel_listener A cfg s"; cases "fst (start_cancel_listener A cfg s)")
     (fastforce simp: restore_cancel_listener_def)+

end

text \<open>
  C12. Restoring the topology leaks no channel, whichever call the broker fails and whatever
  the application does between the critical sections. For a service's request consumer or
  an event consumer, after any sequence of starts, restores, stops, closes and bindings,
  the open channels are those from before the consumer existed and at most the one it
  holds, and once it is closed it holds none; the dispatcher opens its two channels or
  none; the event publisher and the cancel listener open the one they keep or none.
\<close>

theorem restores_leak_no_channel:
  fixes E :: env and code :: "err \<Rightarrow> nat option" and sv :: "('m, 'w) Service"
  defines "A \<equiv> env_api code E"
  assumes "consumer_life A spec dc s0 (c, s)"
    and "dc = request_declare A sv \<or> dc = event_declare A queue retry"
  shows "live_channels s - holding c = live_channels s0 \<and> (cm_closed c \<longrightarrow> holding c = {}) \<and>
    (case restore_dispatcher A cfg cl cl2 h of
       (Inr (Some (ch, pub, q)), h1) \<Rightarrow> live_channels h1 = insert ch (insert pub (live_channels h))
     | (_, h1) \<Rightarrow> live_channels h1 = live_channels h) \<and>
    (case restore_publisher A cfg old h of
       (e, pub, h1) \<Rightarrow> live_channels h1 - set_option pub = live_channels h - set_option old) \<and>
    (case restore_cancel_listener A cfg old h of
       (l, h1) \<Rightarrow> (l = old \<and> live_channels h1 = live_channels h) \<or>
                  (\<exists>ch. l = Some ch \<and> ch \<notin> live_channels h \<and> live_channels h1 = insert ch (live_channels h)))"
proof -
  have decl: "adds live_channels ch none_held (dc ch q)" for ch q
    using assms(3) unfolding A_def by (auto simp: amqp_env.request_declare_adds amqp_env.event_declare_adds)
  note life = amqp_env.life_live [where code = code and E = E, folded A_def, OF decl assms(2)]
  obtain r h1 where "restore_dispatcher A cfg cl cl2 h = (r, h1)" by force
  with amqp_env.restore_dispatcher_live [where code = code and E = E, folded A_def, OF this]
  have disp: "case restore_dispatcher A cfg cl cl2 h of
       (Inr (Some (ch, pub, q)), h1) \<Rightarrow> live_channels h1 = insert ch (insert pub (live_channels h))
     | (_, h1) \<Rightarrow> live_channels h1 = live_channels h"
    by (auto split: sum.splits option.splits)
  from life disp show ?thesis
    using amqp_env.restore_publisher_live [where code = code and E = E, folded A_def]
      amqp_env.cancel_listener_live [where code = code and E = E, folded A_def]
    by (auto split: prod.split)
qed


definition demo_restore :: "err option \<times> consumer_state \<times> history" where
  "demo_restore =
     (let A = env_api (\<lambda>_. None) reliable in
      restore_consumer A (requestSpec (cd_lib demo_codec) demo_service) (request_bindings demo_service)
        (request_declare A demo_service) ''ctag-1'' Quiet Quiet newConsumer [])"

lemma demo_restore_holds: "cm_ch (fst (snd demo_restore)) = Some 0"
  by code_simp

theorem restores_leak_no_channel_witness:
  "cm_ch (fst (snd demo_restore)) = Some 0 \<and> live_channels (snd (snd demo_restore)) - {0} = {}"
proof -
  let ?A = "env_api (\<lambda>_. None) reliable"
  have "consumer_life ?A (requestSpec (cd_lib demo_codec) demo_service) (request_declare ?A demo_service) []
      (fst (snd demo_restore), snd (snd demo_restore))"
    by (rule consumer_life.lives [OF consumer_life.created],
        rule consumer_step.restored [where e = "fst demo_restore" and bindings = "request_bindings demo_service"
          and tag = "''ctag-1''" and ?m1.0 = Quiet and ?m2.0 = Quiet])
       (simp add: demo_restore_def Let_def)
  from restores_leak_no_channel [OF this disjI1 [OF refl]] show ?thesis
    using demo_restore_holds by (simp add: holding_def live_channels_def)
qed

end
