(* ===== verification/Routes.thy ===== *)
theory Routes imports Topology BrokerInv begin

text \<open>
  The topology of theory \<open>Topology\<close> on the in-memory broker of theory \<open>Broker\<close>: what a consumer
  has declared when \<open>restoreTopology\<close> succeeds, as an abstract change of exchanges, queues and
  bindings, and where the broker then routes requests, retries and events.
\<close>

section \<open>The broker behind the transport interface\<close>

text \<open>
  \<open>enc\<close> is an \<open>*amqp.Error\<close> as an error value and \<open>code\<close> reads its code. Exchanges are durable,
  not auto-deleted and not internal, as \<open>declareTopic\<close> and its siblings ask.
\<close>

definition lift_call :: "(amqp_error \<Rightarrow> err) \<Rightarrow> amqp_error option \<times> broker \<Rightarrow> (err, unit) result \<times> broker" where
  "lift_call enc = apfst (\<lambda>r. case r of None \<Rightarrow> Inr () | Some e \<Rightarrow> Inl (enc e))"

definition broker_api :: "(amqp_error \<Rightarrow> err) \<Rightarrow> (err \<Rightarrow> nat option) \<Rightarrow> nat \<Rightarrow> broker amqp_api" where
  "broker_api enc code c =
     \<lparr>ap_open = \<lambda>b. apfst (map_sum enc id) (Channel c b),
      ap_confirm = \<lambda>k b. lift_call enc (Confirm_mode k b),
      ap_qos = \<lambda>k n b. lift_call enc (BrokerChannel.Qos k n b),
      ap_exchange = \<lambda>k x kind b. lift_call enc (BrokerChannel.ExchangeDeclare k x kind True False False b),
      ap_queue = \<lambda>k q du au ex args b. apfst (map_sum enc fst) (BrokerChannel.QueueDeclare k q du au ex args b),
      ap_bind = \<lambda>k q key x b. lift_call enc (BrokerChannel.QueueBind k q key x b),
      ap_consume = \<lambda>k q tag au ex b. apfst (map_sum enc (\<lambda>_. ())) (BrokerChannel.Consume k q tag au ex b),
      ap_cancel = \<lambda>k tag b. lift_call enc (Cancel k tag b),
      ap_close = \<lambda>k b. snd (ch_Close k b),
      ap_code = code\<rparr>"

section \<open>Topologies\<close>

text \<open>
  The abstract state: kinds of exchanges, arguments of queues, bindings of exchanges. A
  queue that exists keeps its arguments, which a second declaration must be equivalent to.
\<close>

record topology =
  tp_exchanges :: "string \<rightharpoonup> string"
  tp_queues :: "string \<rightharpoonup> table"
  tp_bindings :: "string \<Rightarrow> (string \<times> string) set"

definition put_exchange :: "string \<Rightarrow> string \<Rightarrow> topology \<Rightarrow> topology" where
  "put_exchange x kind t = t\<lparr>tp_exchanges := (tp_exchanges t)(x \<mapsto> kind)\<rparr>"

definition put_queue :: "string \<Rightarrow> table \<Rightarrow> topology \<Rightarrow> topology" where
  "put_queue q args t =
     (if tp_queues t q = None then t\<lparr>tp_queues := (tp_queues t)(q \<mapsto> args)\<rparr> else t)"

definition put_binding :: "string \<Rightarrow> string \<Rightarrow> string \<Rightarrow> topology \<Rightarrow> topology" where
  "put_binding x q key t = t\<lparr>tp_bindings := (tp_bindings t)(x := insert (q, key) (tp_bindings t x))\<rparr>"

definition retry_topology :: "retrySpec \<Rightarrow> duration \<Rightarrow> string \<Rightarrow> topology \<Rightarrow> topology" where
  "retry_topology rs delay deadLetterTo t =
     put_binding (rs_exchange rs) (rs_queue rs) ''#''
       (put_exchange (rs_exchange rs) ''topic''
         (put_queue (rs_queue rs) [(''x-message-ttl'', intHeader (Milliseconds delay)), (''x-dead-letter-exchange'', VString deadLetterTo)]
           (put_queue (rs_dlq rs) [] t)))"

definition consumer_topology :: "consumerSpec \<Rightarrow> string list \<Rightarrow> (string \<Rightarrow> topology \<Rightarrow> topology) \<Rightarrow> string \<Rightarrow> topology \<Rightarrow> topology" where
  "consumer_topology spec bindings extra q t =
     extra q (fold (\<lambda>key. put_binding (cs_exchange spec) q key) bindings
       (put_queue q (cs_queueArgs spec) (put_exchange (cs_exchange spec) ''topic'' t)))"

definition request_topology :: "('m, 'w) Service \<Rightarrow> string \<Rightarrow> topology \<Rightarrow> topology" where
  "request_topology s q =
     (case request_retry s of None \<Rightarrow> id
      | Some rs \<Rightarrow> retry_topology rs (rt_Delay (sp_retry (sv_opts s))) (cf_BusExchange (sv_cfg s)))"

definition event_topology :: "string \<Rightarrow> EventRetryPolicy \<Rightarrow> string \<Rightarrow> topology \<Rightarrow> topology" where
  "event_topology queue retry q t =
     (case event_retry queue retry of None \<Rightarrow> t
      | Some rs \<Rightarrow> retry_topology rs (er_Delay retry) (redelivery queue)
          (put_binding (redelivery queue) q ''#'' (put_exchange (redelivery queue) ''topic'' t)))"

text \<open>The retry queue exists, with arguments equivalent to those asked for.\<close>

definition retry_declared :: "topology \<Rightarrow> retrySpec option \<Rightarrow> duration \<Rightarrow> string \<Rightarrow> bool" where
  "retry_declared t p delay x \<longleftrightarrow>
     (\<forall>rs. p = Some rs \<longrightarrow>
        (\<exists>args. tp_queues t (rs_queue rs) = Some args \<and>
           argsEquivalent args [(''x-message-ttl'', intHeader (Milliseconds delay)), (''x-dead-letter-exchange'', VString x)]))"

section \<open>The declarations on any broker\<close>


lemma io_bind_success: "io_bind m f s = (Inr b, s2) \<longleftrightarrow> (\<exists>a s1. m s = (Inr a, s1) \<and> f a s1 = (Inr b, s2))"
  by (auto simp: io_bind_def split: prod.splits sum.splits)

lemma io_pass_success:
  "io_wrap g m s = (Inr b, s2) \<longleftrightarrow> m s = (Inr b, s2)"
  "on_failure h m s = (Inr b, s2) \<longleftrightarrow> m s = (Inr b, s2)"
  "io_return a s = (Inr b, s2) \<longleftrightarrow> a = b \<and> s2 = s"
  by (cases "m s"; cases "fst (m s)"; auto simp: io_wrap_def on_failure_def io_return_def)+

lemmas io_success = io_bind_success io_pass_success

text \<open>
  What the broker promises a client: a call that succeeds changes the topology as asked and
  nothing else. \<open>wf\<close> is an invariant of the broker's states.
\<close>

locale topology_api =
  fixes A :: "'s amqp_api" and wf :: "'s \<Rightarrow> bool" and topo :: "'s \<Rightarrow> topology"
  assumes open_topo: "wf s \<Longrightarrow> ap_open A s = (Inr ch, s1) \<Longrightarrow> wf s1 \<and> topo s1 = topo s"
    and confirm_topo: "wf s \<Longrightarrow> ap_confirm A ch s = (Inr u, s1) \<Longrightarrow> wf s1 \<and> topo s1 = topo s"
    and qos_topo: "wf s \<Longrightarrow> ap_qos A ch n s = (Inr u, s1) \<Longrightarrow> wf s1 \<and> topo s1 = topo s"
    and exchange_topo: "wf s \<Longrightarrow> ap_exchange A ch x kind s = (Inr u, s1) \<Longrightarrow> wf s1 \<and> topo s1 = put_exchange x kind (topo s)"
    and queue_topo: "wf s \<Longrightarrow> distinct (map fst args) \<Longrightarrow> ap_queue A ch q du au ex args s = (Inr r, s1) \<Longrightarrow>
      wf s1 \<and> topo s1 = put_queue r args (topo s) \<and> (q \<noteq> '''' \<longrightarrow> r = q)"
    and queue_args: "wf s \<Longrightarrow> distinct (map fst args) \<Longrightarrow> ap_queue A ch q du au ex args s = (Inr r, s1) \<Longrightarrow>
      \<exists>args1. tp_queues (topo s1) r = Some args1 \<and> argsEquivalent args1 args"
    and bind_topo: "wf s \<Longrightarrow> ap_bind A ch q key x s = (Inr u, s1) \<Longrightarrow> wf s1 \<and> topo s1 = put_binding x q key (topo s)"
begin


lemma retry_declares:
  assumes "wf s" "declareRetryTopology A ch rs delay x s = (Inr u, s1)" "rs_queue rs \<noteq> ''''" "rs_dlq rs \<noteq> ''''"
  shows "wf s1 \<and> topo s1 = retry_topology rs delay x (topo s) \<and> retry_declared (topo s1) (Some rs) delay x"
proof -
  let ?args = "[(''x-message-ttl'', intHeader (Milliseconds delay)), (''x-dead-letter-exchange'', VString x)]"
  obtain r2 r3 t2 t3 t4 where
    1: "ap_queue A ch (rs_dlq rs) True False False [] s = (Inr r2, t2)" and
    2: "ap_queue A ch (rs_queue rs) True False False ?args t2 = (Inr r3, t3)" and
    3: "ap_exchange A ch (rs_exchange rs) ''topic'' t3 = (Inr (), t4)" and
    4: "ap_bind A ch (rs_queue rs) ''#'' (rs_exchange rs) t4 = (Inr (), s1)"
    using assms(2) by (auto simp: declareRetryTopology_def io_success)
  from queue_topo [OF assms(1) _ 1] assms(4) have s2: "wf t2" "topo t2 = put_queue (rs_dlq rs) [] (topo s)" by auto
  from queue_topo [OF s2(1) _ 2] assms(3) have s3: "wf t3" "topo t3 = put_queue (rs_queue rs) ?args (topo t2)" "r3 = rs_queue rs" by auto
  from exchange_topo [OF s3(1) 3] have s4: "wf t4" "topo t4 = put_exchange (rs_exchange rs) ''topic'' (topo t3)" by auto
  from bind_topo [OF s4(1) 4] have s5: "wf s1" "topo s1 = put_binding (rs_exchange rs) (rs_queue rs) ''#'' (topo t4)" by auto
  from queue_args [OF s2(1) _ 2] s2 s3 s4 s5 show ?thesis
    by (auto simp: retry_topology_def put_binding_def put_exchange_def retry_declared_def)
qed

lemma request_declares:
  assumes "wf t" "request_declare A sv ch q t = (Inr (), t1)"
  shows "wf t1 \<and> topo t1 = request_topology sv q (topo t) \<and>
    retry_declared (topo t1) (request_retry sv) (rt_Delay (sp_retry (sv_opts sv))) (cf_BusExchange (sv_cfg sv))"
proof (cases "request_retry sv")
  case None
  with assms show ?thesis by (simp add: request_declare_def request_topology_def io_success retry_declared_def)
next
  case (Some rs)
  then have names: "rs_queue rs \<noteq> ''''" "rs_dlq rs \<noteq> ''''" by (auto simp: request_retry_def split: if_splits)
  have "declareRetryTopology A ch rs (rt_Delay (sp_retry (sv_opts sv))) (cf_BusExchange (sv_cfg sv)) t = (Inr (), t1)"
    using assms(2) Some by (simp add: request_declare_def)
  from retry_declares [OF assms(1) this names] Some show ?thesis by (auto simp: request_topology_def)
qed

lemma event_declares:
  assumes "wf t" "event_declare A queue retry ch q t = (Inr (), t1)"
  shows "wf t1 \<and> topo t1 = event_topology queue retry q (topo t) \<and>
    retry_declared (topo t1) (event_retry queue retry) (er_Delay retry) (redelivery queue)"
proof (cases "event_retry queue retry")
  case None
  with assms show ?thesis by (simp add: event_declare_def event_topology_def io_success retry_declared_def)
next
  case (Some rs)
  then have names: "rs_queue rs \<noteq> ''''" "rs_dlq rs \<noteq> ''''" by (auto simp: event_retry_def split: if_splits)
  obtain t2 t3 where 1: "ap_exchange A ch (redelivery queue) ''topic'' t = (Inr (), t2)"
    and 2: "ap_bind A ch q ''#'' (redelivery queue) t2 = (Inr (), t3)"
    and 3: "declareRetryTopology A ch rs (er_Delay retry) (redelivery queue) t3 = (Inr (), t1)"
    using assms(2) Some by (auto simp: event_declare_def io_success)
  from exchange_topo [OF assms(1) 1] have t2: "wf t2" "topo t2 = put_exchange (redelivery queue) ''topic'' (topo t)" by auto
  from bind_topo [OF t2(1) 2] have t3: "wf t3" "topo t3 = put_binding (redelivery queue) q ''#'' (topo t2)" by auto
  from retry_declares [OF t3(1) 3 names] Some t2 t3 show ?thesis by (auto simp: event_topology_def)
qed

lemma bindings_declare:
  "wf s \<Longrightarrow> io_each (\<lambda>key. io_wrap (f key) (ap_bind A ch q key x)) keys s = (Inr u, s1) \<Longrightarrow>
   wf s1 \<and> topo s1 = fold (\<lambda>key. put_binding x q key) keys (topo s)"
proof (induction keys arbitrary: s)
  case (Cons key keys)
  then obtain s2 where "ap_bind A ch q key x s = (Inr (), s2)"
    "io_each (\<lambda>key. io_wrap (f key) (ap_bind A ch q key x)) keys s2 = (Inr u, s1)"
    by (auto simp: io_success)
  with bind_topo [OF Cons.prems(1) this(1)] Cons.IH [of s2] show ?case by simp
qed (simp add: io_success)

lemma consumer_declares:
  assumes "wf s" "distinct (map fst (cs_queueArgs spec))" "declare_consumer A spec bindings dc s = (Inr (ch, q), s1)"
    and extra: "\<And>t t1. wf t \<Longrightarrow> dc ch q t = (Inr (), t1) \<Longrightarrow> wf t1 \<and> topo t1 = extra q (topo t) \<and> P t1"
  shows "wf s1 \<and> topo s1 = consumer_topology spec bindings extra q (topo s) \<and> (cs_queue spec \<noteq> '''' \<longrightarrow> q = cs_queue spec) \<and> P s1"
proof -
  let ?an = "cs_queue spec = ''''"
  obtain t1 t2 t3 t4 t5 t6 where
    1: "ap_open A s = (Inr ch, t1)" and 2: "ap_confirm A ch t1 = (Inr (), t2)" and
    3: "ap_qos A ch (cs_prefetch spec) t2 = (Inr (), t3)" and
    4: "ap_exchange A ch (cs_exchange spec) ''topic'' t3 = (Inr (), t4)" and
    5: "ap_queue A ch (cs_queue spec) (\<not> ?an) ?an ?an (cs_queueArgs spec) t4 = (Inr q, t5)" and
    6: "io_each (\<lambda>key. io_wrap (wrapping (''binding '' @ q @ '' to '' @ key)) (ap_bind A ch q key (cs_exchange spec))) bindings t5 = (Inr (), t6)" and
    7: "dc ch q t6 = (Inr (), s1)"
    using assms(3) by (auto simp: declare_consumer_def open_pub_def io_success Let_def)
  from open_topo [OF assms(1) 1] confirm_topo [OF _ 2] qos_topo [OF _ 3] have t3: "wf t3" "topo t3 = topo s" by auto
  from exchange_topo [OF t3(1) 4] t3 have t4: "wf t4" "topo t4 = put_exchange (cs_exchange spec) ''topic'' (topo s)" by auto
  from queue_topo [OF t4(1) assms(2) 5] have t5: "wf t5" "topo t5 = put_queue q (cs_queueArgs spec) (topo t4)" "\<not> ?an \<longrightarrow> q = cs_queue spec" by auto
  from bindings_declare [OF t5(1) 6] have t6: "wf t6" "topo t6 = fold (\<lambda>key. put_binding (cs_exchange spec) q key) bindings (topo t5)" by auto
  from extra [OF t6(1) 7] t4(2) t5 t6(2) show ?thesis by (simp add: consumer_topology_def)
qed

lemma request_consumer_declares:
  assumes "wf s" "declare_consumer A (requestSpec L sv) (request_bindings sv) (request_declare A sv) s = (Inr (ch, q), s1)" "sv_name sv \<noteq> ''''"
  shows "wf s1 \<and> topo s1 = consumer_topology (requestSpec L sv) (request_bindings sv) (request_topology sv) q (topo s) \<and> q = sv_name sv \<and>
    retry_declared (topo s1) (request_retry sv) (rt_Delay (sp_retry (sv_opts sv))) (cf_BusExchange (sv_cfg sv))"
proof -
  have spec: "distinct (map fst (cs_queueArgs (requestSpec L sv)))" "cs_queue (requestSpec L sv) = sv_name sv"
    by (simp_all add: requestSpec_def Let_def request_queue_args_def split: option.split)
  from consumer_declares [where extra = "request_topology sv" and
      P = "\<lambda>t. retry_declared (topo t) (request_retry sv) (rt_Delay (sp_retry (sv_opts sv))) (cf_BusExchange (sv_cfg sv))",
      OF assms(1) spec(1) assms(2) request_declares [where ch = ch]] assms(3) spec(2)
  show ?thesis by auto
qed

lemma event_consumer_declares:
  assumes "wf s" "declare_consumer A (eventSpec cfg queue n retry) patterns (event_declare A queue retry) s = (Inr (ch, q), s1)"
  shows "wf s1 \<and> topo s1 = consumer_topology (eventSpec cfg queue n retry) patterns (event_topology queue retry) q (topo s) \<and>
    (queue \<noteq> '''' \<longrightarrow> q = queue) \<and>
    retry_declared (topo s1) (event_retry queue retry) (er_Delay retry) (redelivery queue)"
proof -
  have spec: "distinct (map fst (cs_queueArgs (eventSpec cfg queue n retry)))" "cs_queue (eventSpec cfg queue n retry) = queue"
    by (simp_all add: eventSpec_def)
  from consumer_declares [where extra = "event_topology queue retry" and
      P = "\<lambda>t. retry_declared (topo t) (event_retry queue retry) (er_Delay retry) (redelivery queue)",
      OF assms(1) spec(1) assms(2) event_declares [where ch = ch]] spec(2)
  show ?thesis by auto
qed

end

section \<open>The in-memory broker keeps the contract\<close>

text \<open>
  The invariant: registered queues have an address in use, and the dead-letter settings of a
  queue are those of its arguments. \<open>stable\<close> is what every operation but the creation of a
  queue keeps.
\<close>

definition qargs :: "queue \<Rightarrow> table \<times> int \<times> string option \<times> string option" where
  "qargs q = (q_args q, q_ttl q, q_dlx q, q_dlxKey q)"

definition ttl_arg :: "table \<Rightarrow> int" where
  "ttl_arg args = (case ranged_arg args ''x-message-ttl'' (\<lambda>n. 0 \<le> n) of Some (Some n) \<Rightarrow> msDuration n | _ \<Rightarrow> 0)"

definition args_ok :: "queue \<Rightarrow> bool" where
  "args_ok q \<longleftrightarrow>
     distinct (map fst (q_args q)) \<and> q_ttl q = ttl_arg (q_args q) \<and>
     q_dlx q = string_arg (q_args q) ''x-dead-letter-exchange'' \<and>
     q_dlxKey q = string_arg (q_args q) ''x-dead-letter-routing-key''"

definition stable :: "broker \<Rightarrow> broker \<Rightarrow> bool" where
  "stable b b1 \<longleftrightarrow>
     (\<forall>qi. qargs (b_q b1 qi) = qargs (b_q b qi)) \<and> set (b_queues b1) \<subseteq> set (b_queues b) \<and> b_fresh b \<le> b_fresh b1"

definition args_wf :: "broker \<Rightarrow> bool" where
  "args_wf b \<longleftrightarrow>
     (\<forall>(n, qi) \<in> set (b_queues b). qi < b_fresh b) \<and>
     (\<forall>qi. args_ok (b_q b qi))"

lemma stable_refl [simp]: "stable b b"
  by (simp add: stable_def)

lemma stable_trans: "stable a b \<Longrightarrow> stable b c \<Longrightarrow> stable a c"
  by (auto simp: stable_def)

lemma stable_fold: "(\<And>x s. stable s (f x s)) \<Longrightarrow> stable b (fold f xs b)"
  by (rule fold_keeps [where P = "stable b"]) (auto intro: stable_trans)

lemma args_wf_stable: "args_wf b \<Longrightarrow> stable b b1 \<Longrightarrow> args_wf b1"
  unfolding args_wf_def stable_def qargs_def args_ok_def by fastforce

lemma stable_on_q: "(\<And>q. qargs (f q) = qargs q) \<Longrightarrow> stable b (on_q qi f b)"
  by (simp add: stable_def)

lemma stable_store [simp]:
  "stable b (on_ch k f b)" "stable b (on_cs k g b)" "stable b (on_cn k h b)" "stable b (log_op e b)"
  "stable b (b\<lparr>b_fresh := b_fresh b + 1\<rparr>)"
  by (simp_all add: stable_def)

lemma stable_dispatch: "stable b (dispatch qi b)"
proof (rule dispatch_keeps [where P = "stable b"])
  fix i s assume "stable b s"
  moreover have "stable s (dispatch_one qi i s)"
    by (simp add: stable_def dispatch_one_def deliver_def Let_def qargs_def)
  ultimately show "stable b (dispatch_one qi i s)" by (rule stable_trans)
qed simp

lemma stable_enqueue: "stable b (enqueue qi m front b)"
  unfolding enqueue_def Let_def by (auto intro!: stable_trans [OF stable_on_q stable_dispatch] simp: qargs_def)

lemma stable_route: "stable b (snd (route x key msg b))"
  unfolding route_def Let_def snd_conv enqueue_new_def
  by (rule stable_fold) (rule stable_trans [OF stable_store(5) stable_enqueue])

lemma stable_deadLetter: "stable b (deadLetter qi m reason now b)"
  by (simp add: deadLetter_def Let_def stable_route split: option.split)

lemma stable_expire: "stable b (expire qi ptr now b)"
  by (auto simp: expire_def Let_def qargs_def split: option.split
      intro!: stable_trans [OF stable_on_q stable_trans [OF stable_store(4) stable_deadLetter]])

lemma stable_cancel_consumer: "stable b (cancel_consumer ci b)" "stable b (drop_consumer ci b)"
  by (auto simp: cancel_consumer_def drop_consumer_def Let_def stable_def qargs_def)

lemma stable_deleteQueue: "stable b (deleteQueue qi b)"
proof -
  let ?b1 = "on_q qi (\<lambda>q. q\<lparr>q_deleted := True, q_msgs := []\<rparr>) b"
  have "stable b (?b1\<lparr>b_exchanges := xs\<rparr>)" for xs by (simp add: stable_def qargs_def)
  then have "stable b (fold cancel_consumer cs (?b1\<lparr>b_exchanges := xs\<rparr>))" for cs xs
    by (rule stable_trans) (rule stable_fold, rule stable_cancel_consumer)
  then show ?thesis unfolding deleteQueue_def Let_def by (rule stable_trans) (auto simp: stable_def)
qed

lemma stable_removeConsumer: "stable b (removeConsumer ci b)"
  using stable_trans [OF stable_cancel_consumer(2) stable_deleteQueue] stable_cancel_consumer(2)
  by (simp add: removeConsumer_def Let_def)

lemma stable_ch_shutdown: "stable b (ch_shutdown k e b)"
proof -
  have r: "stable s (fold requeue_inflight us s)" for us s
    unfolding requeue_inflight_def by (rule stable_fold) (auto simp: stable_enqueue split: prod.split)
  have c: "stable s (fold removeConsumer cs s)" for cs s by (rule stable_fold) (rule stable_removeConsumer)
  show ?thesis unfolding ch_shutdown_def Let_def
    by (simp, intro impI stable_trans [OF stable_store(1) stable_trans [OF c stable_trans [OF r
          stable_trans [OF stable_store(1) stable_store(3)]]]])
qed

lemma stable_cn_shutdown: "stable b (cn_shutdown c e b)"
proof -
  let ?f = "\<lambda>(name :: string, qi) b. if q_exclusv (b_q b qi) \<and> q_owner (b_q b qi) = Some c then deleteQueue qi b else b"
  have s: "stable s (fold (\<lambda>k. ch_shutdown k e) ks s)" for ks s by (rule stable_fold) (rule stable_ch_shutdown)
  have f: "stable s (fold ?f qs s)" for qs s by (rule stable_fold) (auto simp: stable_deleteQueue)
  have u: "stable s (s\<lparr>b_conns := cs\<rparr>)" for s cs by (simp add: stable_def)
  show ?thesis unfolding cn_shutdown_def Let_def
    by (simp, intro impI stable_trans [OF stable_store(3) stable_trans [OF s stable_trans [OF f
          stable_trans [OF u stable_store(3)]]]])
qed

lemma stable_Restart: "stable b (Restart b)"
proof -
  have k: "stable s (KillConnections s)" for s
    unfolding KillConnections_def by (rule stable_fold) (rule stable_cn_shutdown)
  let ?f = "\<lambda>(name :: string, qi) b. if \<not> q_durable (b_q b qi) then deleteQueue qi b
    else on_q qi (\<lambda>q. q\<lparr>q_msgs := filter (\<lambda>m. p_DeliveryMode (m_pub m) = 2) (q_msgs q)\<rparr>) b"
  have f: "stable s (fold ?f qs s)" for qs s
    by (rule stable_fold) (auto simp: stable_deleteQueue qargs_def intro!: stable_on_q)
  have u: "stable s (s\<lparr>b_exchanges := xs\<rparr>)" for s xs by (simp add: stable_def)
  show ?thesis unfolding Restart_def Let_def by (intro stable_trans [OF k stable_trans [OF f u]])
qed


lemma stable_settle: "stable b (snd (settle k kind n multiple requeue now b))"
proof -
  have one: "stable s (settle_one k kind requeue now ti s)" for ti s
  proof -
    obtain t i where ti: "ti = (t, i)" by force
    have b: "stable s (log_op e (on_cs (if_cons i) f (on_ch k g s)))" for e f g by (simp add: stable_def)
    show ?thesis unfolding ti settle_one_def Let_def prod.case
      by (auto intro: stable_trans [OF b stable_enqueue] stable_trans [OF b stable_deadLetter] b)
  qed
  have d: "stable s (fold dispatch qs s)" for qs s by (rule stable_fold) (rule stable_dispatch)
  show ?thesis unfolding settle_def Let_def
    by (auto simp: stable_ch_shutdown intro: stable_trans [OF stable_fold [OF one] d])
qed

lemma stable_publish: "stable b (snd (PublishWithContext ctxErr k x key mandatory msg b))" "stable b (snd (Publish x key msg b))"
proof -
  have e: "stable s (ch_emit k es s)" for s es by (simp add: ch_emit_def)
  have a: "stable s (publish_accepted k tag action p s)" for s tag action p
  proof -
    obtain r b1 where r: "route (pd_Exchange p) (pd_Key p) (pd_Msg p) s = (r, b1)" by force
    have b1: "stable s b1" using stable_route [of s "pd_Exchange p" "pd_Key p" "pd_Msg p"] r by simp
    then have l: "stable s (log_op x b1)" for x by (rule stable_trans) simp
    have u: "stable t (t\<lparr>b_delayed := xs\<rparr>)" for t xs by (simp add: stable_def)
    from b1 l show ?thesis
      by (auto simp: publish_accepted_def Let_def r intro: stable_trans [OF _ stable_store(1)] stable_trans [OF _ e]
          stable_trans [OF _ stable_trans [OF e u]])
  qed
  have log: "stable b (log_op y (on_ch k f b))" "stable b (log_op y b)" for y f by (simp_all add: stable_def)
  then show "stable b (snd (PublishWithContext ctxErr k x key mandatory msg b))"
    unfolding PublishWithContext_def Let_def
    by (auto split: ConfirmAction.split intro: stable_trans [OF _ stable_ch_shutdown] stable_trans [OF _ e] stable_trans [OF _ a])
  show "stable b (snd (Publish x key msg b))"
    by (auto simp: Publish_def intro: stable_trans [OF log(2) stable_route])
qed

lemma args_wf_add_queue:
  assumes "args_wf b" "args_ok q"
  shows "args_wf (add_queue q b)"
  using assms by (fastforce simp: args_wf_def add_queue_def)

lemma args_wf_QueueDeclare: "args_wf b \<Longrightarrow> distinct (map fst args) \<Longrightarrow> args_wf (snd (QueueDeclare k name du au ex args b))"
proof -
  assume wf: "args_wf b" and dist: "distinct (map fst args)"
  define b1 where "b1 = (if name = '''' then b\<lparr>b_nameSeq := b_nameSeq b + 1\<rparr> else b)"
  define n1 where "n1 = (if name = '''' then ''amq.gen-'' @ pad6 (b_nameSeq b1) else name)"
  have b1: "args_wf b1" unfolding b1_def by (rule args_wf_stable [OF wf]) (simp add: stable_def)
  then have s: "args_wf (ch_shutdown k e b1)" for e by (rule args_wf_stable) (rule stable_ch_shutdown)
  show ?thesis
    unfolding QueueDeclare_def Let_def b1_def [symmetric] n1_def [symmetric]
    using wf b1 s dist by (auto intro!: args_wf_add_queue simp: args_ok_def ttl_arg_def split: option.split)
qed

lemma stable_Consume: "stable b (snd (Consume k name tag autoAck exclusive b))"
proof -
  have a: "stable s (add_consumer tag1 k qi autoAck exclusive s)" for s tag1 qi
    by (simp add: add_consumer_def Let_def stable_def qargs_def)
  have s: "stable b (ch_shutdown k e (on_ch k f b))" for e f by (rule stable_trans [OF stable_store(1) stable_ch_shutdown])
  have d: "stable b (dispatch qi (add_consumer tag1 k qi autoAck exclusive (on_ch k f b)))" for qi tag1 f
    by (rule stable_trans [OF stable_store(1) stable_trans [OF a stable_dispatch]])
  show ?thesis unfolding Consume_def Let_def
    by (simp add: stable_ch_shutdown s d stable_trans [OF a stable_dispatch] split: option.split)
qed

lemma stable_connections:
  "stable b (snd (Dial ctxErr b))" "stable b (snd (open_conn b))" "stable b (snd (Channel c b))"
  "stable b (snd (conn_Close c b))" "stable b (KillConnections b)"
proof -
  show "stable b (snd (Dial ctxErr b))" "stable b (snd (open_conn b))" "stable b (snd (Channel c b))"
    by (auto simp: Dial_def open_conn_def Channel_def stable_def Let_def split: option.split)
  show "stable b (snd (conn_Close c b))" "stable b (KillConnections b)"
    by (auto simp: conn_Close_def KillConnections_def stable_cn_shutdown intro!: stable_fold)
qed

lemma stable_methods:
  "stable b (snd (Confirm_mode k b))" "stable b (snd (Qos k n b))" "stable b (snd (ch_Close k b))"
  "stable b (snd (ExchangeDeclare k name kind du au intern b))" "stable b (snd (QueueBind k name key x b))"
  "stable b (snd (Cancel k tag b))" "stable b (DeleteQueue name b)"
proof -
  have x: "stable s (s\<lparr>b_exchanges := xs\<rparr>)" for s xs by (simp add: stable_def)
  show "stable b (snd (Confirm_mode k b))" "stable b (snd (Qos k n b))" "stable b (snd (ch_Close k b))"
    "stable b (snd (ExchangeDeclare k name kind du au intern b))" "stable b (snd (QueueBind k name key x b))"
    "stable b (snd (Cancel k tag b))" "stable b (DeleteQueue name b)"
    by (simp_all add: Confirm_mode_def Qos_def ch_Close_def ExchangeDeclare_def QueueBind_def Cancel_def DeleteQueue_def
        ch_fail_def stable_ch_shutdown stable_removeConsumer stable_deleteQueue x split: option.split)
qed

lemma stable_confirms: "stable b (confirm_due k tag b)" "stable b (snd (ReleaseHeld b))"
proof -
  show "stable b (confirm_due k tag b)" by (simp add: confirm_due_def Let_def ch_emit_def stable_def)
  have "stable b (fold release_channel ks b)" for ks by (rule stable_fold) (simp add: release_channel_def)
  then show "stable b (snd (ReleaseHeld b))" by (simp add: ReleaseHeld_def Let_def)
qed

lemma stable_faults: "stable b (SetDialFault e b)" "stable b (SetConfirmPolicy p b)" "stable b (SetConfirmDelay d b)"
  by (simp_all add: SetDialFault_def SetConfirmPolicy_def SetConfirmDelay_def stable_def)

lemma args_wf_step: "bstep b b1 \<Longrightarrow> args_wf b \<Longrightarrow> args_wf b1"
proof (induction rule: bstep.induct)
  case (b_queue b k name durable autoDelete exclusive args)
  then show ?case by (simp add: args_wf_QueueDeclare)
qed (erule args_wf_stable, simp add: stable_connections stable_Restart stable_methods stable_publish stable_confirms
      stable_settle stable_expire stable_Consume stable_faults)+

lemma args_wf_reachable: "breachable b \<Longrightarrow> args_wf b"
proof (induction rule: breachable.induct)
  case b_init
  then show ?case by (simp add: args_wf_def args_ok_def New_def no_queue_def string_arg_def ttl_arg_def ranged_arg_def)
qed (rule args_wf_step)


text \<open>The topology of a broker.\<close>

definition topo_of :: "broker \<Rightarrow> topology" where
  "topo_of b =
     \<lparr>tp_exchanges = (\<lambda>x. map_option x_kind (map_of (b_exchanges b) x)),
      tp_queues = (\<lambda>n. map_option (\<lambda>qi. q_args (b_q b qi)) (map_of (b_queues b) n)),
      tp_bindings = (\<lambda>x. case map_of (b_exchanges b) x of None \<Rightarrow> {} | Some ex \<Rightarrow> set (x_bindings ex))\<rparr>"

lemma topo_of_cong:
  "b_exchanges b1 = b_exchanges b \<Longrightarrow> b_queues b1 = b_queues b \<Longrightarrow> (\<And>qi. qargs (b_q b1 qi) = qargs (b_q b qi)) \<Longrightarrow>
   topo_of b1 = topo_of b"
  by (simp add: topo_of_def qargs_def)

lemma args_equiv_refl: "distinct (map fst args) \<Longrightarrow> argsEquivalent args args"
  by (auto simp: argsEquivalent_def list_all_iff)

lemma topo_Channel: "Channel c b = (Inr k, b1) \<Longrightarrow> topo_of b1 = topo_of b"
  by (rule topo_of_cong) (auto simp: Channel_def Let_def split: if_splits)

lemma topo_ExchangeDeclare:
  assumes "ExchangeDeclare k x kind du au intern b = (None, b1)"
  shows "topo_of b1 = put_exchange x kind (topo_of b)"
proof (cases "map_of (b_exchanges b) x")
  case None
  with assms have "b1 = b\<lparr>b_exchanges := b_exchanges b @ [(x, new_exchange kind du au intern)]\<rparr>"
    by (auto simp: ExchangeDeclare_def ch_fail_def split: if_splits)
  with None show ?thesis
    by (auto simp: topo_of_def put_exchange_def new_exchange_def map_add_def fun_eq_iff split: option.split)
next
  case (Some ex)
  with assms have "b1 = b" "x_kind ex = kind" by (auto simp: ExchangeDeclare_def ch_fail_def split: if_splits)
  with Some show ?thesis by (auto simp: topo_of_def put_exchange_def fun_eq_iff)
qed

lemma QueueDeclare_ok:
  assumes "QueueDeclare k q du au ex args b = (Inr (r, n, m), b1)"
  defines "b0 \<equiv> (if q = '''' then b\<lparr>b_nameSeq := b_nameSeq b + 1\<rparr> else b)"
  shows "(q \<noteq> '''' \<longrightarrow> r = q) \<and>
    (case map_of (b_queues b) r of
       Some qi \<Rightarrow> b1 = b0 \<and> argsEquivalent (q_args (b_q b qi)) args
     | None \<Rightarrow> \<exists>qu. b1 = add_queue qu b0 \<and> q_name qu = r \<and> q_args qu = args)"
proof -
  let ?n = "if q = '''' then ''amq.gen-'' @ pad6 (b_nameSeq b0) else q"
  have same: "b_queues b0 = b_queues b" "b_q b0 = b_q b" "b_ch b0 = b_ch b" by (simp_all add: b0_def)
  show ?thesis
  proof (cases "map_of (b_queues b) ?n")
    case None
    with assms(1) show ?thesis
      unfolding QueueDeclare_def Let_def b0_def [symmetric]
      by (auto simp: same split: if_splits option.splits)
  next
    case (Some qi)
    with assms(1) show ?thesis
      unfolding QueueDeclare_def Let_def b0_def [symmetric]
      by (auto simp: same split: if_splits)
  qed
qed

lemma topo_QueueDeclare:
  assumes "args_wf b" "distinct (map fst args)" "QueueDeclare k q du au ex args b = (Inr (r, n, m), b1)"
  shows "topo_of b1 = put_queue r args (topo_of b) \<and>
    (\<exists>args1. tp_queues (topo_of b1) r = Some args1 \<and> argsEquivalent args1 args)"
proof -
  let ?b0 = "if q = '''' then b\<lparr>b_nameSeq := b_nameSeq b + 1\<rparr> else b"
  have t0: "topo_of ?b0 = topo_of b" by (simp add: topo_of_def)
  note ok = QueueDeclare_ok [OF assms(3)]
  show ?thesis
  proof (cases "map_of (b_queues b) r")
    case (Some qi)
    with ok have "b1 = ?b0" "argsEquivalent (q_args (b_q b qi)) args" by auto
    with Some t0 show ?thesis by (auto simp: put_queue_def topo_of_def)
  next
    case None
    with ok obtain qu where b1: "b1 = add_queue qu ?b0" "q_name qu = r" "q_args qu = args" by auto
    have below: "qi < b_fresh b" if "map_of (b_queues b) n = Some qi" for n qi
      using assms(1) map_of_SomeD [OF that] by (auto simp: args_wf_def)
    have "topo_of b1 = put_queue r args (topo_of b)"
      using None b1 below
      by (auto simp: topo_of_def add_queue_def put_queue_def fun_eq_iff map_add_def split: option.split dest!: below)
    moreover have "tp_queues (put_queue r args (topo_of b)) r = Some args"
      using None by (simp add: put_queue_def topo_of_def)
    ultimately show ?thesis using args_equiv_refl [OF assms(2)] by auto
  qed
qed

lemma topo_QueueBind:
  assumes "QueueBind k q key x b = (None, b1)"
  shows "topo_of b1 = put_binding x q key (topo_of b)"
proof -
  from assms obtain ex where ex: "map_of (b_exchanges b) x = Some ex" and
    b1: "b1 = (if (q, key) \<in> set (x_bindings ex) then b
               else b\<lparr>b_exchanges := AList.update x (ex\<lparr>x_bindings := x_bindings ex @ [(q, key)]\<rparr>) (b_exchanges b)\<rparr>)"
    by (auto simp: QueueBind_def ch_fail_def split: option.splits if_splits)
  show ?thesis
    using ex by (auto simp: b1 topo_of_def put_binding_def update_conv' fun_eq_iff insert_absorb)
qed

interpretation fake: topology_api "broker_api enc code c" args_wf topo_of for enc code c
proof (unfold_locales, goal_cases)
  case (1 b k b1)
  then have "Channel c b = (Inr k, b1)" by (cases "Channel c b"; cases "fst (Channel c b)") (auto simp: broker_api_def)
  with 1(1) topo_Channel stable_connections(3) [where b = b and c = c] show ?case by (auto intro: args_wf_stable)
next
  case (2 b k u b1)
  then have "Confirm_mode k b = (None, b1)"
    by (cases "Confirm_mode k b") (auto simp: broker_api_def lift_call_def split: option.splits)
  with 2(1) show ?case
    using stable_methods(1) [where b = b and k = k] topo_of_cong [of b1 b]
    by (auto intro: args_wf_stable simp: Confirm_mode_def split: if_splits)
next
  case (3 b k n u b1)
  then have "BrokerChannel.Qos k n b = (None, b1)"
    by (cases "BrokerChannel.Qos k n b") (auto simp: broker_api_def lift_call_def split: option.splits)
  with 3(1) show ?case
    using stable_methods(2) [where b = b and k = k and n = n] topo_of_cong [of b1 b]
    by (auto intro: args_wf_stable simp: Qos_def split: if_splits)
next
  case (4 b k x kind u b1)
  then have "BrokerChannel.ExchangeDeclare k x kind True False False b = (None, b1)"
    by (cases "BrokerChannel.ExchangeDeclare k x kind True False False b") (auto simp: broker_api_def lift_call_def split: option.splits)
  with 4(1) topo_ExchangeDeclare [OF this]
    stable_methods(4) [where b = b and k = k and name = x and kind = kind and du = True and au = False and intern = False]
  show ?case by (auto intro: args_wf_stable)
next
  case (5 b args k q du au ex r b1)
  then obtain n m where d: "BrokerChannel.QueueDeclare k q du au ex args b = (Inr (r, n, m), b1)"
    by (cases "BrokerChannel.QueueDeclare k q du au ex args b"; cases "fst (BrokerChannel.QueueDeclare k q du au ex args b)")
      (auto simp: broker_api_def)
  from args_wf_QueueDeclare [OF 5(1,2), of k q du au ex] topo_QueueDeclare [OF 5(1,2) d] QueueDeclare_ok [OF d] d
  show ?case by auto
next
  case (6 b args k q du au ex r b1)
  then obtain n m where d: "BrokerChannel.QueueDeclare k q du au ex args b = (Inr (r, n, m), b1)"
    by (cases "BrokerChannel.QueueDeclare k q du au ex args b"; cases "fst (BrokerChannel.QueueDeclare k q du au ex args b)")
      (auto simp: broker_api_def)
  from topo_QueueDeclare [OF 6(1,2) d] show ?case by (rule conjunct2)
next
  case (7 b k q key x u b1)
  then have "BrokerChannel.QueueBind k q key x b = (None, b1)"
    by (cases "BrokerChannel.QueueBind k q key x b") (auto simp: broker_api_def lift_call_def split: option.splits)
  with 7(1) topo_QueueBind [OF this] stable_methods(5) [where b = b and k = k and name = q and key = key and x = x]
  show ?case by (auto intro: args_wf_stable)
qed


section \<open>Where messages go\<close>

lemma targets_of_topo:
  assumes "x \<noteq> ''''" "tp_exchanges (topo_of b) x = Some kind"
  shows "qi \<in> set (targets b x key) \<longleftrightarrow>
    (\<exists>name pattern. (name, pattern) \<in> tp_bindings (topo_of b) x \<and> map_of (b_queues b) name = Some qi \<and> binding_hit kind pattern key)"
proof -
  obtain ex where "map_of (b_exchanges b) x = Some ex" "x_kind ex = kind" using assms(2) by (auto simp: topo_of_def)
  with assms(1) bound_queues_spec [of "[]" "b_queues b" kind key "x_bindings ex" qi] show ?thesis
    by (auto simp: targets_def topo_of_def)
qed

lemma hash_hits: "binding_hit ''topic'' ''#'' key"
  by (simp add: binding_hit_def topicMatch_hash_only)

text \<open>What the arguments of a queue say, read off any equivalent table.\<close>

lemma intArg_intHeader: "intArg (intHeader n) = Some (sint n)"
  by (simp add: intHeader_def sint_scast_32)

lemma argsEquivalent_lookup:
  assumes "argsEquivalent args1 args" "distinct (map fst args1)" "distinct (map fst args)"
  shows "map_option norm_arg (map_of args1 k) = map_option norm_arg (map_of args k)"
proof -
  have sub: "set (map fst args1) \<subseteq> set (map fst args)"
    using assms(1) by (force simp: argsEquivalent_def list_all_iff map_of_eq_None_iff dest: map_of_SomeD)
  moreover have "card (set (map fst args1)) = card (set (map fst args))"
    using assms by (simp add: distinct_card argsEquivalent_def del: set_map)
  ultimately have same: "set (map fst args1) = set (map fst args)" by (intro card_subset_eq) simp_all
  show ?thesis
  proof (cases "map_of args1 k")
    case None
    with same have "map_of args k = None" by (simp add: map_of_eq_None_iff)
    with None show ?thesis by simp
  next
    case (Some v)
    with assms(1) have "case (k, v) of (k, v) \<Rightarrow> map_option norm_arg (map_of args k) = Some (norm_arg v)"
      unfolding argsEquivalent_def list_all_iff by (blast dest: map_of_SomeD)
    with Some show ?thesis by auto
  qed
qed

lemma norm_arg_eq: "norm_arg v = norm_arg (VString s) \<longleftrightarrow> v = VString s"
  by (auto simp: norm_arg_def split: option.splits)

lemma retry_queue_settings:
  assumes "args_ok q" "argsEquivalent (q_args q) [(''x-message-ttl'', intHeader (Milliseconds delay)), (''x-dead-letter-exchange'', VString x)]"
    and delay: "0 \<le> delay" "delay < 2 ^ 63"
  shows "q_dlx q = Some x \<and> q_dlxKey q = None \<and> q_ttl q = delay div 1000000 * 1000000"
proof -
  let ?args = "[(''x-message-ttl'', intHeader (Milliseconds delay)), (''x-dead-letter-exchange'', VString x)]"
  have look: "map_option norm_arg (map_of (q_args q) k) = map_option norm_arg (map_of ?args k)" for k
    using assms(1,2) by (intro argsEquivalent_lookup) (simp_all add: args_ok_def)
  from look [of "''x-dead-letter-exchange''"] have "map_of (q_args q) ''x-dead-letter-exchange'' = Some (VString x)"
    by (auto simp: norm_arg_eq)
  moreover from look [of "''x-dead-letter-routing-key''"] have "map_of (q_args q) ''x-dead-letter-routing-key'' = None" by simp
  moreover have ms: "sint (Milliseconds delay) = delay div 1000000"
    unfolding Milliseconds_def using delay by (simp add: sint_of_int_64)
  from look [of "''x-message-ttl''"] obtain v where v: "map_of (q_args q) ''x-message-ttl'' = Some v" "intArg v = Some (delay div 1000000)"
    by (auto simp: norm_arg_def intArg_intHeader ms split: option.splits)
  have "delay div 1000000 * 1000000 \<le> delay" "0 \<le> delay div 1000000 * 1000000"
    using delay by (simp_all add: pos_imp_zdiv_nonneg_iff)
  then have "msDuration (delay div 1000000) = delay div 1000000 * 1000000"
    unfolding msDuration_def using delay by (intro sint_of_int_64) simp_all
  with v delay have "ttl_arg (q_args q) = delay div 1000000 * 1000000"
    by (simp add: ttl_arg_def ranged_arg_def pos_imp_zdiv_nonneg_iff)
  ultimately show ?thesis using assms(1) by (simp add: args_ok_def string_arg_def)
qed



lemma fold_put_binding:
  "tp_exchanges (fold (put_binding x q) keys t) = tp_exchanges t"
  "tp_queues (fold (put_binding x q) keys t) = tp_queues t"
  "tp_bindings (fold (put_binding x q) keys t) y = tp_bindings t y \<union> (if y = x then {q} \<times> set keys else {})"
  by (induction keys arbitrary: t) (auto simp: put_binding_def)

lemma put_queue_facts:
  "tp_exchanges (put_queue q args t) = tp_exchanges t" "tp_bindings (put_queue q args t) = tp_bindings t"
  "dom (tp_queues (put_queue q args t)) = insert q (dom (tp_queues t))"
  by (auto simp: put_queue_def)

lemma retry_topology_facts:
  "tp_exchanges (retry_topology rs delay x t) = (tp_exchanges t)(rs_exchange rs \<mapsto> ''topic'')"
  "tp_bindings (retry_topology rs delay x t) y =
     (if y = rs_exchange rs then insert (rs_queue rs, ''#'') (tp_bindings t y) else tp_bindings t y)"
  "dom (tp_queues (retry_topology rs delay x t)) = {rs_queue rs, rs_dlq rs} \<union> dom (tp_queues t)"
  by (auto simp: retry_topology_def put_binding_def put_exchange_def put_queue_facts)

lemmas topology_facts = consumer_topology_def fold_put_binding put_queue_facts retry_topology_facts put_exchange_def put_binding_def

lemma queue_of_topo: "tp_queues (topo_of b) n = Some args \<longleftrightarrow> (\<exists>qi. map_of (b_queues b) n = Some qi \<and> q_args (b_q b qi) = args)"
  by (auto simp: topo_of_def)

lemma queue_exists: "n \<in> dom (tp_queues (topo_of b)) \<longleftrightarrow> (\<exists>qi. map_of (b_queues b) n = Some qi)"
  by (auto simp: topo_of_def)

lemma request_key_hits:
  assumes "plain_name (sv_name s)" "dot \<notin> set meth"
  shows "binding_hit ''topic'' (''REQUEST.'' @ sv_name s @ ''.*'') (''REQUEST.'' @ sv_name s @ ''.'' @ meth)"
proof -
  have "split_dots (''REQUEST.'' @ sv_name s) = ''REQUEST'' # split_dots (sv_name s)"
    using split_on_append [of dot "''REQUEST''" "sv_name s"] by simp
  with assms topicMatch_prefix_star [of "''REQUEST.'' @ sv_name s" "''REQUEST.'' @ sv_name s @ ''.'' @ meth"] show ?thesis
    by (auto simp: binding_hit_def plain_name_def)
qed

lemma retry_queue_at:
  assumes "args_wf b" "retry_declared (topo_of b) p delay x" "p = Some rs" "0 \<le> delay" "delay < 2 ^ 63"
  shows "\<exists>ri. map_of (b_queues b) (rs_queue rs) = Some ri \<and> q_ttl (b_q b ri) = delay div 1000000 * 1000000 \<and>
    q_dlx (b_q b ri) = Some x \<and> q_dlxKey (b_q b ri) = None"
proof -
  from assms(2,3) obtain args where "tp_queues (topo_of b) (rs_queue rs) = Some args"
    and eq: "argsEquivalent args [(''x-message-ttl'', intHeader (Milliseconds delay)), (''x-dead-letter-exchange'', VString x)]"
    unfolding retry_declared_def by blast
  then obtain ri where ri: "map_of (b_queues b) (rs_queue rs) = Some ri" "q_args (b_q b ri) = args" by (auto simp: queue_of_topo)
  have "args_ok (b_q b ri)" using assms(1) by (simp add: args_wf_def)
  from retry_queue_settings [OF this _ assms(4,5), of x, unfolded ri(2), OF eq] ri(1) show ?thesis by blast
qed

lemma hash_bound:
  assumes "x \<noteq> ''''" "tp_exchanges (topo_of b) x = Some ''topic''" "(n, ''#'') \<in> tp_bindings (topo_of b) x" "map_of (b_queues b) n = Some qi"
  shows "qi \<in> set (targets b x key)"
  using targets_of_topo [OF assms(1,2)] assms(3,4) hash_hits by blast

lemma hash_bound_only:
  assumes "x \<noteq> ''''" "tp_exchanges (topo_of b) x = Some ''topic''" "(n, ''#'') \<in> tp_bindings (topo_of b) x" "map_of (b_queues b) n = Some qi"
    and "fst ` tp_bindings (topo_of b) x \<subseteq> {n}"
  shows "set (targets b x key) = {qi}"
proof -
  have "j = qi" if "j \<in> set (targets b x key)" for j
  proof -
    from that obtain name p where "(name, p) \<in> tp_bindings (topo_of b) x" "map_of (b_queues b) name = Some j"
      using targets_of_topo [OF assms(1,2)] by blast
    with assms(4,5) show ?thesis by force
  qed
  with hash_bound [OF assms(1-4)] show ?thesis by blast
qed

section \<open>Properties\<close>

text \<open>
  C13. The request topology works as a whole. When the consumer of a service has declared
  its topology on a broker in any state, a request published under the key of one of its
  methods is routed to the service's queue. If the service retries, whatever is published
  to its retry exchange, under any key, is routed to its retry queue, and to nothing else
  unless others had bound queues to that exchange; a message there expires after the retry
  delay in milliseconds and is then dead-lettered to the bus exchange under its own key,
  which leads back to the service's queue; and the dead-letter queue exists.
\<close>

theorem retries_come_back:
  fixes s :: "('m, 'w) Service" and enc :: "amqp_error \<Rightarrow> err" and code :: "err \<Rightarrow> nat option" and c :: nat
  defines "A \<equiv> broker_api enc code c" and "bus \<equiv> cf_BusExchange (sv_cfg s)" and "delay \<equiv> rt_Delay (sp_retry (sv_opts s))"
  assumes "breachable b" "plain_name (sv_name s)" "sv_name s \<noteq> ''''" "bus \<noteq> ''''" "0 \<le> delay" "delay < 2 ^ 63" "dot \<notin> set meth"
    and decl: "declare_consumer A (requestSpec L s) (request_bindings s) (request_declare A s) b = (Inr (ch, q), b1)"
  shows "\<exists>qi. map_of (b_queues b1) (sv_name s) = Some qi \<and>
     qi \<in> set (targets b1 bus (''REQUEST.'' @ sv_name s @ ''.'' @ meth)) \<and>
     (\<forall>rs. request_retry s = Some rs \<longrightarrow>
        HasQueue (rs_dlq rs) b1 \<and>
        (\<exists>ri. map_of (b_queues b1) (rs_queue rs) = Some ri \<and>
           q_ttl (b_q b1 ri) = delay div 1000000 * 1000000 \<and>
           q_dlx (b_q b1 ri) = Some bus \<and> q_dlxKey (b_q b1 ri) = None \<and>
           (\<forall>key. ri \<in> set (targets b1 (rs_exchange rs) key)) \<and>
           (rs_exchange rs \<noteq> bus \<and> tp_bindings (topo_of b) (rs_exchange rs) = {} \<longrightarrow>
              (\<forall>key. set (targets b1 (rs_exchange rs) key) = {ri}))))"
proof -
  let ?spec = "requestSpec L s" and ?key = "''REQUEST.'' @ sv_name s @ ''.'' @ meth"
  have wf: "args_wf b1" and topo: "topo_of b1 = consumer_topology ?spec (request_bindings s) (request_topology s) q (topo_of b)"
    and q: "q = sv_name s" and d: "retry_declared (topo_of b1) (request_retry s) delay bus"
    using fake.request_consumer_declares [where enc = enc and code = code and c = c, folded A_def,
      OF args_wf_reachable [OF assms(4)] decl assms(6), folded delay_def bus_def] by blast+
  have spec: "cs_exchange ?spec = bus" by (simp add: requestSpec_def Let_def bus_def)
  have ex: "tp_exchanges (topo_of b1) bus = Some ''topic''"
    by (simp add: topo topology_facts request_topology_def spec split: option.split)
  have qu: "q \<in> dom (tp_queues (topo_of b1))"
    by (simp add: topo topology_facts request_topology_def split: option.split)
  then obtain qi where qi: "map_of (b_queues b1) q = Some qi" unfolding queue_exists ..
  have "(q, ''REQUEST.'' @ sv_name s @ ''.*'') \<in> tp_bindings (topo_of b1) bus"
    by (simp add: topo topology_facts request_topology_def spec request_bindings_def split: option.split)
  with targets_of_topo [OF assms(7) ex] qi request_key_hits [OF assms(5,10)] have "qi \<in> set (targets b1 bus ?key)"
    by blast
  moreover have "HasQueue (rs_dlq rs) b1 \<and> (\<exists>ri. map_of (b_queues b1) (rs_queue rs) = Some ri \<and>
      q_ttl (b_q b1 ri) = delay div 1000000 * 1000000 \<and> q_dlx (b_q b1 ri) = Some bus \<and> q_dlxKey (b_q b1 ri) = None \<and>
      (\<forall>key. ri \<in> set (targets b1 (rs_exchange rs) key)) \<and>
      (rs_exchange rs \<noteq> bus \<and> tp_bindings (topo_of b) (rs_exchange rs) = {} \<longrightarrow>
         (\<forall>key. set (targets b1 (rs_exchange rs) key) = {ri})))" if rs: "request_retry s = Some rs" for rs
  proof -
    from retry_queue_at [OF wf d rs assms(8,9)] obtain ri where ri: "map_of (b_queues b1) (rs_queue rs) = Some ri"
      "q_ttl (b_q b1 ri) = delay div 1000000 * 1000000" "q_dlx (b_q b1 ri) = Some bus" "q_dlxKey (b_q b1 ri) = None" by blast
    have dlq: "HasQueue (rs_dlq rs) b1"
      using queue_exists [of "rs_dlq rs" b1] by (auto simp: HasQueue_def topo topology_facts request_topology_def rs)
    have x: "rs_exchange rs \<noteq> ''''" "tp_exchanges (topo_of b1) (rs_exchange rs) = Some ''topic''"
      using rs by (auto simp: topo topology_facts request_topology_def request_retry_def split: if_splits)
    have bind: "(rs_queue rs, ''#'') \<in> tp_bindings (topo_of b1) (rs_exchange rs)"
      and only: "rs_exchange rs \<noteq> bus \<Longrightarrow> tp_bindings (topo_of b) (rs_exchange rs) = {} \<Longrightarrow>
        fst ` tp_bindings (topo_of b1) (rs_exchange rs) \<subseteq> {rs_queue rs}"
      by (simp_all add: topo topology_facts request_topology_def rs spec)
    from hash_bound [OF x bind ri(1)] hash_bound_only [OF x bind ri(1) only] ri dlq show ?thesis by blast
  qed
  ultimately show ?thesis using qi q by blast
qed


text \<open>A service on a broker with one connection and nothing declared.\<close>

definition demo_api :: "broker amqp_api" where
  "demo_api = broker_api (\<lambda>e. new_error (ae_Reason e)) (\<lambda>_. None) 0"

definition demo_declared :: "(err, nat \<times> string) result \<times> broker" where
  "demo_declared =
     declare_consumer demo_api (requestSpec (cd_lib demo_codec) demo_service) (request_bindings demo_service)
       (request_declare demo_api demo_service) (snd (open_conn Broker.New))"

lemma demo_declared_ok: "fst demo_declared = Inr (1, ''demo.Text.a'')"
  by code_simp

lemma demo_broker_reachable: "breachable (snd (open_conn Broker.New))"
  by (rule b_step [OF b_init b_peer])

theorem retries_come_back_witness:
  "\<exists>qi ri. map_of (b_queues (snd demo_declared)) ''demo.Text.a'' = Some qi \<and>
     qi \<in> set (targets (snd demo_declared) ''proto.bus'' ''REQUEST.demo.Text.a.reverse'') \<and>
     map_of (b_queues (snd demo_declared)) ''demo.Text.a.Retry'' = Some ri \<and>
     q_ttl (b_q (snd demo_declared) ri) = 5000000000"
proof -
  have "declare_consumer demo_api (requestSpec (cd_lib demo_codec) demo_service) (request_bindings demo_service)
      (request_declare demo_api demo_service) (snd (open_conn Broker.New)) = (Inr (1, ''demo.Text.a''), snd demo_declared)"
    using demo_declared_ok by (simp add: demo_declared_def prod_eq_iff)
  from retries_come_back [OF demo_broker_reachable _ _ _ _ _ _ this [unfolded demo_api_def], of "''reverse''"]
  show ?thesis
    by (auto simp: demo_service_def plain_name_def default_service_options_def DefaultConfig_def DefaultRetryPolicy_def
        Second_def request_retry_def)
qed

text \<open>
  C14. A retried event comes back to its own listener only. When the consumer of a named
  listener with retries has declared its topology on a broker in any state, an event whose
  key matches one of its patterns is routed to its queue; an event it retries waits in its
  retry queue for the retry delay in milliseconds and is then dead-lettered, under its own
  key, to the listener's redelivery exchange, which leads to the listener's queue and to no
  other, unless others had bound queues to that exchange before.
\<close>

theorem event_retries_private:
  fixes enc :: "amqp_error \<Rightarrow> err" and code :: "err \<Rightarrow> nat option" and c :: nat and retry :: EventRetryPolicy
  defines "A \<equiv> broker_api enc code c" and "delay \<equiv> er_Delay retry"
  assumes "breachable b" "event_retry queue retry = Some rs" "cf_EventsExchange cfg \<noteq> ''''" "0 \<le> delay" "delay < 2 ^ 63"
    and fresh: "tp_bindings (topo_of b) (redelivery queue) = {}"
    and decl: "declare_consumer A (eventSpec cfg queue n retry) patterns (event_declare A queue retry) b = (Inr (ch, q), b1)"
  shows "\<exists>qi ri. map_of (b_queues b1) queue = Some qi \<and> map_of (b_queues b1) (rs_queue rs) = Some ri \<and>
     (\<forall>p \<in> set patterns. \<forall>key. topicMatch (split_dots p) (split_dots key) \<longrightarrow> qi \<in> set (targets b1 (cf_EventsExchange cfg) key)) \<and>
     (\<forall>key. ri \<in> set (targets b1 (rs_exchange rs) key)) \<and>
     q_ttl (b_q b1 ri) = delay div 1000000 * 1000000 \<and>
     q_dlx (b_q b1 ri) = Some (redelivery queue) \<and> q_dlxKey (b_q b1 ri) = None \<and>
     (\<forall>key. set (targets b1 (redelivery queue) key) = {qi})"
proof -
  let ?spec = "eventSpec cfg queue n retry" and ?x = "cf_EventsExchange cfg"
  have names: "queue \<noteq> ''''" "rs_exchange rs \<noteq> ''''" "redelivery queue \<noteq> ''''" "redelivery queue \<noteq> rs_exchange rs"
    using assms(4) by (auto simp: event_retry_def redelivery_def split: if_splits)
  have wf: "args_wf b1" and topo: "topo_of b1 = consumer_topology ?spec patterns (event_topology queue retry) q (topo_of b)"
    and q: "q = queue" and d: "retry_declared (topo_of b1) (event_retry queue retry) delay (redelivery queue)"
    using fake.event_consumer_declares [where enc = enc and code = code and c = c, folded A_def,
      OF args_wf_reachable [OF assms(3)] decl, folded delay_def] names(1) by blast+
  have spec: "cs_exchange ?spec = ?x" by (simp add: eventSpec_def)
  note facts = topo topology_facts event_topology_def assms(4) spec
  have "q \<in> dom (tp_queues (topo_of b1))" by (simp add: facts)
  then obtain qi where qi: "map_of (b_queues b1) queue = Some qi" unfolding queue_exists q ..
  from retry_queue_at [OF wf d assms(4,6,7)] obtain ri where ri: "map_of (b_queues b1) (rs_queue rs) = Some ri"
    "q_ttl (b_q b1 ri) = delay div 1000000 * 1000000" "q_dlx (b_q b1 ri) = Some (redelivery queue)" "q_dlxKey (b_q b1 ri) = None"
    by blast
  have kinds: "tp_exchanges (topo_of b1) y = Some ''topic''" if "y \<in> {?x, rs_exchange rs, redelivery queue}" for y
    using that by (auto simp: facts)
  have "(queue, p) \<in> tp_bindings (topo_of b1) ?x" if "p \<in> set patterns" for p using that by (simp add: facts q)
  then have "\<forall>p \<in> set patterns. \<forall>key. topicMatch (split_dots p) (split_dots key) \<longrightarrow> qi \<in> set (targets b1 ?x key)"
    using targets_of_topo [OF assms(5) kinds] qi by (auto simp: binding_hit_def)
  moreover have "(rs_queue rs, ''#'') \<in> tp_bindings (topo_of b1) (rs_exchange rs)" by (simp add: facts)
  then have "\<forall>key. ri \<in> set (targets b1 (rs_exchange rs) key)" using hash_bound [OF names(2) kinds _ ri(1)] by simp
  moreover have "(queue, ''#'') \<in> tp_bindings (topo_of b1) (redelivery queue)"
    "fst ` tp_bindings (topo_of b1) (redelivery queue) \<subseteq> {queue}"
    using names(4) fresh by (auto simp: facts q split: if_splits)
  then have "\<forall>key. set (targets b1 (redelivery queue) key) = {qi}" using hash_bound_only [OF names(3) kinds _ qi] by simp
  ultimately show ?thesis using qi ri by blast
qed


definition demo_policy :: EventRetryPolicy where
  "demo_policy = \<lparr>er_MaxRetries = 2, er_Delay = 1500000\<rparr>"

definition demo_events :: "(err, nat \<times> string) result \<times> broker" where
  "demo_events =
     declare_consumer demo_api (eventSpec DefaultConfig ''audit'' 1 demo_policy) [''EVENT.#'']
       (event_declare demo_api ''audit'' demo_policy) (snd (open_conn Broker.New))"

lemma demo_events_ok: "fst demo_events = Inr (1, ''audit'')"
  by code_simp

theorem event_retries_private_witness:
  "\<exists>qi ri. map_of (b_queues (snd demo_events)) ''audit'' = Some qi \<and>
     map_of (b_queues (snd demo_events)) ''audit.Retry'' = Some ri \<and>
     q_ttl (b_q (snd demo_events) ri) = 1000000 \<and>
     set (targets (snd demo_events) ''audit.Redelivery'' ''EVENT.shop.Order'') = {qi}"
proof -
  have decl: "declare_consumer demo_api (eventSpec DefaultConfig ''audit'' 1 demo_policy) [''EVENT.#'']
      (event_declare demo_api ''audit'' demo_policy) (snd (open_conn Broker.New)) = (Inr (1, ''audit''), snd demo_events)"
    using demo_events_ok by (simp add: demo_events_def prod_eq_iff)
  have rs: "event_retry ''audit'' demo_policy = Some \<lparr>rs_maxRetries = 2, rs_exchange = ''audit.Retry.Exchange'',
      rs_queue = ''audit.Retry'', rs_dlq = ''audit.DLQ''\<rparr>"
    by (simp add: event_retry_def demo_policy_def)
  have "tp_bindings (topo_of (snd (open_conn Broker.New))) (redelivery ''audit'') = {}"
    by (simp add: topo_of_def open_conn_def Broker.New_def redelivery_def)
  from event_retries_private [OF demo_broker_reachable rs _ _ _ this decl [unfolded demo_api_def]] show ?thesis
    by (auto simp: DefaultConfig_def demo_policy_def redelivery_def)
qed

end
