(* ===== verification/Generated.thy ===== *)
theory Generated imports Service begin

text \<open>
  The bindings \<open>internal/gen/gen.go\<close> generates for a service: what the generated code does,
  read off the lines it emits, and the checks the generator makes before it emits any. The
  emitted text itself (comments, imports, identifiers) is not modelled. The service a
  generated descriptor registers is determined here.
\<close>

section \<open>Model\<close>

text \<open>What the generator reads of a method and a service; types are their Go names.\<close>

record gen_method =
  gm_GoName :: string
  gm_Name :: string
  gm_Input :: string
  gm_Output :: string
  gm_StreamingServer :: bool
  gm_StreamingClient :: bool

record gen_service =
  gs_GoName :: string
  gs_FullName :: string
  gs_Methods :: "gen_method list"

definition full_name :: "gen_service \<Rightarrow> gen_method \<Rightarrow> string" where
  "full_name svc m = gs_FullName svc @ ''.'' @ gm_Name m"

datatype gen_error =
    ClientStreaming string
  | NameClash string string string string

fun clashes_from :: "string \<Rightarrow> (string \<rightharpoonup> string) \<Rightarrow> gen_method list \<Rightarrow> gen_error option" where
  "clashes_from service prior [] = None"
| "clashes_from service prior (m # ms) =
     (case prior (gm_GoName m) of
        Some prev \<Rightarrow> Some (NameClash prev (gm_Name m) service (gm_GoName m))
      | None \<Rightarrow> clashes_from service (prior(gm_GoName m \<mapsto> gm_Name m)) ms)"

definition checkNameClashes :: "gen_service \<Rightarrow> gen_error option" where
  "checkNameClashes svc = clashes_from (gs_FullName svc) Map.empty (gs_Methods svc)"

definition check_service :: "gen_service \<Rightarrow> gen_error option" where
  "check_service svc =
     (case find gm_StreamingClient (gs_Methods svc) of
        Some m \<Rightarrow> Some (ClientStreaming (full_name svc m))
      | None \<Rightarrow> checkNameClashes svc)"

text \<open>
  \<open>GenerateFileWith\<close> up to the emitting: an error, nothing for a file without services, or
  the services whose bindings are emitted.
\<close>

fun check_services :: "gen_service list \<Rightarrow> gen_error option" where
  "check_services [] = None"
| "check_services (svc # svcs) = (case check_service svc of Some e \<Rightarrow> Some e | None \<Rightarrow> check_services svcs)"

definition GenerateFileWith :: "gen_service list \<Rightarrow> (gen_error, gen_service list option) result" where
  "GenerateFileWith svcs =
     (if svcs = [] then Inr None
      else case check_services svcs of Some e \<Rightarrow> Inl e | None \<Rightarrow> Inr (Some svcs))"

text \<open>
  An implementation of the generated server interface has a function for every Go method
  name. A streaming method's function is given its request and the context, and returns
  what it does to its stream. \<open>unimplemented\<close> is the struct implementations embed.
\<close>

record ('m, 'w) server =
  srv_unary :: "string \<Rightarrow> CallInfo \<Rightarrow> 'm \<Rightarrow> ('m, 'w) unary_run"
  srv_stream :: "string \<Rightarrow> CallInfo \<Rightarrow> 'm \<Rightarrow> 'w stream_run"

definition unimplemented :: "live \<Rightarrow> ('m, 'w) server" where
  "unimplemented cx =
     \<lparr>srv_unary = \<lambda>_ _ _ w. (Inl (Sentinel ErrUnimplemented), w),
      srv_stream = \<lambda>_ _ _ w. (([], Some (Sentinel ErrUnimplemented), cx), w)\<rparr>"

definition generated_unary :: "gen_service \<Rightarrow> ('m, 'w) server \<Rightarrow> gen_method \<Rightarrow> ('m, 'w) MethodDesc" where
  "generated_unary svc srv m =
     \<lparr>md_MethodName = gm_Name m,
      md_Handler = \<lambda>ctx dec interceptor w.
        (case dec (gm_Input m) of
           Inl e \<Rightarrow> (Inl e, w)
         | Inr x \<Rightarrow>
             (case interceptor of
                None \<Rightarrow> srv_unary srv (gm_GoName m) ctx x w
              | Some ic \<Rightarrow> ic ctx x (full_name svc m) (\<lambda>ctx req. srv_unary srv (gm_GoName m) ctx req) w))\<rparr>"

definition generated_stream :: "live \<Rightarrow> gen_service \<Rightarrow> ('m, 'w) server \<Rightarrow> gen_method \<Rightarrow> ('m, 'w) StreamDesc" where
  "generated_stream cx svc srv m =
     \<lparr>sd_MethodName = gm_Name m,
      sd_Handler = \<lambda>ctx dec interceptor w.
        (case dec (gm_Input m) of
           Inl e \<Rightarrow> (([], Some e, cx), w)
         | Inr x \<Rightarrow>
             (case interceptor of
                None \<Rightarrow> srv_stream srv (gm_GoName m) ctx x w
              | Some ic \<Rightarrow> ic ctx x () (full_name svc m) (\<lambda>ctx req stream. srv_stream srv (gm_GoName m) ctx req) w))\<rparr>"

definition generated_desc :: "string \<Rightarrow> live \<Rightarrow> gen_service \<Rightarrow> ('m, 'w) server \<Rightarrow> ('m, 'w) ServiceDesc" where
  "generated_desc infix_name cx svc srv =
     \<lparr>de_ServiceName = gs_FullName svc,
      de_HandlerType = Some \<lparr>ht_text = ''*'' @ gs_GoName svc @ infix_name @ ''Server'',
                             ht_interface = Some (gs_GoName svc @ infix_name @ ''Server'')\<rparr>,
      de_Methods = map (generated_unary svc srv) (filter (\<lambda>m. \<not> gm_StreamingServer m) (gs_Methods svc)),
      de_Streams = map (generated_stream cx svc srv) (filter gm_StreamingServer (gs_Methods svc))\<rparr>"

text \<open>A method of the generated client; the one for a stream returns \<open>StreamWith\<close>'s sequence.\<close>

definition generated_call ::
  "'m codec \<Rightarrow> (string \<Rightarrow> bytes \<Rightarrow> callOptions \<Rightarrow> (err, bytes) result) \<Rightarrow> client \<Rightarrow> gen_method \<Rightarrow> 'm \<Rightarrow>
   call_option list \<Rightarrow> (err, 'm option) result option" where
  "generated_call C call c m inp opts =
     Invoke (cd_lib C) (cd_marshal C) (cd_unmarshal C (gm_Output m)) call c (gm_Name m) inp opts"

text \<open>The contract the protobuf registry has for a generated service.\<close>

definition contract_of :: "gen_service \<Rightarrow> service_descriptor" where
  "contract_of svc =
     \<lparr>ds_FullName = gs_FullName svc,
      ds_Methods = map_of (map (\<lambda>m. (gm_Name m, \<lparr>mt_StreamingServer = gm_StreamingServer m,
                                               mt_StreamingClient = gm_StreamingClient m\<rparr>)) (gs_Methods svc))\<rparr>"

section \<open>Facts\<close>

lemma clashes_from_None:
  "clashes_from service prior ms = None \<longleftrightarrow>
     distinct (map gm_GoName ms) \<and> dom prior \<inter> gm_GoName ` set ms = {}"
proof (induction ms arbitrary: prior)
  case (Cons m ms)
  have "dom (prior(gm_GoName m \<mapsto> gm_Name m)) \<inter> A = {} \<longleftrightarrow> gm_GoName m \<notin> A \<and> dom prior \<inter> A = {}" for A by auto
  with Cons show ?case by (cases "prior (gm_GoName m)") (auto simp del: fun_upd_apply dom_fun_upd)
qed simp

lemma check_service_None:
  "check_service svc = None \<longleftrightarrow>
     (\<forall>m \<in> set (gs_Methods svc). \<not> gm_StreamingClient m) \<and> distinct (map gm_GoName (gs_Methods svc))"
  by (auto simp: check_service_def checkNameClashes_def clashes_from_None find_None_iff find_Some_iff split: option.split)

lemma check_services_None: "check_services svcs = None \<longleftrightarrow> (\<forall>svc \<in> set svcs. check_service svc = None)"
  by (induction svcs) (simp_all split: option.split)

text \<open>A loop over declarations that fit the contract enters every one of them under its name.\<close>

lemma map_of_entered:
  assumes "nm m \<notin> nm ` set ms"
  shows "acc(nm m \<mapsto> m) ++ map_of (map (\<lambda>m. (nm m, m)) ms) = acc ++ map_of (map (\<lambda>m. (nm m, m)) (m # ms))"
proof -
  have "map_of (map (\<lambda>m. (nm m, m)) ms) (nm m) = None" using assms by (simp add: map_of_eq_None_iff image_image)
  then show ?thesis by (intro ext) (simp add: map_add_def split: option.split)
qed

lemma add_methods_all:
  assumes "\<forall>m \<in> set ms. \<exists>md. ds_Methods sd (md_MethodName m) = Some md \<and> \<not> mt_StreamingServer md \<and> \<not> mt_StreamingClient md"
    and "distinct (map md_MethodName ms)"
  shows "add_methods sd sname ms acc = Inr (acc ++ map_of (map (\<lambda>m. (md_MethodName m, m)) ms))"
  using assms
proof (induction ms arbitrary: acc)
  case (Cons m ms)
  then have "add_methods sd sname (m # ms) acc = add_methods sd sname ms (acc(md_MethodName m \<mapsto> m))" by fastforce
  also have "\<dots> = Inr (acc(md_MethodName m \<mapsto> m) ++ map_of (map (\<lambda>m. (md_MethodName m, m)) ms))"
    using Cons.prems by (intro Cons.IH) simp_all
  also have "acc(md_MethodName m \<mapsto> m) ++ map_of (map (\<lambda>m. (md_MethodName m, m)) ms) = acc ++ map_of (map (\<lambda>m. (md_MethodName m, m)) (m # ms))"
    using Cons.prems(2) by (intro map_of_entered) simp
  finally show ?case .
qed simp

lemma add_streams_all:
  assumes "\<forall>m \<in> set ms. \<exists>md. ds_Methods sd (sd_MethodName m) = Some md \<and> mt_StreamingServer md \<and> \<not> mt_StreamingClient md"
    and "distinct (map sd_MethodName ms)"
  shows "add_streams sd sname ms acc = Inr (acc ++ map_of (map (\<lambda>m. (sd_MethodName m, m)) ms))"
  using assms
proof (induction ms arbitrary: acc)
  case (Cons m ms)
  then have "add_streams sd sname (m # ms) acc = add_streams sd sname ms (acc(sd_MethodName m \<mapsto> m))" by fastforce
  also have "\<dots> = Inr (acc(sd_MethodName m \<mapsto> m) ++ map_of (map (\<lambda>m. (sd_MethodName m, m)) ms))"
    using Cons.prems by (intro Cons.IH) simp_all
  also have "acc(sd_MethodName m \<mapsto> m) ++ map_of (map (\<lambda>m. (sd_MethodName m, m)) ms) = acc ++ map_of (map (\<lambda>m. (sd_MethodName m, m)) (m # ms))"
    using Cons.prems(2) by (intro map_of_entered) simp
  finally show ?case .
qed simp

lemma contract_method:
  assumes "distinct (map gm_Name (gs_Methods svc))" "m \<in> set (gs_Methods svc)"
  shows "ds_Methods (contract_of svc) (gm_Name m) =
    Some \<lparr>mt_StreamingServer = gm_StreamingServer m, mt_StreamingClient = gm_StreamingClient m\<rparr>"
  using assms by (auto simp: contract_of_def o_def intro: map_of_is_SomeI)

text \<open>The table a list of declarations makes when the generator built it from the methods.\<close>

lemma generated_table:
  assumes "\<forall>m. nm (g m) = gm_Name m" "distinct (map gm_Name ms)" and that: "m \<in> set ms"
  shows "map_of (map (\<lambda>d. (nm d, d)) (map g (filter P ms))) (gm_Name m) = (if P m then Some (g m) else None)"
proof (cases "P m")
  case True
  have "distinct (map gm_Name (filter P ms))" using assms(2) by (rule distinct_map_filter)
  with True that assms(1) show ?thesis by (auto simp: o_def intro!: map_of_is_SomeI)
next
  case False
  then have "gm_Name m \<notin> gm_Name ` set (filter P ms)"
    using that assms(2) by (auto simp: distinct_map inj_on_def)
  with False assms(1) show ?thesis by (auto simp: map_of_eq_None_iff image_iff)
qed

lemma build_generated:
  fixes srv :: "('m, 'w) server"
  assumes "check_service svc = None" "distinct (map gm_Name (gs_Methods svc))"
  obtains s where "build_service cfg (contract_of svc) (generated_desc nm cx svc srv) po = Inr s"
    "sv_cfg s = cfg" "sv_contract s = contract_of svc" "sv_opts s = po"
    "sv_name s = (if sp_instance po \<noteq> [] then gs_FullName svc @ dot # sp_instance po else gs_FullName svc)"
    "sv_unaryIC s = chainUnary (sp_unaryInterceptors po)"
    "\<And>m. m \<in> set (gs_Methods svc) \<Longrightarrow> sv_unary s (gm_Name m) = (if gm_StreamingServer m then None else Some (generated_unary svc srv m))"
    "\<And>m. m \<in> set (gs_Methods svc) \<Longrightarrow> sv_streams s (gm_Name m) = (if gm_StreamingServer m then Some (generated_stream cx svc srv m) else None)"
proof -
  let ?d = "generated_desc nm cx svc srv"
  note none = assms(1) [unfolded check_service_None]
  have "add_methods (contract_of svc) (de_ServiceName ?d) (de_Methods ?d) Map.empty =
      Inr (Map.empty ++ map_of (map (\<lambda>m. (md_MethodName m, m)) (de_Methods ?d)))"
    using none contract_method [OF assms(2)] distinct_map_filter [OF assms(2)]
    by (intro add_methods_all) (auto simp: generated_desc_def generated_unary_def o_def)
  moreover have "add_streams (contract_of svc) (de_ServiceName ?d) (de_Streams ?d) Map.empty =
      Inr (Map.empty ++ map_of (map (\<lambda>m. (sd_MethodName m, m)) (de_Streams ?d)))"
    using none contract_method [OF assms(2)] distinct_map_filter [OF assms(2)]
    by (intro add_streams_all) (auto simp: generated_desc_def generated_stream_def o_def)
  moreover have "map_of (map (\<lambda>m. (md_MethodName m, m)) (de_Methods ?d)) (gm_Name m) =
      (if gm_StreamingServer m then None else Some (generated_unary svc srv m))" if "m \<in> set (gs_Methods svc)" for m
    using generated_table [of md_MethodName "generated_unary svc srv", OF _ assms(2) that]
    by (simp add: generated_desc_def generated_unary_def del: map_map)
  moreover have "map_of (map (\<lambda>m. (sd_MethodName m, m)) (de_Streams ?d)) (gm_Name m) =
      (if gm_StreamingServer m then Some (generated_stream cx svc srv m) else None)" if "m \<in> set (gs_Methods svc)" for m
    using generated_table [of sd_MethodName "generated_stream cx svc srv", OF _ assms(2) that]
    by (simp add: generated_desc_def generated_stream_def del: map_map)
  moreover have "de_ServiceName ?d = gs_FullName svc" by (simp add: generated_desc_def)
  ultimately show thesis
    by (intro that [of "\<lparr>sv_cfg = cfg, sv_contract = contract_of svc,
           sv_name = (if sp_instance po \<noteq> '''' then gs_FullName svc @ ''.'' @ sp_instance po else gs_FullName svc),
           sv_opts = po, sv_unary = map_of (map (\<lambda>m. (md_MethodName m, m)) (de_Methods ?d)),
           sv_streams = map_of (map (\<lambda>m. (sd_MethodName m, m)) (de_Streams ?d)),
           sv_unaryIC = chainUnary (sp_unaryInterceptors po), sv_streamIC = chainStream (sp_streamInterceptors po)\<rparr>"])
      (simp_all add: build_service_def Let_def)
qed

text \<open>A generated handler on a request that decodes, behind any interceptors.\<close>

lemma generated_handler:
  assumes "dec (gm_Input m) = Inr x"
  shows "md_Handler (generated_unary svc srv m) info dec (chainUnary ics) w =
    nest_unary ics (full_name svc m) (srv_unary srv (gm_GoName m)) info x w"
  using assms chainUnary_nests [of ics]
  by (cases "chainUnary ics") (auto simp: generated_unary_def nest_unary_def)

lemma generated_reply:
  fixes srv :: "('m, 'w) server"
  assumes "protowire_laws (lb_pw (cd_lib C))" "check_service svc = None" "distinct (map gm_Name (gs_Methods svc))"
    and m: "m \<in> set (gs_Methods svc)" "\<not> gm_StreamingServer m" "gm_Name m \<noteq> []" "dot \<notin> set (gm_Name m)" "gs_FullName svc \<noteq> []"
    and reg: "Register L cfg files (Some (generated_desc nm cx svc srv)) pimpl sopts = Inr s"
      "files (gs_FullName svc) = Some (Svc (contract_of svc))"
    and rq: "rq = \<lparr>req_Method = full_name svc m, req_Actor = actor, req_Data = data\<rparr>"
      "utf8_valid (full_name svc m)" "utf8_valid actor" "length (AppendRequest (lb_pw (cd_lib C)) [] rq) < 2 ^ 63"
    and d: "d_RoutingKey d = ''REQUEST.'' @ sv_name s @ ''.'' @ gm_Name m" "d_Body d = AppendRequest (lb_pw (cd_lib C)) [] rq"
    and x: "cd_unmarshal C (gm_Input m) data = Inr x"
    and run: "nest_unary (sp_unaryInterceptors (sv_opts s)) (full_name svc m) (srv_unary srv (gm_GoName m)) (call_info C rq d) x w = (outcome, w1)"
  shows "handle E C cc pub s d w h = Some (unary_reply C s (full_name svc m) outcome, w1, h)"
proof -
  obtain o1 :: "('m, 'w) serviceOptions" where "build_service cfg (contract_of svc) (generated_desc nm cx svc srv) o1 = Inr s"
    using reg by (auto simp: Register_def Let_def generated_desc_def split: option.splits)
  moreover obtain s1 where "build_service cfg (contract_of svc) (generated_desc nm cx svc srv) o1 = Inr s1"
    and "sv_contract s1 = contract_of svc" "sv_opts s1 = o1" "sv_unaryIC s1 = chainUnary (sp_unaryInterceptors o1)"
      "sv_unary s1 (gm_Name m) = Some (generated_unary svc srv m)"
    using m(1,2) by (rule_tac build_generated [where cfg = cfg and nm = nm and cx = cx and srv = srv and po = o1, OF assms(2,3)]) simp
  ultimately have s: "sv_contract s = contract_of svc" "sv_unaryIC s = chainUnary (sp_unaryInterceptors (sv_opts s))"
      "sv_unary s (gm_Name m) = Some (generated_unary svc srv m)" by simp_all
  have "full_name svc m = Contract s @ dot # gm_Name m" "Contract s \<noteq> []"
    using m(5) s(1) by (simp_all add: full_name_def Contract_def contract_of_def)
  moreover have "md_Handler (generated_unary svc srv m) (call_info C rq d) (decode_func C rq) (sv_unaryIC s) w = (outcome, w1)"
    using x run rq(1) s(2) by (simp add: generated_handler decode_func_def)
  ultimately show ?thesis
    using handle_unary_own [OF assms(1), of s "gm_Name m" actor rq data] assms m rq d s contract_method [OF assms(3) m(1)]
    by simp
qed

section \<open>Properties\<close>

text \<open>
  C24. The generator and \<open>Register\<close> agree. If the generator emits bindings for a service whose
  contract is in the registry, then with valid options and an implementation of the
  generated interface \<open>Register\<close> accepts the generated descriptor, and the service serves
  exactly the methods of the contract: each unary method by its unary handler, each
  streaming method by its stream handler, and nothing else.
\<close>

theorem generated_service_registers:
  fixes srv :: "('m, 'w) server"
  assumes "GenerateFileWith svcs = Inr (Some emitted)" "svc \<in> set emitted" "distinct (map gm_Name (gs_Methods svc))"
    and "files (gs_FullName svc) = Some (Svc (contract_of svc))"
    and "im_Implements impl (gs_GoName svc @ nm @ ''Server'')"
    and "validate_service L (fold applyService opts (default_service_options cfg)) = None"
  shows "\<exists>s. Register L cfg files (Some (generated_desc nm cx svc srv)) (Some impl) opts = Inr s \<and>
    (\<forall>m \<in> set (gs_Methods svc).
       sv_unary s (gm_Name m) = (if gm_StreamingServer m then None else Some (generated_unary svc srv m)) \<and>
       sv_streams s (gm_Name m) = (if gm_StreamingServer m then Some (generated_stream cx svc srv m) else None)) \<and>
    dom (sv_unary s) \<union> dom (sv_streams s) = gm_Name ` set (gs_Methods svc)"
proof -
  let ?o = "fold applyService opts (default_service_options cfg) :: ('m, 'w) serviceOptions"
  have "check_service svc = None"
    using assms(1,2) by (auto simp: GenerateFileWith_def check_services_None split: if_splits option.splits)
  then obtain s where s: "build_service cfg (contract_of svc) (generated_desc nm cx svc srv) ?o = Inr s"
      "sv_contract s = contract_of svc"
    and tables: "\<And>m. m \<in> set (gs_Methods svc) \<Longrightarrow> sv_unary s (gm_Name m) = (if gm_StreamingServer m then None else Some (generated_unary svc srv m))"
      "\<And>m. m \<in> set (gs_Methods svc) \<Longrightarrow> sv_streams s (gm_Name m) = (if gm_StreamingServer m then Some (generated_stream cx svc srv m) else None)"
    by (rule build_generated [where cfg = cfg and nm = nm and cx = cx and srv = srv and po = ?o, OF _ assms(3)]) blast
  have reg: "Register L cfg files (Some (generated_desc nm cx svc srv)) (Some impl) opts = Inr s"
    using assms(4-6) s(1) by (simp add: Register_def Let_def check_impl_def generated_desc_def)
  have "dom (sv_unary s) \<union> dom (sv_streams s) \<subseteq> dom (ds_Methods (contract_of svc))"
    using Register_ok [OF reg] s(2) unfolding service_ok_def by (metis (no_types, lifting) Un_least domD domI subsetI)
  also have "\<dots> = gm_Name ` set (gs_Methods svc)"
    by (simp add: contract_of_def dom_map_of_conv_image_fst image_image)
  finally have "dom (sv_unary s) \<union> dom (sv_streams s) \<subseteq> gm_Name ` set (gs_Methods svc)" .
  moreover have "gm_Name m \<in> dom (sv_unary s) \<union> dom (sv_streams s)" if "m \<in> set (gs_Methods svc)" for m
    using tables [OF that] by (cases "gm_StreamingServer m") auto
  ultimately show ?thesis using reg tables by blast
qed

text \<open>The bindings of the service of theory \<open>Service\<close>, with a stream beside its unary method.\<close>

definition demo_method :: gen_method where
  "demo_method =
     \<lparr>gm_GoName = ''Reverse'', gm_Name = ''reverse'', gm_Input = ''Text'', gm_Output = ''Text'',
      gm_StreamingServer = False, gm_StreamingClient = False\<rparr>"

definition demo_stream :: gen_method where
  "demo_stream =
     \<lparr>gm_GoName = ''Letters'', gm_Name = ''letters'', gm_Input = ''Text'', gm_Output = ''Text'',
      gm_StreamingServer = True, gm_StreamingClient = False\<rparr>"

definition demo_gen :: gen_service where
  "demo_gen = \<lparr>gs_GoName = ''Text'', gs_FullName = ''demo.Text'', gs_Methods = [demo_method, demo_stream]\<rparr>"

definition demo_server :: "(bytes, nat) server" where
  "demo_server =
     (unimplemented None)\<lparr>srv_unary := \<lambda>_ _ m n.
        (if m = [] then Inl (NewHandledError ''EMPTY'' ''nothing to reverse'') else Inr (Some (rev m)), n + 1)\<rparr>"

definition demo_files :: "string \<rightharpoonup> descriptor" where
  "demo_files = [''demo.Text'' \<mapsto> Svc (contract_of demo_gen)]"

definition demo_impl :: implementation where
  "demo_impl = \<lparr>im_type = ''*server'', im_Implements = \<lambda>i. i = ''TextServer''\<rparr>"

theorem generated_service_registers_witness:
  "\<exists>s. Register (cd_lib demo_codec) DefaultConfig demo_files
      (Some (generated_desc '''' None demo_gen demo_server)) (Some demo_impl) [ServiceWithInstance ''a''] = Inr s \<and>
    sv_unary s ''reverse'' \<noteq> None \<and> sv_streams s ''letters'' \<noteq> None \<and> sv_unary s ''letters'' = None"
  using generated_service_registers [of "[demo_gen]" "[demo_gen]" demo_gen demo_files demo_impl "''''"
      "cd_lib demo_codec" "[ServiceWithInstance ''a'']" DefaultConfig None demo_server]
  by (auto simp: GenerateFileWith_def check_service_def checkNameClashes_def demo_gen_def demo_method_def demo_stream_def
      demo_files_def demo_impl_def validate_service_def default_service_options_def DefaultConfig_def
      DefaultRetryPolicy_def Second_def validInstance_def contains_any_def routing_specials_def)

end
