(* ===== verification/Workers.thy ===== *)
theory Workers imports Consumer begin

text \<open>
  The goroutines behind a consumer, \<open>consumer.go\<close> around \<open>process\<close>: the loop that receives
  deliveries, the goroutine and the handler goroutine of each delivery, the semaphore that
  bounds handlers, the in-flight counts a drain waits for (\<open>bus.go\<close>) and the registry through
  which a caller's cancel notice reaches its handlers (\<open>cancel.go\<close>). What a delivery does on
  the wire is theory \<open>Consumer\<close>; here each critical section is one step and the steps of all
  goroutines of a process interleave freely. Timers fire and handlers return at any time.
\<close>

section \<open>Model\<close>

subsection \<open>In-flight counts\<close>

text \<open>
  \<open>inflight\<close>. The channels \<open>zero\<close> was ever set to are numbered; \<open>fl_closed\<close> are the closed
  ones. \<open>fl_panic\<close> records a \<open>close\<close> of a nil or closed channel, which panics.
\<close>

record inflight =
  fl_n :: int
  fl_zero :: "nat option"
  fl_made :: nat
  fl_closed :: "nat list"
  fl_panic :: bool

definition new_inflight :: inflight where
  "new_inflight = \<lparr>fl_n = 0, fl_zero = None, fl_made = 0, fl_closed = [], fl_panic = False\<rparr>"

definition inflight_add :: "inflight \<Rightarrow> inflight" where
  "inflight_add f =
     (let f1 = (if fl_n f = 0 then f\<lparr>fl_zero := Some (fl_made f), fl_made := fl_made f + 1\<rparr> else f)
      in f1\<lparr>fl_n := fl_n f1 + 1\<rparr>)"

definition inflight_done :: "inflight \<Rightarrow> inflight" where
  "inflight_done f =
     (let f1 = f\<lparr>fl_n := fl_n f - 1\<rparr>
      in if fl_n f1 = 0
         then (case fl_zero f1 of
                 None \<Rightarrow> f1\<lparr>fl_panic := True\<rparr>
               | Some z \<Rightarrow>
                   if z \<in> set (fl_closed f1) then f1\<lparr>fl_panic := True\<rparr>
                   else f1\<lparr>fl_closed := z # fl_closed f1\<rparr>)
         else f1)"

text \<open>The first half of \<open>wait\<close>: return at once, or wait for a channel.\<close>

definition inflight_wait :: "inflight \<Rightarrow> nat option" where
  "inflight_wait f = (if fl_n f = 0 then None else fl_zero f)"

subsection \<open>The cancel registry\<close>

text \<open>
  \<open>cancelRegistry\<close>: the entries of each correlation id, an entry's identity and the delivery
  whose context it cancels. \<open>add\<close> returns a function that removes the entry; for an empty id
  it does nothing.
\<close>

record cancelRegistry =
  cr_m :: "string \<rightharpoonup> (nat \<times> nat) list"
  cr_next :: nat

datatype remover = NoRemove | Remove string nat

definition newCancelRegistry :: cancelRegistry where
  "newCancelRegistry = \<lparr>cr_m = Map.empty, cr_next = 0\<rparr>"

definition entries_of :: "cancelRegistry \<Rightarrow> string \<Rightarrow> (nat \<times> nat) list" where
  "entries_of r cid = (case cr_m r cid of None \<Rightarrow> [] | Some es \<Rightarrow> es)"

definition registry_add :: "string \<Rightarrow> nat \<Rightarrow> cancelRegistry \<Rightarrow> remover \<times> cancelRegistry" where
  "registry_add cid k r =
     (if cid = '''' then (NoRemove, r)
      else (Remove cid (cr_next r),
            r\<lparr>cr_m := (cr_m r)(cid \<mapsto> entries_of r cid @ [(cr_next r, k)]), cr_next := cr_next r + 1\<rparr>))"

fun registry_remove :: "remover \<Rightarrow> cancelRegistry \<Rightarrow> cancelRegistry" where
  "registry_remove NoRemove r = r"
| "registry_remove (Remove cid e) r =
     (case cr_m r cid of
        None \<Rightarrow> r
      | Some es \<Rightarrow>
          (let es1 = filter (\<lambda>x. fst x \<noteq> e) es
           in r\<lparr>cr_m := (cr_m r)(cid := (if es1 = [] then None else Some es1))\<rparr>))"

definition registry_size :: "cancelRegistry \<Rightarrow> nat" where
  "registry_size r = card (dom (cr_m r))"

subsection \<open>Goroutines\<close>

text \<open>
  Where the goroutine of a delivery is. It waits for a slot in the loop's hands (\<open>PWait\<close>),
  has its slot (\<open>PStart\<close>), was acknowledged early (\<open>PAcked\<close>), is among the active handlers and
  about to start the handler (\<open>PLaunch\<close>), waits for it with the timer running (\<open>PRun\<close>) or
  disarmed (\<open>PFree\<close>), has a result to settle (\<open>PSettle\<close>); then \<open>process\<close> returns through its
  deferred calls: \<open>release\<close> in two sections, the end of the active entry, the end of the
  context; at last it is uncounted, waits for the handler, frees the slot and is done.
  \<open>PDropped\<close>: the loop let it go.
\<close>

datatype dphase =
    PWait nat | PStart | PAcked | PLaunch | PRun | PFree | PSettle
  | PRelease | PUnlisten remover | PInactive | PContext | PCount | PSlot | PDone | PDropped

datatype hphase = HNot | HRun | HSent | HCounted | HExit

datatype ending = Unended | NotRun | ByCaller | Gone | Settled

record delivery_run =
  dl_cons :: nat
  dl_id :: string
  dl_phase :: dphase
  dl_handler :: hphase
  dl_cause :: "err option"
  dl_released :: bool
  dl_unlisten :: "remover option"
  dl_disarmed :: bool
  dl_ending :: ending

record worker =
  wk_spec :: consumerSpec
  wk_sem :: nat
  wk_active :: "nat list"

datatype lphase = LRecv | LHold nat | LEnd

record loop_run =
  lo_cons :: nat
  lo_phase :: lphase
  lo_stop :: bool

datatype drain = DrStart | DrDeliveries nat | DrBetween | DrHandlers nat | DrOk | DrErr

text \<open>
  All of it. \<open>bw_cancels\<close> are the calls of cancel functions collected under a lock and not
  made yet; \<open>bw_ended\<close> says the session's context has ended; \<open>bw_notices\<close> are the correlation
  ids of the cancel notices received so far.
\<close>

record bus_work =
  bw_deliveries :: inflight
  bw_handlers :: inflight
  bw_registry :: cancelRegistry
  bw_consumers :: "worker list"
  bw_loops :: "loop_run list"
  bw_dels :: "delivery_run list"
  bw_cancels :: "(nat \<times> err) list"
  bw_ended :: bool
  bw_drains :: "drain list"
  bw_notices :: "string list"

definition bus_start :: bus_work where
  "bus_start =
     \<lparr>bw_deliveries = new_inflight, bw_handlers = new_inflight, bw_registry = newCancelRegistry,
      bw_consumers = [], bw_loops = [], bw_dels = [], bw_cancels = [], bw_ended = False,
      bw_drains = [], bw_notices = []\<rparr>"

definition on_del :: "nat \<Rightarrow> (delivery_run \<Rightarrow> delivery_run) \<Rightarrow> bus_work \<Rightarrow> bus_work" where
  "on_del k f s = s\<lparr>bw_dels := (bw_dels s)[k := f (bw_dels s ! k)]\<rparr>"

definition on_worker :: "nat \<Rightarrow> (worker \<Rightarrow> worker) \<Rightarrow> bus_work \<Rightarrow> bus_work" where
  "on_worker c f s = s\<lparr>bw_consumers := (bw_consumers s)[c := f (bw_consumers s ! c)]\<rparr>"

definition on_loop :: "nat \<Rightarrow> (loop_run \<Rightarrow> loop_run) \<Rightarrow> bus_work \<Rightarrow> bus_work" where
  "on_loop l f s = s\<lparr>bw_loops := (bw_loops s)[l := f (bw_loops s ! l)]\<rparr>"

definition has_sem :: "worker \<Rightarrow> bool" where
  "has_sem w \<longleftrightarrow> cs_concurrency (wk_spec w) > 0"

definition worker_of :: "bus_work \<Rightarrow> nat \<Rightarrow> worker" where
  "worker_of s k = bw_consumers s ! dl_cons (bw_dels s ! k)"

definition at :: "bus_work \<Rightarrow> nat \<Rightarrow> dphase \<Rightarrow> bool" where
  "at s k p \<longleftrightarrow> k < length (bw_dels s) \<and> dl_phase (bw_dels s ! k) = p"

definition handler_at :: "bus_work \<Rightarrow> nat \<Rightarrow> hphase \<Rightarrow> bool" where
  "handler_at s k p \<longleftrightarrow> k < length (bw_dels s) \<and> dl_handler (bw_dels s ! k) = p"

definition goto :: "dphase \<Rightarrow> delivery_run \<Rightarrow> delivery_run" where
  "goto p d = d\<lparr>dl_phase := p\<rparr>"

text \<open>A context keeps the first cause it is cancelled with.\<close>

definition cancel_ctx :: "err \<Rightarrow> delivery_run \<Rightarrow> delivery_run" where
  "cancel_ctx e d = (case dl_cause d of None \<Rightarrow> d\<lparr>dl_cause := Some e\<rparr> | Some _ \<Rightarrow> d)"

subsection \<open>The loop\<close>

definition new_delivery :: "nat \<Rightarrow> string \<Rightarrow> dphase \<Rightarrow> delivery_run" where
  "new_delivery c cid p =
     \<lparr>dl_cons = c, dl_id = cid, dl_phase = p, dl_handler = HNot, dl_cause = None, dl_released = False,
      dl_unlisten = None, dl_disarmed = False, dl_ending = Unended\<rparr>"

definition loop_receive :: "nat \<Rightarrow> string \<Rightarrow> bus_work \<Rightarrow> bus_work" where
  "loop_receive l cid s =
     (let c = lo_cons (bw_loops s ! l);
          k = length (bw_dels s);
          waits = has_sem (bw_consumers s ! c);
          s1 = s\<lparr>bw_deliveries := inflight_add (bw_deliveries s),
                 bw_dels := bw_dels s @ [new_delivery c cid (if waits then PWait l else PStart)]\<rparr>
      in if waits then on_loop l (\<lambda>r. r\<lparr>lo_phase := LHold k\<rparr>) s1 else s1)"

definition loop_acquire :: "nat \<Rightarrow> nat \<Rightarrow> bus_work \<Rightarrow> bus_work" where
  "loop_acquire l k s =
     on_loop l (\<lambda>r. r\<lparr>lo_phase := LRecv\<rparr>)
       (on_worker (lo_cons (bw_loops s ! l)) (\<lambda>w. w\<lparr>wk_sem := wk_sem w + 1\<rparr>) (on_del k (goto PStart) s))"

definition loop_let_go :: "nat \<Rightarrow> nat \<Rightarrow> bus_work \<Rightarrow> bus_work" where
  "loop_let_go l k s =
     (on_loop l (\<lambda>r. r\<lparr>lo_phase := LRecv\<rparr>) (on_del k (goto PDropped) s))
       \<lparr>bw_deliveries := inflight_done (bw_deliveries s)\<rparr>"

subsection \<open>Deliveries\<close>

definition begin_process :: "nat \<Rightarrow> bus_work \<Rightarrow> bus_work" where
  "begin_process k s =
     on_worker (dl_cons (bw_dels s ! k)) (\<lambda>w. w\<lparr>wk_active := wk_active w @ [k]\<rparr>)
       (on_del k (\<lambda>d. d\<lparr>dl_phase := PLaunch, dl_cause := (if bw_ended s then Some (Sentinel ctxCanceled) else None)\<rparr>) s)"

definition launch :: "nat \<Rightarrow> bus_work \<Rightarrow> bus_work" where
  "launch k s =
     (on_del k (\<lambda>d. d\<lparr>dl_phase := PRun, dl_handler := HRun\<rparr>) s)\<lparr>bw_handlers := inflight_add (bw_handlers s)\<rparr>"

definition cancellable :: "nat \<Rightarrow> bus_work \<Rightarrow> bus_work" where
  "cancellable k s =
     (let d = bw_dels s ! k
      in if dl_released d \<or> dl_unlisten d \<noteq> None then s
         else let (rm, r) = registry_add (dl_id d) k (bw_registry s)
              in (on_del k (\<lambda>d. d\<lparr>dl_unlisten := Some rm\<rparr>) s)\<lparr>bw_registry := r\<rparr>)"

definition release :: "nat \<Rightarrow> bus_work \<Rightarrow> bus_work" where
  "release k s =
     on_del k (\<lambda>d. d\<lparr>dl_released := True, dl_unlisten := None,
       dl_phase := (case dl_unlisten d of None \<Rightarrow> PInactive | Some rm \<Rightarrow> PUnlisten rm)\<rparr>) s"

definition unlisten :: "nat \<Rightarrow> remover \<Rightarrow> bus_work \<Rightarrow> bus_work" where
  "unlisten k rm s = (on_del k (goto PInactive) s)\<lparr>bw_registry := registry_remove rm (bw_registry s)\<rparr>"

definition time_out :: "nat \<Rightarrow> bus_work \<Rightarrow> bus_work" where
  "time_out k s =
     on_del k (\<lambda>d. goto PSettle (cancel_ctx (ProcessingTimeout (dl_id d) (cs_timeout (wk_spec (worker_of s k)))) d)) s"

definition ending_of :: "err option \<Rightarrow> ending" where
  "ending_of cause =
     (case cause of
        None \<Rightarrow> Settled
      | Some e \<Rightarrow>
          if errors_is e ErrCancelled then ByCaller
          else if errors_is e ErrDisconnected \<or> errors_is e ErrClosed then Gone
          else Settled)"

definition leave_active :: "nat \<Rightarrow> bus_work \<Rightarrow> bus_work" where
  "leave_active k s =
     on_worker (dl_cons (bw_dels s ! k)) (\<lambda>w. w\<lparr>wk_active := removeAll k (wk_active w)\<rparr>) (on_del k (goto PContext) s)"

definition free_slot :: "nat \<Rightarrow> bus_work \<Rightarrow> bus_work" where
  "free_slot k s =
     on_worker (dl_cons (bw_dels s ! k)) (\<lambda>w. if has_sem w then w\<lparr>wk_sem := wk_sem w - 1\<rparr> else w) (on_del k (goto PDone) s)"

subsection \<open>Cancelling\<close>

definition cancelActive :: "nat \<Rightarrow> err \<Rightarrow> bus_work \<Rightarrow> bus_work" where
  "cancelActive c e s = s\<lparr>bw_cancels := bw_cancels s @ map (\<lambda>k. (k, e)) (wk_active (bw_consumers s ! c))\<rparr>"

definition connectionLost :: "nat \<Rightarrow> bus_work \<Rightarrow> bus_work" where
  "connectionLost c s =
     (if cs_lateAck (wk_spec (bw_consumers s ! c)) then cancelActive c (Sentinel ErrDisconnected) s else s)"

definition handle_notice :: "string \<Rightarrow> bus_work \<Rightarrow> bus_work" where
  "handle_notice cid s =
     (let s1 = s\<lparr>bw_notices := cid # bw_notices s\<rparr>
      in if cid = '''' then s1
         else s1\<lparr>bw_cancels := bw_cancels s @ map (\<lambda>(e, k). (k, Sentinel ErrCancelled)) (entries_of (bw_registry s) cid)\<rparr>)"

definition has_context :: "dphase \<Rightarrow> bool" where
  "has_context p \<longleftrightarrow> (case p of PWait _ \<Rightarrow> False | PStart \<Rightarrow> False | PAcked \<Rightarrow> False | PDropped \<Rightarrow> False | _ \<Rightarrow> True)"

definition end_session :: "bus_work \<Rightarrow> bus_work" where
  "end_session s =
     s\<lparr>bw_ended := True,
       bw_dels := map (\<lambda>d. if has_context (dl_phase d) then cancel_ctx (Sentinel ctxCanceled) d else d) (bw_dels s)\<rparr>"

subsection \<open>Draining\<close>

definition drain_step :: "bool \<Rightarrow> nat \<Rightarrow> bus_work \<Rightarrow> drain option" where
  "drain_step ctx_ended i s =
     (case bw_drains s ! i of
        DrStart \<Rightarrow> Some (case inflight_wait (bw_deliveries s) of None \<Rightarrow> DrBetween | Some z \<Rightarrow> DrDeliveries z)
      | DrDeliveries z \<Rightarrow>
          if ctx_ended then Some DrErr
          else if z \<in> set (fl_closed (bw_deliveries s)) then Some DrBetween else None
      | DrBetween \<Rightarrow> Some (case inflight_wait (bw_handlers s) of None \<Rightarrow> DrOk | Some z \<Rightarrow> DrHandlers z)
      | DrHandlers z \<Rightarrow>
          if ctx_ended then Some DrErr
          else if z \<in> set (fl_closed (bw_handlers s)) then Some DrOk else None
      | _ \<Rightarrow> None)"

definition InFlight :: "bus_work \<Rightarrow> int" where
  "InFlight s = max (fl_n (bw_deliveries s)) (fl_n (bw_handlers s))"

subsection \<open>Steps\<close>

datatype act =
    ANewConsumer consumerSpec | ALoop nat | AReceive nat string | AAcquire nat | ALetGo nat | AEnd nat | AStop nat
  | AEarlyAck nat bool | ABegin nat | ALaunch nat
  | ACancellable nat | ADisarm nat | AReturn nat | AUncount nat | AExit nat
  | AResult nat | ASeeDisarm nat | ATimeout nat | ASettle nat
  | ARelease nat | AUnlisten nat | AInactive nat | AContext nat | ADone nat | AFree nat
  | ALost nat | AClose nat | ANotice string | ACancel nat | AEndSession
  | ADrain | ADrainStep nat bool

definition guarded :: "bool \<Rightarrow> 'a \<Rightarrow> 'a option" where
  "guarded b x = (if b then Some x else None)"

fun wstep :: "act \<Rightarrow> bus_work \<Rightarrow> bus_work option" where
  "wstep (ANewConsumer spec) s =
     Some (s\<lparr>bw_consumers := bw_consumers s @ [\<lparr>wk_spec = spec, wk_sem = 0, wk_active = []\<rparr>]\<rparr>)"
| "wstep (ALoop c) s =
     guarded (c < length (bw_consumers s))
       (s\<lparr>bw_loops := bw_loops s @ [\<lparr>lo_cons = c, lo_phase = LRecv, lo_stop = False\<rparr>]\<rparr>)"
| "wstep (AReceive l cid) s = guarded (l < length (bw_loops s) \<and> lo_phase (bw_loops s ! l) = LRecv) (loop_receive l cid s)"
| "wstep (AAcquire l) s =
     (if l < length (bw_loops s) then
        (case lo_phase (bw_loops s ! l) of
           LHold k \<Rightarrow>
             let w = bw_consumers s ! lo_cons (bw_loops s ! l)
             in guarded (int (wk_sem w) < cs_concurrency (wk_spec w)) (loop_acquire l k s)
         | _ \<Rightarrow> None)
      else None)"
| "wstep (ALetGo l) s =
     (if l < length (bw_loops s) then
        (case lo_phase (bw_loops s ! l) of
           LHold k \<Rightarrow> guarded (lo_stop (bw_loops s ! l)) (loop_let_go l k s)
         | _ \<Rightarrow> None)
      else None)"
| "wstep (AEnd l) s =
     guarded (l < length (bw_loops s) \<and> lo_phase (bw_loops s ! l) = LRecv) (on_loop l (\<lambda>r. r\<lparr>lo_phase := LEnd\<rparr>) s)"
| "wstep (AStop l) s = guarded (l < length (bw_loops s)) (on_loop l (\<lambda>r. r\<lparr>lo_stop := True\<rparr>) s)"
| "wstep (AEarlyAck k ok) s =
     guarded (at s k PStart \<and> \<not> cs_lateAck (wk_spec (worker_of s k)))
       (on_del k (\<lambda>d. if ok then goto PAcked d else d\<lparr>dl_phase := PCount, dl_ending := NotRun\<rparr>) s)"
| "wstep (ABegin k) s =
     guarded (at s k PAcked \<or> at s k PStart \<and> cs_lateAck (wk_spec (worker_of s k))) (begin_process k s)"
| "wstep (ALaunch k) s = guarded (at s k PLaunch) (launch k s)"
| "wstep (ACancellable k) s = guarded (handler_at s k HRun) (cancellable k s)"
| "wstep (ADisarm k) s = guarded (handler_at s k HRun) (on_del k (\<lambda>d. d\<lparr>dl_disarmed := True\<rparr>) s)"
| "wstep (AReturn k) s = guarded (handler_at s k HRun) (on_del k (\<lambda>d. d\<lparr>dl_handler := HSent\<rparr>) s)"
| "wstep (AUncount k) s =
     guarded (handler_at s k HSent)
       ((on_del k (\<lambda>d. d\<lparr>dl_handler := HCounted\<rparr>) s)\<lparr>bw_handlers := inflight_done (bw_handlers s)\<rparr>)"
| "wstep (AExit k) s = guarded (handler_at s k HCounted) (on_del k (\<lambda>d. d\<lparr>dl_handler := HExit\<rparr>) s)"
| "wstep (AResult k) s =
     guarded ((at s k PRun \<or> at s k PFree) \<and> dl_handler (bw_dels s ! k) \<in> {HSent, HCounted, HExit}) (on_del k (goto PSettle) s)"
| "wstep (ASeeDisarm k) s =
     guarded (at s k PRun \<and> cs_timeout (wk_spec (worker_of s k)) > 0 \<and> dl_disarmed (bw_dels s ! k)) (on_del k (goto PFree) s)"
| "wstep (ATimeout k) s = guarded (at s k PRun \<and> cs_timeout (wk_spec (worker_of s k)) > 0) (time_out k s)"
| "wstep (ASettle k) s =
     guarded (at s k PSettle) (on_del k (\<lambda>d. d\<lparr>dl_phase := PRelease, dl_ending := ending_of (dl_cause d)\<rparr>) s)"
| "wstep (ARelease k) s = guarded (at s k PRelease) (release k s)"
| "wstep (AUnlisten k) s =
     (if k < length (bw_dels s) then
        (case dl_phase (bw_dels s ! k) of PUnlisten rm \<Rightarrow> Some (unlisten k rm s) | _ \<Rightarrow> None)
      else None)"
| "wstep (AInactive k) s = guarded (at s k PInactive) (leave_active k s)"
| "wstep (AContext k) s =
     guarded (at s k PContext) (on_del k (\<lambda>d. goto PCount (cancel_ctx (Sentinel ctxCanceled) d)) s)"
| "wstep (ADone k) s =
     guarded (at s k PCount) ((on_del k (goto PSlot) s)\<lparr>bw_deliveries := inflight_done (bw_deliveries s)\<rparr>)"
| "wstep (AFree k) s =
     guarded (at s k PSlot \<and> dl_handler (bw_dels s ! k) \<in> {HNot, HExit}) (free_slot k s)"
| "wstep (ALost c) s = guarded (c < length (bw_consumers s)) (connectionLost c s)"
| "wstep (AClose c) s = guarded (c < length (bw_consumers s)) (cancelActive c (Sentinel ErrClosed) s)"
| "wstep (ANotice cid) s = Some (handle_notice cid s)"
| "wstep (ACancel i) s =
     guarded (i < length (bw_cancels s))
       ((on_del (fst (bw_cancels s ! i)) (cancel_ctx (snd (bw_cancels s ! i))) s)
          \<lparr>bw_cancels := take i (bw_cancels s) @ drop (Suc i) (bw_cancels s)\<rparr>)"
| "wstep AEndSession s = Some (end_session s)"
| "wstep ADrain s = Some (s\<lparr>bw_drains := bw_drains s @ [DrStart]\<rparr>)"
| "wstep (ADrainStep i ctx_ended) s =
     (if i < length (bw_drains s)
      then map_option (\<lambda>d. s\<lparr>bw_drains := (bw_drains s)[i := d]\<rparr>) (drain_step ctx_ended i s)
      else None)"

fun wsteps :: "act list \<Rightarrow> bus_work \<Rightarrow> bus_work option" where
  "wsteps [] s = Some s"
| "wsteps (a # as) s = (case wstep a s of None \<Rightarrow> None | Some s1 \<Rightarrow> wsteps as s1)"

section \<open>Counts and slots\<close>

definition num :: "('a \<Rightarrow> bool) \<Rightarrow> 'a list \<Rightarrow> nat" where
  "num P xs = length (filter P xs)"

lemma num_update:
  "k < length xs \<Longrightarrow> num P (xs[k := v]) + (if P (xs ! k) then 1 else 0) = num P xs + (if P v then 1 else 0)"
proof (induction xs arbitrary: k)
  case (Cons x xs)
  then show ?case by (cases k) (auto simp: num_def)
qed simp

lemma num_same: "k < length xs \<Longrightarrow> P v = P (xs ! k) \<Longrightarrow> num P (xs[k := v]) = num P xs"
  using num_update [of k xs P v] by (simp split: if_splits)

lemma num_gain: "k < length xs \<Longrightarrow> \<not> P (xs ! k) \<Longrightarrow> P v \<Longrightarrow> num P (xs[k := v]) = Suc (num P xs)"
  using num_update [of k xs P v] by simp

lemma num_lose: "k < length xs \<Longrightarrow> P (xs ! k) \<Longrightarrow> \<not> P v \<Longrightarrow> num P xs = Suc (num P (xs[k := v]))"
  using num_update [of k xs P v] by simp

lemma num_snoc: "num P (xs @ [x]) = (if P x then Suc (num P xs) else num P xs)"
  by (simp add: num_def)

lemma num_map: "(\<And>x. P (g x) = P x) \<Longrightarrow> num P (map g xs) = num P xs"
  by (simp add: num_def filter_map o_def)

lemma num_zero: "num P xs = 0 \<longleftrightarrow> (\<forall>x \<in> set xs. \<not> P x)"
  by (simp add: num_def filter_empty_conv)

text \<open>
  An in-flight count of \<open>m\<close>: every channel ever made is closed when \<open>m\<close> is zero, and every
  one but the current otherwise.
\<close>

definition inflight_ok :: "inflight \<Rightarrow> nat \<Rightarrow> bool" where
  "inflight_ok f m \<longleftrightarrow>
     fl_n f = int m \<and> \<not> fl_panic f \<and>
     (if m = 0 then set (fl_closed f) = {..<fl_made f}
      else \<exists>z. fl_made f = Suc z \<and> fl_zero f = Some z \<and> set (fl_closed f) = {..<z})"

lemma inflight_ok_new: "inflight_ok new_inflight 0"
  by (simp add: inflight_ok_def new_inflight_def)

lemma inflight_ok_add: "inflight_ok f m \<Longrightarrow> inflight_ok (inflight_add f) (Suc m)"
  by (cases "m = 0") (simp_all add: inflight_ok_def inflight_add_def Let_def)

lemma inflight_ok_done:
  assumes "inflight_ok f (Suc m)"
  shows "inflight_ok (inflight_done f) m"
proof -
  from assms obtain z where "fl_made f = Suc z" "fl_zero f = Some z" "set (fl_closed f) = {..<z}" "fl_n f = int m + 1" "\<not> fl_panic f"
    by (auto simp: inflight_ok_def)
  then show ?thesis by (cases "m = 0") (simp_all add: inflight_ok_def inflight_done_def Let_def lessThan_Suc)
qed

text \<open>Which deliveries count as received and unsettled, hold a slot, and run a handler.\<close>

definition counted :: "delivery_run \<Rightarrow> bool" where
  "counted d \<longleftrightarrow> dl_phase d \<notin> {PSlot, PDone, PDropped}"

definition running :: "delivery_run \<Rightarrow> bool" where
  "running d \<longleftrightarrow> dl_handler d \<in> {HRun, HSent}"

fun slotted_phase :: "dphase \<Rightarrow> bool" where
  "slotted_phase (PWait l) = False"
| "slotted_phase PDone = False"
| "slotted_phase PDropped = False"
| "slotted_phase _ = True"

definition slotted :: "nat \<Rightarrow> delivery_run \<Rightarrow> bool" where
  "slotted c d \<longleftrightarrow> dl_cons d = c \<and> slotted_phase (dl_phase d)"

text \<open>Where the handler goroutine can be, given where the delivery's goroutine is.\<close>

fun handler_phases :: "dphase \<Rightarrow> hphase set" where
  "handler_phases (PWait l) = {HNot}"
| "handler_phases PStart = {HNot}"
| "handler_phases PAcked = {HNot}"
| "handler_phases PLaunch = {HNot}"
| "handler_phases PDropped = {HNot}"
| "handler_phases PCount = UNIV"
| "handler_phases PSlot = UNIV"
| "handler_phases PDone = {HNot, HExit}"
| "handler_phases _ = - {HNot}"

definition del_ok :: "delivery_run \<Rightarrow> bool" where
  "del_ok d \<longleftrightarrow> dl_handler d \<in> handler_phases (dl_phase d)"

definition loop_ok :: "bus_work \<Rightarrow> nat \<Rightarrow> bool" where
  "loop_ok s l \<longleftrightarrow>
     lo_cons (bw_loops s ! l) < length (bw_consumers s) \<and>
     (\<forall>k. lo_phase (bw_loops s ! l) = LHold k \<longrightarrow>
        at s k (PWait l) \<and> dl_cons (bw_dels s ! k) = lo_cons (bw_loops s ! l) \<and>
        has_sem (bw_consumers s ! lo_cons (bw_loops s ! l)))"

definition sem_ok :: "bus_work \<Rightarrow> nat \<Rightarrow> bool" where
  "sem_ok s c \<longleftrightarrow>
     (has_sem (bw_consumers s ! c) \<longrightarrow>
        wk_sem (bw_consumers s ! c) = num (slotted c) (bw_dels s) \<and>
        int (wk_sem (bw_consumers s ! c)) \<le> cs_concurrency (wk_spec (bw_consumers s ! c)))"

definition work_inv :: "bus_work \<Rightarrow> bool" where
  "work_inv s \<longleftrightarrow>
     inflight_ok (bw_deliveries s) (num counted (bw_dels s)) \<and>
     inflight_ok (bw_handlers s) (num running (bw_dels s)) \<and>
     (\<forall>c < length (bw_consumers s). sem_ok s c) \<and>
     (\<forall>l < length (bw_loops s). loop_ok s l) \<and>
     (\<forall>d \<in> set (bw_dels s). dl_cons d < length (bw_consumers s) \<and> del_ok d)"

lemma work_invD:
  assumes "work_inv s"
  shows "inflight_ok (bw_deliveries s) (num counted (bw_dels s))" "inflight_ok (bw_handlers s) (num running (bw_dels s))"
    "c < length (bw_consumers s) \<Longrightarrow> sem_ok s c" "l < length (bw_loops s) \<Longrightarrow> loop_ok s l"
    "k < length (bw_dels s) \<Longrightarrow> dl_cons (bw_dels s ! k) < length (bw_consumers s)"
    "k < length (bw_dels s) \<Longrightarrow> del_ok (bw_dels s ! k)"
  using assms by (auto simp: work_inv_def)

text \<open>A change that shows in none of the counts.\<close>

definition keeps_counts :: "delivery_run \<Rightarrow> delivery_run \<Rightarrow> bool" where
  "keeps_counts d d1 \<longleftrightarrow>
     dl_cons d1 = dl_cons d \<and> counted d1 = counted d \<and> running d1 = running d \<and>
     slotted_phase (dl_phase d1) = slotted_phase (dl_phase d) \<and>
     (\<forall>l. dl_phase d = PWait l \<longrightarrow> dl_phase d1 = PWait l) \<and> (del_ok d \<longrightarrow> del_ok d1)"

definition same_work :: "bus_work \<Rightarrow> bus_work \<Rightarrow> bool" where
  "same_work s s1 \<longleftrightarrow>
     bw_deliveries s1 = bw_deliveries s \<and> bw_handlers s1 = bw_handlers s \<and> bw_loops s1 = bw_loops s \<and>
     map wk_spec (bw_consumers s1) = map wk_spec (bw_consumers s) \<and>
     map wk_sem (bw_consumers s1) = map wk_sem (bw_consumers s) \<and>
     list_all2 keeps_counts (bw_dels s) (bw_dels s1)"

lemma keeps_counts_refl: "keeps_counts d d"
  by (simp add: keeps_counts_def)

lemma num_keeps:
  assumes "list_all2 keeps_counts xs ys"
  shows "num counted ys = num counted xs" "num running ys = num running xs" "num (slotted c) ys = num (slotted c) xs"
  using assms by (induction rule: list_all2_induct) (auto simp: num_def keeps_counts_def slotted_def)

lemma work_inv_same:
  assumes "work_inv s" "same_work s s1"
  shows "work_inv s1"
proof -
  have len: "length (bw_consumers s1) = length (bw_consumers s)"
    using assms(2) unfolding same_work_def by (metis length_map)
  have w: "wk_spec (bw_consumers s1 ! c) = wk_spec (bw_consumers s ! c)" "wk_sem (bw_consumers s1 ! c) = wk_sem (bw_consumers s ! c)"
    if "c < length (bw_consumers s)" for c
    using assms(2) that len unfolding same_work_def by (metis nth_map)+
  have dels: "list_all2 keeps_counts (bw_dels s) (bw_dels s1)" using assms(2) by (simp add: same_work_def)
  note n = num_keeps [OF dels]
  have k: "length (bw_dels s1) = length (bw_dels s)" using dels list_all2_lengthD by fastforce
  have d: "keeps_counts (bw_dels s ! k) (bw_dels s1 ! k)" if "k < length (bw_dels s)" for k
    using list_all2_nthD [OF dels that] .
  have "dl_cons x < length (bw_consumers s1) \<and> del_ok x" if x: "x \<in> set (bw_dels s1)" for x
  proof -
    obtain i where "i < length (bw_dels s)" "x = bw_dels s1 ! i" using x k by (metis in_set_conv_nth)
    with d [of i] work_invD(5,6) [OF assms(1), of i] len show ?thesis by (simp add: keeps_counts_def)
  qed
  moreover have "loop_ok s1 l" if l: "l < length (bw_loops s1)" for l
  proof -
    have ok: "loop_ok s l" and loops: "bw_loops s1 = bw_loops s"
      using work_invD(4) [OF assms(1)] l assms(2) by (simp_all add: same_work_def)
    let ?c = "lo_cons (bw_loops s ! l)"
    have c: "?c < length (bw_consumers s)" using ok by (simp add: loop_ok_def)
    have "at s1 i (PWait l) \<and> dl_cons (bw_dels s1 ! i) = ?c \<and> has_sem (bw_consumers s1 ! ?c)"
      if i: "lo_phase (bw_loops s ! l) = LHold i" for i
    proof -
      have "at s i (PWait l)" "dl_cons (bw_dels s ! i) = ?c" "has_sem (bw_consumers s ! ?c)"
        using ok i by (simp_all add: loop_ok_def)
      then show ?thesis using d [of i] k w(1) [OF c] by (simp add: at_def keeps_counts_def has_sem_def)
    qed
    then show ?thesis using c len loops by (simp add: loop_ok_def)
  qed
  moreover have "sem_ok s1 c" if "c < length (bw_consumers s1)" for c
    using work_invD(3) [OF assms(1), of c] w [of c] that len n(3) by (auto simp: sem_ok_def has_sem_def)
  ultimately show ?thesis using assms work_invD(1,2) [OF assms(1)] n(1,2) by (simp add: work_inv_def same_work_def)
qed

text \<open>Most steps change none of it.\<close>

lemma same_work_refl: "same_work s s"
  by (simp add: same_work_def list_all2_same keeps_counts_refl)

lemma same_on_del:
  assumes "k < length (bw_dels s) \<Longrightarrow> keeps_counts (bw_dels s ! k) (f (bw_dels s ! k))"
  shows "same_work s (on_del k f s)"
proof -
  have "keeps_counts (bw_dels s ! i) ((bw_dels s)[k := f (bw_dels s ! k)] ! i)" if "i < length (bw_dels s)" for i
    using assms that by (cases "i = k") (simp_all add: keeps_counts_refl)
  then show ?thesis by (simp add: same_work_def on_del_def list_all2_conv_all_nth)
qed

lemma same_on_worker:
  assumes "\<And>w. wk_spec (f w) = wk_spec w" "\<And>w. wk_sem (f w) = wk_sem w"
  shows "same_work s (on_worker c f s1) = same_work s s1"
proof -
  have "map g ((bw_consumers s1)[c := f (bw_consumers s1 ! c)]) = map g (bw_consumers s1)"
    if "\<And>w. g (f w) = g w" for g :: "worker \<Rightarrow> 'a"
    by (cases "c < length (bw_consumers s1)") (simp_all add: map_update that list_update_same_conv list_update_beyond)
  from this [of wk_spec] this [of wk_sem] assms
  have "map wk_spec ((bw_consumers s1)[c := f (bw_consumers s1 ! c)]) = map wk_spec (bw_consumers s1)"
    "map wk_sem ((bw_consumers s1)[c := f (bw_consumers s1 ! c)]) = map wk_sem (bw_consumers s1)" by simp_all
  then show ?thesis by (simp add: same_work_def on_worker_def)
qed

lemma same_work_rest:
  "same_work s (s1\<lparr>bw_registry := r\<rparr>) = same_work s s1" "same_work s (s1\<lparr>bw_cancels := cs\<rparr>) = same_work s s1"
  "same_work s (s1\<lparr>bw_notices := ns\<rparr>) = same_work s s1" "same_work s (s1\<lparr>bw_drains := ds\<rparr>) = same_work s s1"
  by (simp_all add: same_work_def)

lemma cancel_ctx_fields:
  "dl_cons (cancel_ctx e d) = dl_cons d" "dl_phase (cancel_ctx e d) = dl_phase d" "dl_handler (cancel_ctx e d) = dl_handler d"
  "dl_id (cancel_ctx e d) = dl_id d" "dl_released (cancel_ctx e d) = dl_released d" "dl_unlisten (cancel_ctx e d) = dl_unlisten d"
  by (simp_all add: cancel_ctx_def split: option.split)

lemma handler_moves:
  "HRun \<in> handler_phases p \<Longrightarrow> HSent \<in> handler_phases p" "HSent \<in> handler_phases p \<Longrightarrow> HCounted \<in> handler_phases p"
  "HCounted \<in> handler_phases p \<Longrightarrow> HExit \<in> handler_phases p"
  by (cases p; simp)+

lemmas count_defs = handler_moves keeps_counts_def counted_def running_def del_ok_def goto_def at_def handler_at_def guarded_def cancel_ctx_fields

fun effective :: "act \<Rightarrow> bool" where
  "effective (ANewConsumer spec) = True"
| "effective (ALoop c) = True"
| "effective (AReceive l i) = True"
| "effective (AAcquire l) = True"
| "effective (ALetGo l) = True"
| "effective (AEnd l) = True"
| "effective (AStop l) = True"
| "effective (ALaunch k) = True"
| "effective (AUncount k) = True"
| "effective (ADone k) = True"
| "effective (AFree k) = True"
| "effective a = False"

lemma quiet_step:
  assumes "wstep a s = Some s1" "\<not> effective a"
  shows "same_work s s1"
  using assms
proof (cases a)
  case (ABegin k)
  then show ?thesis using assms
    by (auto simp: begin_process_def same_on_worker count_defs split: if_splits intro!: same_on_del)
next
  case (ACancellable k)
  then show ?thesis using assms
    by (auto simp: cancellable_def same_work_rest same_work_refl count_defs Let_def split: if_splits prod.splits intro!: same_on_del)
next
  case (ARelease k)
  then show ?thesis using assms
    by (auto simp: release_def count_defs split: if_splits option.splits intro!: same_on_del)
next
  case (AUnlisten k)
  then show ?thesis using assms
    by (auto simp: unlisten_def same_work_rest count_defs split: if_splits dphase.splits intro!: same_on_del)
next
  case (AInactive k)
  then show ?thesis using assms
    by (auto simp: leave_active_def same_on_worker count_defs split: if_splits intro!: same_on_del)
next
  case (ALost c)
  then show ?thesis using assms
    by (auto simp: connectionLost_def cancelActive_def same_work_rest same_work_refl guarded_def split: if_splits)
next
  case AEndSession
  then show ?thesis using assms
    by (auto simp: end_session_def same_work_def list_all2_conv_all_nth keeps_counts_refl) (simp add: count_defs)
next
  case (ADrainStep i b)
  then show ?thesis using assms by (auto simp: same_work_rest same_work_refl split: if_splits)
qed (auto simp: time_out_def cancelActive_def handle_notice_def same_work_rest same_work_refl count_defs Let_def
      split: if_splits intro!: same_on_del)

text \<open>The steps that do change a count, a slot or a loop.\<close>

lemma same_specs:
  assumes "map wk_spec (bw_consumers s1) = map wk_spec (bw_consumers s)"
  shows "length (bw_consumers s1) = length (bw_consumers s)"
    "c < length (bw_consumers s) \<Longrightarrow> has_sem (bw_consumers s1 ! c) = has_sem (bw_consumers s ! c)"
proof -
  show l: "length (bw_consumers s1) = length (bw_consumers s)" using assms by (metis length_map)
  show "has_sem (bw_consumers s1 ! c) = has_sem (bw_consumers s ! c)" if "c < length (bw_consumers s)"
    using assms that l unfolding has_sem_def by (metis nth_map)
qed

lemma loop_ok_upd:
  assumes "loop_ok s l" "bw_loops s1 ! l = bw_loops s ! l" "map wk_spec (bw_consumers s1) = map wk_spec (bw_consumers s)"
    and "bw_dels s1 = (bw_dels s)[k := d]" "dl_phase (bw_dels s ! k) \<noteq> PWait l"
  shows "loop_ok s1 l"
proof -
  have "(bw_dels s)[k := d] ! i = bw_dels s ! i" if "dl_phase (bw_dels s ! i) = PWait l" for i
    using that assms(5) by (cases "i = k") simp_all
  then show ?thesis using assms(1,2,4) same_specs [OF assms(3)] by (auto simp: loop_ok_def at_def)
qed

lemma work_inv_upd:
  assumes "work_inv s" "k < length (bw_dels s)" "bw_dels s1 = (bw_dels s)[k := d]"
    and "dl_cons d = dl_cons (bw_dels s ! k)" "del_ok d" "map wk_spec (bw_consumers s1) = map wk_spec (bw_consumers s)"
    and "inflight_ok (bw_deliveries s1) (num counted (bw_dels s1))" "inflight_ok (bw_handlers s1) (num running (bw_dels s1))"
    and "\<And>c. c < length (bw_consumers s) \<Longrightarrow> sem_ok s1 c"
    and "length (bw_loops s1) = length (bw_loops s)"
    and "\<And>l. l < length (bw_loops s) \<Longrightarrow>
      bw_loops s1 ! l = bw_loops s ! l \<and> dl_phase (bw_dels s ! k) \<noteq> PWait l \<or> loop_ok s1 l"
  shows "work_inv s1"
proof -
  have "loop_ok s1 l" if "l < length (bw_loops s1)" for l
    using assms(11) [of l] loop_ok_upd [OF work_invD(4) [OF assms(1)] _ assms(6,3), of l] that assms(10) by auto
  moreover have "dl_cons x < length (bw_consumers s1) \<and> del_ok x" if "x \<in> set (bw_dels s1)" for x
    using that assms(1,3-5) same_specs(1) [OF assms(6)] work_invD(5) [OF assms(1,2)] set_update_subset_insert [of "bw_dels s" k d]
    by (auto simp: work_inv_def)
  ultimately show ?thesis using assms(7-9) same_specs(1) [OF assms(6)] by (simp add: work_inv_def)
qed

text \<open>A slot taken by, or freed by, delivery \<open>k\<close>.\<close>

lemma sem_ok_same:
  assumes "sem_ok s c" "bw_consumers s1 ! c = bw_consumers s ! c" "num (slotted c) (bw_dels s1) = num (slotted c) (bw_dels s)"
  shows "sem_ok s1 c"
  using assms by (auto simp: sem_ok_def)

lemma slotted_same:
  assumes "k < length xs" "dl_cons d = dl_cons (xs ! k)"
    and "c \<noteq> dl_cons d \<or> slotted_phase (dl_phase d) = slotted_phase (dl_phase (xs ! k))"
  shows "num (slotted c) (xs[k := d]) = num (slotted c) xs"
  using assms by (intro num_same) (auto simp: slotted_def)

lemma inv_launch:
  assumes "work_inv s" "at s k PLaunch"
  shows "work_inv (launch k s)"
proof -
  have k: "k < length (bw_dels s)" "dl_phase (bw_dels s ! k) = PLaunch" using assms(2) by (simp_all add: at_def)
  then have h: "dl_handler (bw_dels s ! k) = HNot" using work_invD(6) [OF assms(1) k(1)] by (simp add: del_ok_def)
  show ?thesis
    by (rule work_inv_upd [OF assms(1) k(1), where d = "(bw_dels s ! k)\<lparr>dl_phase := PRun, dl_handler := HRun\<rparr>"])
      (use assms(1) k h in \<open>auto simp: launch_def on_del_def del_ok_def counted_def running_def num_same num_gain slotted_same
        work_invD inflight_ok_add intro!: sem_ok_same [OF work_invD(3)]\<close>)
qed

lemma inv_uncount:
  assumes "work_inv s" "handler_at s k HSent"
  shows "work_inv ((on_del k (\<lambda>d. d\<lparr>dl_handler := HCounted\<rparr>) s)\<lparr>bw_handlers := inflight_done (bw_handlers s)\<rparr>)"
proof -
  let ?d = "(bw_dels s ! k)\<lparr>dl_handler := HCounted\<rparr>"
  have k: "k < length (bw_dels s)" "dl_handler (bw_dels s ! k) = HSent" using assms(2) by (simp_all add: handler_at_def)
  then have ok: "del_ok ?d" using work_invD(6) [OF assms(1) k(1)] by (simp add: del_ok_def handler_moves)
  then have nw: "dl_phase (bw_dels s ! k) \<noteq> PWait l" for l by (auto simp: del_ok_def)
  have "num running (bw_dels s) = Suc (num running ((bw_dels s)[k := ?d]))"
    using k by (intro num_lose) (simp_all add: running_def)
  with assms(1) have "inflight_ok (inflight_done (bw_handlers s)) (num running ((bw_dels s)[k := ?d]))"
    by (metis inflight_ok_done work_invD(2))
  then show ?thesis
    by (intro work_inv_upd [OF assms(1) k(1), where d = ?d])
      (use assms(1) k ok nw in \<open>auto simp: on_del_def counted_def num_same slotted_same
        work_invD intro!: sem_ok_same [OF work_invD(3)]\<close>)
qed

lemma inv_done:
  assumes "work_inv s" "at s k PCount"
  shows "work_inv ((on_del k (goto PSlot) s)\<lparr>bw_deliveries := inflight_done (bw_deliveries s)\<rparr>)"
proof -
  let ?d = "goto PSlot (bw_dels s ! k)"
  have k: "k < length (bw_dels s)" "dl_phase (bw_dels s ! k) = PCount" using assms(2) by (simp_all add: at_def)
  have "num counted (bw_dels s) = Suc (num counted ((bw_dels s)[k := ?d]))"
    using k by (intro num_lose) (simp_all add: counted_def goto_def)
  with assms(1) have "inflight_ok (inflight_done (bw_deliveries s)) (num counted ((bw_dels s)[k := ?d]))"
    by (metis inflight_ok_done work_invD(1))
  then show ?thesis
    by (intro work_inv_upd [OF assms(1) k(1), where d = ?d])
      (use assms(1) k in \<open>auto simp: on_del_def goto_def del_ok_def running_def num_same slotted_same
        work_invD intro!: sem_ok_same [OF work_invD(3)]\<close>)
qed

lemma inv_free:
  assumes "work_inv s" "at s k PSlot" "dl_handler (bw_dels s ! k) \<in> {HNot, HExit}"
  shows "work_inv (free_slot k s)"
proof -
  let ?d = "goto PDone (bw_dels s ! k)" and ?c = "dl_cons (bw_dels s ! k)"
  have k: "k < length (bw_dels s)" "dl_phase (bw_dels s ! k) = PSlot" using assms(2) by (simp_all add: at_def)
  have c: "?c < length (bw_consumers s)" by (rule work_invD(5) [OF assms(1) k(1)])
  have lose: "num (slotted ?c) (bw_dels s) = Suc (num (slotted ?c) ((bw_dels s)[k := ?d]))"
    using k by (intro num_lose) (simp_all add: slotted_def goto_def)
  have sems: "sem_ok (free_slot k s) x" if x: "x < length (bw_consumers s)" for x
  proof (cases "x = ?c")
    case True
    then show ?thesis using work_invD(3) [OF assms(1) c] lose c
      by (auto simp: sem_ok_def free_slot_def on_worker_def on_del_def has_sem_def)
  next
    case False
    then have "num (slotted x) ((bw_dels s)[k := ?d]) = num (slotted x) (bw_dels s)"
      using k by (intro slotted_same) (simp_all add: goto_def)
    with False show ?thesis
      by (intro sem_ok_same [OF work_invD(3) [OF assms(1) x]]) (simp_all add: free_slot_def on_worker_def on_del_def)
  qed
  have "map wk_spec (bw_consumers (free_slot k s)) = map wk_spec (bw_consumers s)"
    using c by (simp add: free_slot_def on_worker_def on_del_def map_update list_update_same_conv)
  then show ?thesis
    by (intro work_inv_upd [OF assms(1) k(1), where d = ?d])
      (use assms(1,3) k sems in \<open>auto simp: free_slot_def on_worker_def on_del_def goto_def del_ok_def running_def counted_def num_same
        work_invD\<close>)
qed

text \<open>The loop's steps. A delivery it holds waits in no other loop's hands.\<close>

lemma held_facts:
  assumes "work_inv s" "l < length (bw_loops s)" "lo_phase (bw_loops s ! l) = LHold k"
  shows "k < length (bw_dels s)" "dl_phase (bw_dels s ! k) = PWait l" "dl_handler (bw_dels s ! k) = HNot"
    "dl_cons (bw_dels s ! k) = lo_cons (bw_loops s ! l)" "lo_cons (bw_loops s ! l) < length (bw_consumers s)"
    "has_sem (bw_consumers s ! lo_cons (bw_loops s ! l))"
proof -
  have ok: "loop_ok s l" by (rule work_invD(4) [OF assms(1,2)])
  then show k: "k < length (bw_dels s)" "dl_phase (bw_dels s ! k) = PWait l"
    and "dl_cons (bw_dels s ! k) = lo_cons (bw_loops s ! l)" "lo_cons (bw_loops s ! l) < length (bw_consumers s)"
      "has_sem (bw_consumers s ! lo_cons (bw_loops s ! l))"
    using assms(3) by (simp_all add: loop_ok_def at_def)
  show "dl_handler (bw_dels s ! k) = HNot" using work_invD(6) [OF assms(1) k(1)] k(2) by (simp add: del_ok_def)
qed

lemma inv_acquire:
  assumes "work_inv s" "l < length (bw_loops s)" "lo_phase (bw_loops s ! l) = LHold k"
    and "int (wk_sem (bw_consumers s ! lo_cons (bw_loops s ! l))) < cs_concurrency (wk_spec (bw_consumers s ! lo_cons (bw_loops s ! l)))"
  shows "work_inv (loop_acquire l k s)"
proof -
  let ?d = "goto PStart (bw_dels s ! k)" and ?c = "lo_cons (bw_loops s ! l)"
  note h = held_facts [OF assms(1-3)]
  have gain: "num (slotted ?c) ((bw_dels s)[k := ?d]) = Suc (num (slotted ?c) (bw_dels s))"
    using h by (intro num_gain) (simp_all add: slotted_def goto_def)
  have sems: "sem_ok (loop_acquire l k s) x" if x: "x < length (bw_consumers s)" for x
  proof (cases "x = ?c")
    case True
    then show ?thesis using work_invD(3) [OF assms(1) h(5)] gain h(5) assms(4)
      by (auto simp: sem_ok_def loop_acquire_def on_loop_def on_worker_def on_del_def has_sem_def)
  next
    case False
    then have "num (slotted x) ((bw_dels s)[k := ?d]) = num (slotted x) (bw_dels s)"
      using h by (intro slotted_same) (simp_all add: goto_def)
    with False show ?thesis
      by (intro sem_ok_same [OF work_invD(3) [OF assms(1) x]])
        (simp_all add: loop_acquire_def on_loop_def on_worker_def on_del_def)
  qed
  have "map wk_spec (bw_consumers (loop_acquire l k s)) = map wk_spec (bw_consumers s)"
    using h by (simp add: loop_acquire_def on_loop_def on_worker_def on_del_def map_update list_update_same_conv)
  then show ?thesis
    by (intro work_inv_upd [OF assms(1) h(1), where d = ?d])
      (use assms(1,2) h sems in \<open>auto simp: loop_acquire_def on_loop_def on_worker_def on_del_def goto_def del_ok_def
        running_def counted_def num_same work_invD loop_ok_def nth_list_update\<close>)
qed

lemma inv_let_go:
  assumes "work_inv s" "l < length (bw_loops s)" "lo_phase (bw_loops s ! l) = LHold k"
  shows "work_inv (loop_let_go l k s)"
proof -
  let ?d = "goto PDropped (bw_dels s ! k)"
  note h = held_facts [OF assms(1-3)]
  have "num counted (bw_dels s) = Suc (num counted ((bw_dels s)[k := ?d]))"
    using h by (intro num_lose) (simp_all add: counted_def goto_def)
  with assms(1) have "inflight_ok (inflight_done (bw_deliveries s)) (num counted ((bw_dels s)[k := ?d]))"
    by (metis inflight_ok_done work_invD(1))
  then show ?thesis
    by (intro work_inv_upd [OF assms(1) h(1), where d = ?d])
      (use assms(1,2) h in \<open>auto simp: loop_let_go_def on_loop_def on_del_def goto_def del_ok_def running_def num_same
        work_invD loop_ok_def nth_list_update slotted_same intro!: sem_ok_same [OF work_invD(3)]\<close>)
qed

lemma inv_on_loop:
  assumes "work_inv s" "\<And>r. lo_cons (f r) = lo_cons r" "\<And>r k. lo_phase (f r) = LHold k \<Longrightarrow> lo_phase r = LHold k"
  shows "work_inv (on_loop l f s)"
proof -
  have "loop_ok (on_loop l f s) j" if "j < length (bw_loops s)" for j
  proof -
    have "loop_ok s j" by (rule work_invD(4) [OF assms(1) that])
    moreover have "lo_cons ((bw_loops s)[l := f (bw_loops s ! l)] ! j) = lo_cons (bw_loops s ! j)"
      "\<And>k. lo_phase ((bw_loops s)[l := f (bw_loops s ! l)] ! j) = LHold k \<Longrightarrow> lo_phase (bw_loops s ! j) = LHold k"
      using that assms(2) assms(3) [of "bw_loops s ! l"] by (cases "j = l", simp_all)+
    ultimately show ?thesis unfolding loop_ok_def on_loop_def at_def by simp
  qed
  moreover have "sem_ok (on_loop l f s) c" if "c < length (bw_consumers s)" for c
    using work_invD(3) [OF assms(1) that] by (auto simp: sem_ok_def on_loop_def)
  ultimately show ?thesis using assms(1) by (simp add: work_inv_def on_loop_def)
qed

lemma inv_new_loop:
  assumes "work_inv s" "c < length (bw_consumers s)"
  shows "work_inv (s\<lparr>bw_loops := bw_loops s @ [\<lparr>lo_cons = c, lo_phase = LRecv, lo_stop = False\<rparr>]\<rparr>)"
  using assms by (auto simp: work_inv_def sem_ok_def loop_ok_def at_def nth_append less_Suc_eq)

lemma inv_new_consumer:
  assumes "work_inv s"
  shows "work_inv (s\<lparr>bw_consumers := bw_consumers s @ [\<lparr>wk_spec = spec, wk_sem = 0, wk_active = []\<rparr>]\<rparr>)"
proof -
  have "num (slotted (length (bw_consumers s))) (bw_dels s) = 0"
    using assms by (auto simp: num_zero slotted_def work_inv_def)
  then show ?thesis using assms
    by (auto simp: work_inv_def sem_ok_def loop_ok_def at_def nth_append less_Suc_eq has_sem_def)
qed

lemma inv_receive:
  assumes "work_inv s" "l < length (bw_loops s)" "lo_phase (bw_loops s ! l) = LRecv"
  shows "work_inv (loop_receive l cid s)"
proof -
  let ?c = "lo_cons (bw_loops s ! l)"
  let ?d = "new_delivery ?c cid (if has_sem (bw_consumers s ! ?c) then PWait l else PStart)"
  have c: "?c < length (bw_consumers s)" using work_invD(4) [OF assms(1,2)] by (simp add: loop_ok_def)
  have d: "counted ?d" "\<not> running ?d" "del_ok ?d" "dl_cons ?d = ?c" "slotted ?c ?d \<longrightarrow> \<not> has_sem (bw_consumers s ! ?c)"
    by (simp_all add: new_delivery_def counted_def running_def del_ok_def slotted_def)
  have sems: "sem_ok (loop_receive l cid s) x" if "x < length (bw_consumers s)" for x
    using work_invD(3) [OF assms(1) that] d
    by (auto simp: sem_ok_def loop_receive_def Let_def on_loop_def num_snoc slotted_def new_delivery_def)
  have "loop_ok (loop_receive l cid s) j" if j: "j < length (bw_loops s)" for j
    using work_invD(4) [OF assms(1) j] j assms(3) c
    by (cases "j = l") (auto simp: loop_ok_def loop_receive_def Let_def on_loop_def at_def nth_append new_delivery_def)
  moreover have "bw_dels (loop_receive l cid s) = bw_dels s @ [?d]" "bw_deliveries (loop_receive l cid s) = inflight_add (bw_deliveries s)"
      "bw_handlers (loop_receive l cid s) = bw_handlers s" "length (bw_loops (loop_receive l cid s)) = length (bw_loops s)"
      "bw_consumers (loop_receive l cid s) = bw_consumers s"
    by (simp_all add: loop_receive_def Let_def on_loop_def)
  ultimately show ?thesis using assms(1) sems c d by (auto simp: work_inv_def num_snoc inflight_ok_add)
qed

lemma work_inv_step:
  assumes "work_inv s" "wstep a s = Some s1"
  shows "work_inv s1"
proof (cases "effective a")
  case False
  then show ?thesis using work_inv_same [OF assms(1) quiet_step [OF assms(2)]] by simp
next
  case True
  then show ?thesis using assms
  proof (cases a)
    case (AAcquire l)
    then show ?thesis using assms by (auto simp: guarded_def Let_def inv_acquire split: if_splits lphase.splits)
  next
    case (ALetGo l)
    then show ?thesis using assms by (auto simp: guarded_def inv_let_go split: if_splits lphase.splits)
  next
    case (AEnd l)
    then show ?thesis using assms by (auto simp: guarded_def intro!: inv_on_loop split: if_splits)
  next
    case (AStop l)
    then show ?thesis using assms by (auto simp: guarded_def intro!: inv_on_loop split: if_splits)
  qed (auto simp: guarded_def inv_new_consumer inv_new_loop inv_receive inv_launch inv_uncount inv_done inv_free split: if_splits)
qed

lemma work_inv_start: "work_inv bus_start"
  by (simp add: work_inv_def bus_start_def inflight_ok_new num_def)

lemma wsteps_invariant:
  assumes "\<And>a s s1. P s \<Longrightarrow> wstep a s = Some s1 \<Longrightarrow> a \<in> set as \<Longrightarrow> P s1" "P s" "wsteps as s = Some s1"
  shows "P s1"
  using assms by (induction as arbitrary: s) (auto split: option.splits)

lemma work_inv_steps: "wsteps as bus_start = Some s \<Longrightarrow> work_inv s"
  by (rule wsteps_invariant [where P = work_inv, OF work_inv_step _ _])  (simp_all add: work_inv_start)

section \<open>Draining\<close>

lemma num_mono: "(\<And>x. x \<in> set xs \<Longrightarrow> P x \<Longrightarrow> Q x) \<Longrightarrow> num P xs \<le> num Q xs"
  by (induction xs) (auto simp: num_def)

text \<open>Once every loop has ended, and as long as none is started, work only becomes less.\<close>

definition intake_over :: "bus_work \<Rightarrow> bool" where
  "intake_over s \<longleftrightarrow> (\<forall>l < length (bw_loops s). lo_phase (bw_loops s ! l) = LEnd)"

fun starts_loop :: "act \<Rightarrow> bool" where
  "starts_loop (ALoop c) = True"
| "starts_loop a = False"

definition winds_down :: "bus_work \<Rightarrow> bus_work \<Rightarrow> bool" where
  "winds_down s s1 \<longleftrightarrow>
     intake_over s1 \<and> fl_made (bw_deliveries s1) = fl_made (bw_deliveries s) \<and>
     num counted (bw_dels s1) \<le> num counted (bw_dels s) \<and>
     (num counted (bw_dels s) = 0 \<longrightarrow>
        fl_made (bw_handlers s1) = fl_made (bw_handlers s) \<and> num running (bw_dels s1) \<le> num running (bw_dels s))"

lemma fl_made_done: "fl_made (inflight_done f) = fl_made f"
  by (simp add: inflight_done_def Let_def split: option.split)

lemma num_update_le: "(P v \<Longrightarrow> P (xs ! k)) \<Longrightarrow> num P (xs[k := v]) \<le> num P xs"
  using num_update [of k xs P v] by (cases "k < length xs") (auto split: if_splits simp: list_update_beyond)

lemma winds_down_step:
  assumes "wstep a s = Some s1" "intake_over s" "\<not> starts_loop a"
  shows "winds_down s s1"
proof (cases "effective a")
  case False
  then have "same_work s s1" using quiet_step [OF assms(1)] by simp
  then show ?thesis using assms(2) num_keeps(1,2) [of "bw_dels s" "bw_dels s1"]
    by (simp add: same_work_def winds_down_def intake_over_def)
next
  case True
  then show ?thesis using assms
  proof (cases a)
    case (AStop l)
    then show ?thesis using assms
      by (auto simp: guarded_def on_loop_def winds_down_def intake_over_def nth_list_update split: if_splits)
  next
    case (ALaunch k)
    then have "at s k PLaunch" "s1 = launch k s" using assms(1) by (auto simp: guarded_def split: if_splits)
    moreover from this have "bw_dels s ! k \<in> set (bw_dels s)" "counted (bw_dels s ! k)" by (simp_all add: at_def counted_def)
    then have "num counted (bw_dels s) \<noteq> 0" unfolding num_zero by blast
    ultimately show ?thesis using assms(2)
      by (auto simp: winds_down_def intake_over_def launch_def on_del_def at_def counted_def intro: num_update_le)
  next
    case (AFree k)
    then show ?thesis using assms(1,2)
      by (auto simp: guarded_def free_slot_def on_worker_def on_del_def goto_def winds_down_def intake_over_def counted_def
          running_def intro!: num_update_le split: if_splits)
  qed (auto simp: guarded_def winds_down_def intake_over_def fl_made_done on_del_def goto_def counted_def running_def
      handler_at_def at_def intro!: num_update_le split: if_splits lphase.splits)
qed

text \<open>What a drain that began after the intake ended knows.\<close>

fun drain_ok :: "bus_work \<Rightarrow> drain \<Rightarrow> bool" where
  "drain_ok s (DrDeliveries z) \<longleftrightarrow> Suc z = fl_made (bw_deliveries s)"
| "drain_ok s DrBetween \<longleftrightarrow> num counted (bw_dels s) = 0"
| "drain_ok s (DrHandlers z) \<longleftrightarrow> num counted (bw_dels s) = 0 \<and> Suc z = fl_made (bw_handlers s)"
| "drain_ok s DrOk \<longleftrightarrow> num counted (bw_dels s) = 0 \<and> num running (bw_dels s) = 0"
| "drain_ok s _ \<longleftrightarrow> True"

lemma drain_ok_mono: "drain_ok s d \<Longrightarrow> winds_down s s1 \<Longrightarrow> drain_ok s1 d"
  by (cases d) (auto simp: winds_down_def)

lemma inflight_wait_ok:
  assumes "inflight_ok f m"
  shows "inflight_wait f = None \<longleftrightarrow> m = 0" "inflight_wait f = Some z \<Longrightarrow> Suc z = fl_made f"
    "z \<in> set (fl_closed f) \<Longrightarrow> Suc z = fl_made f \<Longrightarrow> m = 0"
  using assms by (cases "m = 0"; force simp: inflight_ok_def inflight_wait_def)+

lemma drain_ok_step:
  assumes "work_inv s" "drain_ok s (bw_drains s ! i)" "drain_step b i s = Some d"
  shows "drain_ok s d"
  using assms(2,3) inflight_wait_ok [OF work_invD(1) [OF assms(1)]] inflight_wait_ok [OF work_invD(2) [OF assms(1)]]
  by (auto simp: drain_step_def split: drain.splits if_splits option.splits)

definition drains_ok :: "nat \<Rightarrow> bus_work \<Rightarrow> bool" where
  "drains_ok n s \<longleftrightarrow> work_inv s \<and> intake_over s \<and> (\<forall>i < length (bw_drains s). n \<le> i \<longrightarrow> drain_ok s (bw_drains s ! i))"

lemma wstep_drains:
  assumes "wstep a s = Some s1"
  shows "bw_drains s1 = bw_drains s \<or> a = ADrain \<and> bw_drains s1 = bw_drains s @ [DrStart] \<or>
    (\<exists>i b d. a = ADrainStep i b \<and> i < length (bw_drains s) \<and> drain_step b i s = Some d \<and> bw_drains s1 = (bw_drains s)[i := d])"
  using assms
  by (cases a) (auto simp: guarded_def loop_receive_def loop_acquire_def loop_let_go_def begin_process_def launch_def
      cancellable_def release_def unlisten_def time_out_def leave_active_def free_slot_def cancelActive_def connectionLost_def
      handle_notice_def end_session_def on_del_def on_worker_def on_loop_def Let_def split: if_splits lphase.splits dphase.splits prod.splits)

lemma drains_ok_step:
  assumes "drains_ok n s" "wstep a s = Some s1" "\<not> starts_loop a"
  shows "drains_ok n s1"
proof -
  have inv: "work_inv s" "intake_over s" using assms(1) by (simp_all add: drains_ok_def)
  note down = winds_down_step [OF assms(2) inv(2) assms(3)]
  have "drain_ok s (bw_drains s1 ! i)" if i: "i < length (bw_drains s1)" "n \<le> i" for i
    using wstep_drains [OF assms(2)]
  proof (elim disjE exE conjE)
    assume "bw_drains s1 = bw_drains s @ [DrStart]"
    then show ?thesis using assms(1) i by (auto simp: drains_ok_def nth_append less_Suc_eq)
  next
    fix j b d
    assume "j < length (bw_drains s)" "drain_step b j s = Some d" "bw_drains s1 = (bw_drains s)[j := d]"
    then show ?thesis using assms(1) i drain_ok_step [OF inv(1), of j b d]
      by (cases "i = j") (auto simp: drains_ok_def)
  qed (use assms(1) i in \<open>simp add: drains_ok_def\<close>)
  then show ?thesis
    using drain_ok_mono [OF _ down] work_inv_step [OF inv(1) assms(2)] down by (auto simp: drains_ok_def winds_down_def)
qed

section \<open>Cancelling\<close>

text \<open>A delivery listens through the entry its removal function would remove.\<close>

definition listens :: "delivery_run \<Rightarrow> remover \<Rightarrow> bool" where
  "listens d rm \<longleftrightarrow> dl_unlisten d = Some rm \<or> dl_phase d = PUnlisten rm"

fun may_listen :: "dphase \<Rightarrow> bool" where
  "may_listen PRun = True"
| "may_listen PFree = True"
| "may_listen PSettle = True"
| "may_listen PRelease = True"
| "may_listen _ = False"

definition life_ok :: "delivery_run \<Rightarrow> bool" where
  "life_ok d \<longleftrightarrow>
     (dl_unlisten d \<noteq> None \<longrightarrow> may_listen (dl_phase d)) \<and>
     (dl_handler d \<noteq> HNot \<and> \<not> may_listen (dl_phase d) \<longrightarrow> dl_released d) \<and>
     dl_handler d \<in> handler_phases (dl_phase d) \<and>
     (\<forall>cid e. listens d (Remove cid e) \<longrightarrow> cid = dl_id d \<and> cid \<noteq> [])"

definition registry_ok :: "cancelRegistry \<Rightarrow> delivery_run list \<Rightarrow> bool" where
  "registry_ok r ds \<longleftrightarrow>
     (\<forall>cid. cr_m r cid \<noteq> Some []) \<and>
     (\<forall>cid e k. (e, k) \<in> set (entries_of r cid) \<longleftrightarrow> k < length ds \<and> listens (ds ! k) (Remove cid e)) \<and>
     (\<forall>k cid e. k < length ds \<longrightarrow> listens (ds ! k) (Remove cid e) \<longrightarrow> e < cr_next r) \<and>
     (\<forall>i j c1 c2 e. i < length ds \<longrightarrow> j < length ds \<longrightarrow> listens (ds ! i) (Remove c1 e) \<longrightarrow>
        listens (ds ! j) (Remove c2 e) \<longrightarrow> i = j) \<and>
     (\<forall>d \<in> set ds. life_ok d)"

lemma registry_okD:
  assumes "registry_ok r ds"
  shows "cr_m r cid \<noteq> Some []" "(e, k) \<in> set (entries_of r cid) \<longleftrightarrow> k < length ds \<and> listens (ds ! k) (Remove cid e)"
    "k < length ds \<Longrightarrow> listens (ds ! k) (Remove cid e) \<Longrightarrow> e < cr_next r"
    "i < length ds \<Longrightarrow> j < length ds \<Longrightarrow> listens (ds ! i) (Remove c1 e) \<Longrightarrow> listens (ds ! j) (Remove c2 e) \<Longrightarrow> i = j"
    "k < length ds \<Longrightarrow> life_ok (ds ! k)"
  using assms by (simp_all add: registry_ok_def)

lemma registry_okI:
  assumes "\<And>cid. cr_m r cid \<noteq> Some []"
    and "\<And>cid e k. (e, k) \<in> set (entries_of r cid) \<longleftrightarrow> k < length ds \<and> listens (ds ! k) (Remove cid e)"
    and "\<And>k cid e. k < length ds \<Longrightarrow> listens (ds ! k) (Remove cid e) \<Longrightarrow> e < cr_next r"
    and "\<And>i j c1 c2 e. i < length ds \<Longrightarrow> j < length ds \<Longrightarrow> listens (ds ! i) (Remove c1 e) \<Longrightarrow>
        listens (ds ! j) (Remove c2 e) \<Longrightarrow> i = j"
    and "\<And>d. d \<in> set ds \<Longrightarrow> life_ok d"
  shows "registry_ok r ds"
  unfolding registry_ok_def using assms by blast

definition keeps_life :: "delivery_run \<Rightarrow> delivery_run \<Rightarrow> bool" where
  "keeps_life d d1 \<longleftrightarrow> (\<forall>rm. listens d1 rm = listens d rm) \<and> (life_ok d \<longrightarrow> life_ok d1)"

lemma registry_ok_same:
  assumes "registry_ok r ds" "list_all2 keeps_life ds ds1"
  shows "registry_ok r ds1"
proof -
  have len: "length ds1 = length ds" using list_all2_lengthD [OF assms(2)] by simp
  have keeps: "keeps_life (ds ! k) (ds1 ! k)" if "k < length ds" for k by (rule list_all2_nthD [OF assms(2) that])
  have l: "listens (ds1 ! k) rm = listens (ds ! k) rm" if "k < length ds" for k rm
    using keeps [OF that] unfolding keeps_life_def by blast
  have life: "life_ok d" if mem: "d \<in> set ds1" for d
  proof -
    obtain i where i: "i < length ds" "ds1 ! i = d" using mem unfolding in_set_conv_nth len by blast
    have "life_ok (ds1 ! i)" using keeps [OF i(1)] registry_okD(5) [OF assms(1) i(1)] by (simp only: keeps_life_def)
    then show ?thesis unfolding i(2) .
  qed
  show ?thesis
  proof (rule registry_okI)
    show "(e, k) \<in> set (entries_of r cid) \<longleftrightarrow> k < length ds1 \<and> listens (ds1 ! k) (Remove cid e)" for cid e k
      using registry_okD(2) [OF assms(1), of e k cid] len l [of k] by auto
    show "e < cr_next r" if "k < length ds1" "listens (ds1 ! k) (Remove cid e)" for k cid e
      using registry_okD(3) [OF assms(1), of k cid e] that len l [of k] by simp
    show "i = j" if "i < length ds1" "j < length ds1" "listens (ds1 ! i) (Remove c1 e)" "listens (ds1 ! j) (Remove c2 e)" for i j c1 c2 e
      using registry_okD(4) [OF assms(1), of i j c1 e c2] that len l [of i] l [of j] by simp
  qed (use registry_okD(1) [OF assms(1)] life in blast)+
qed

lemma keeps_life_refl: "keeps_life d d"
  by (simp add: keeps_life_def)

lemma registry_ok_upd:
  assumes "registry_ok r ds" "k < length ds \<Longrightarrow> keeps_life (ds ! k) d"
  shows "registry_ok r (ds[k := d])"
proof -
  have "keeps_life (ds ! i) (ds[k := d] ! i)" if "i < length ds" for i
    using assms(2) that by (cases "i = k") (simp_all add: keeps_life_refl)
  then have "list_all2 keeps_life ds (ds[k := d])" by (simp add: list_all2_conv_all_nth)
  with assms(1) show ?thesis by (rule registry_ok_same)
qed

lemma entries_of_simps:
  "entries_of (r\<lparr>cr_m := m, cr_next := n\<rparr>) cid = (case m cid of None \<Rightarrow> [] | Some es \<Rightarrow> es)"
  "entries_of (r\<lparr>cr_m := m\<rparr>) cid = (case m cid of None \<Rightarrow> [] | Some es \<Rightarrow> es)"
  by (simp_all add: entries_of_def)

lemma registry_ok_add:
  assumes ok: "registry_ok r ds" and k: "k < length ds" "dl_handler (ds ! k) = HRun" "\<not> dl_released (ds ! k)"
    "dl_unlisten (ds ! k) = None" and add: "registry_add (dl_id (ds ! k)) k r = (rm, r1)"
  shows "registry_ok r1 (ds[k := (ds ! k)\<lparr>dl_unlisten := Some rm\<rparr>])"
proof -
  let ?d = "ds ! k" let ?d1 = "?d\<lparr>dl_unlisten := Some rm\<rparr>"
  have life: "life_ok ?d" and may: "may_listen (dl_phase ?d)"
    using registry_okD(5) [OF ok k(1)] k by (auto simp: life_ok_def)
  then have no: "\<not> listens ?d x" for x using k(4) by (auto simp: listens_def)
  show ?thesis
  proof (cases "dl_id ?d = []")
    case True
    then have "rm = NoRemove" "r1 = r" using add by (simp_all add: registry_add_def)
    have l: "listens (ds[k := ?d1] ! i) (Remove c e) = listens (ds ! i) (Remove c e)" if "i < length ds" for i c e
      using no \<open>rm = NoRemove\<close> may that by (cases "i = k") (auto simp: listens_def)
    have "life_ok ?d1" using life may \<open>rm = NoRemove\<close> no by (auto simp: life_ok_def listens_def)
    then have "\<forall>d \<in> set (ds[k := ?d1]). life_ok d"
      using ok set_update_subset_insert [of ds k ?d1] by (auto simp: registry_ok_def)
    then show ?thesis using ok l \<open>r1 = r\<close> unfolding registry_ok_def by (simp cong: conj_cong imp_cong)
  next
    case False
    let ?e = "cr_next r" and ?c = "dl_id ?d"
    have rm: "rm = Remove ?c ?e" and r1: "r1 = r\<lparr>cr_m := (cr_m r)(?c \<mapsto> entries_of r ?c @ [(?e, k)]), cr_next := ?e + 1\<rparr>"
      using False add by (simp_all add: registry_add_def)
    have l: "listens (ds[k := ?d1] ! i) (Remove c e) \<longleftrightarrow> listens (ds ! i) (Remove c e) \<or> i = k \<and> c = ?c \<and> e = ?e"
      if "i < length ds" for i c e
      using no rm may that by (cases "i = k") (auto simp: listens_def)
    have fresh: "\<not> listens (ds ! i) (Remove c ?e)" if "i < length ds" for i c using registry_okD(3) [OF ok that] by blast
    have "(e, i) \<in> set (entries_of r1 c) \<longleftrightarrow> (e, i) \<in> set (entries_of r c) \<or> i = k \<and> c = ?c \<and> e = ?e" for e i c
      by (auto simp: r1 entries_of_simps) (auto simp: entries_of_def)
    moreover have "life_ok ?d1" using life may rm False no by (auto simp: life_ok_def listens_def)
    then have "\<forall>d \<in> set (ds[k := ?d1]). life_ok d"
      using ok set_update_subset_insert [of ds k ?d1] by (auto simp: registry_ok_def)
    moreover have "cr_m r1 c \<noteq> Some []" for c using registry_okD(1) [OF ok] by (simp add: r1)
    moreover define ds1 where "ds1 = ds[k := ?d1]"
    moreover have "cr_next r1 = Suc ?e" by (simp add: r1)
    moreover have "length ds1 = length ds" by (simp add: ds1_def)
    ultimately have "registry_ok r1 ds1"
      using registry_okD(2-4) [OF ok] l [folded ds1_def] fresh k(1) unfolding registry_ok_def ds1_def [symmetric]
      by (auto simp: less_Suc_eq)
    then show ?thesis by (simp add: ds1_def)
  qed
qed

lemma registry_ok_remove:
  assumes ok: "registry_ok r ds" and k: "k < length ds" "dl_phase (ds ! k) = PUnlisten rm"
  shows "registry_ok (registry_remove rm r) (ds[k := goto PInactive (ds ! k)])"
proof -
  let ?d = "ds ! k" let ?d1 = "goto PInactive ?d"
  have life: "life_ok ?d" by (rule registry_okD(5) [OF ok k(1)])
  then have un: "dl_unlisten ?d = None" using k(2) by (auto simp: life_ok_def)
  have l: "listens (ds[k := ?d1] ! i) x \<longleftrightarrow> i \<noteq> k \<and> listens (ds ! i) x" if "i < length ds" for i x
    using un that by (cases "i = k") (simp_all add: listens_def goto_def)
  have "life_ok ?d1" using life k(2) un by (auto simp: life_ok_def listens_def goto_def)
  then have lives: "\<forall>d \<in> set (ds[k := ?d1]). life_ok d"
    using ok set_update_subset_insert [of ds k ?d1] by (auto simp: registry_ok_def)
  have own: "listens ?d x \<longleftrightarrow> x = rm" for x using un k(2) by (auto simp: listens_def)
  have "(e, i) \<in> set (entries_of (registry_remove rm r) c) \<longleftrightarrow> (e, i) \<in> set (entries_of r c) \<and> rm \<noteq> Remove c e" for e i c
    by (cases rm) (auto simp: entries_of_simps entries_of_def Let_def filter_empty_conv split: option.splits if_splits)
  then have "(e, i) \<in> set (entries_of (registry_remove rm r) c) \<longleftrightarrow>
      i < length ds \<and> listens (ds[k := ?d1] ! i) (Remove c e)" for e i c
    using registry_okD(2) [OF ok, of e i c] l [of i] own registry_okD(4) [OF ok _ k(1), of i c e] k(1) by auto
  moreover have "cr_m (registry_remove rm r) c \<noteq> Some []" for c
    using registry_okD(1) [OF ok] by (cases rm) (auto simp: Let_def split: option.splits)
  moreover have "cr_next (registry_remove rm r) = cr_next r"
    by (cases rm) (auto simp: Let_def split: option.splits)
  ultimately show ?thesis using registry_okD(3,4) [OF ok] l lives unfolding registry_ok_def length_list_update by auto
qed

text \<open>Whom a caller asked to stop, and that nothing else ends as if it had.\<close>

definition asked :: "string list \<Rightarrow> delivery_run \<Rightarrow> bool" where
  "asked ns d \<longleftrightarrow> dl_id d \<in> set ns \<and> dl_id d \<noteq> []"

definition cause_ok :: "string list \<Rightarrow> delivery_run \<Rightarrow> bool" where
  "cause_ok ns d \<longleftrightarrow>
     (\<forall>e. dl_cause d = Some e \<longrightarrow> errors_is e ErrCancelled \<longrightarrow> asked ns d) \<and> (dl_ending d = ByCaller \<longrightarrow> asked ns d)"

definition cancel_inv :: "bus_work \<Rightarrow> bool" where
  "cancel_inv s \<longleftrightarrow>
     registry_ok (bw_registry s) (bw_dels s) \<and> (\<forall>d \<in> set (bw_dels s). cause_ok (bw_notices s) d) \<and>
     (\<forall>(k, e) \<in> set (bw_cancels s). errors_is e ErrCancelled \<longrightarrow> k < length (bw_dels s) \<and> asked (bw_notices s) (bw_dels s ! k))"

lemma errors_is_simple [simp]:
  "errors_is (Sentinel x) y \<longleftrightarrow> x = y" "\<not> errors_is (ProcessingTimeout i t) y"
  by (simp_all add: errors_is_def)

lemma cause_ok_cancel:
  "cause_ok ns d \<Longrightarrow> (errors_is e ErrCancelled \<Longrightarrow> asked ns d) \<Longrightarrow> cause_ok ns (cancel_ctx e d)"
  by (auto simp: cause_ok_def cancel_ctx_def asked_def split: option.splits)

lemma cancel_inv_upd:
  assumes "cancel_inv s" "bw_registry s1 = bw_registry s" "bw_dels s1 = (bw_dels s)[k := d]"
    and "set (bw_cancels s1) \<subseteq> set (bw_cancels s)" "bw_notices s1 = bw_notices s"
    and "k < length (bw_dels s) \<Longrightarrow> keeps_life (bw_dels s ! k) d \<and> dl_id d = dl_id (bw_dels s ! k) \<and> cause_ok (bw_notices s) d"
  shows "cancel_inv s1"
proof -
  have "registry_ok (bw_registry s1) (bw_dels s1)"
    using assms(1-3,6) registry_ok_upd by (simp add: cancel_inv_def)
  moreover have "cause_ok (bw_notices s1) x" if "x \<in> set (bw_dels s1)" for x
    using assms(1,3,5,6) that set_update_subset_insert [of "bw_dels s" k d]
    by (cases "k < length (bw_dels s)") (auto simp: cancel_inv_def list_update_beyond)
  moreover have "i < length (bw_dels s1) \<and> asked (bw_notices s1) (bw_dels s1 ! i)"
    if c: "(i, e) \<in> set (bw_cancels s1)" "errors_is e ErrCancelled" for i e
  proof -
    have i: "i < length (bw_dels s)" "asked (bw_notices s) (bw_dels s ! i)"
      using assms(1) subsetD [OF assms(4) c(1)] c(2) unfolding cancel_inv_def by blast+
    then show ?thesis using assms(3,5,6) by (cases "i = k") (simp_all add: asked_def)
  qed
  ultimately show ?thesis unfolding cancel_inv_def by blast
qed

lemma cancel_inv_on_del:
  assumes "cancel_inv s" "k < length (bw_dels s) \<Longrightarrow> keeps_life (bw_dels s ! k) (f (bw_dels s ! k)) \<and>
      dl_id (f (bw_dels s ! k)) = dl_id (bw_dels s ! k) \<and> cause_ok (bw_notices s) (f (bw_dels s ! k))"
  shows "cancel_inv (on_del k f s)"
  by (rule cancel_inv_upd [OF assms(1), where k = k and d = "f (bw_dels s ! k)"]) (use assms(2) in \<open>simp_all add: on_del_def\<close>)

lemma cancel_inv_rest [simp]:
  "cancel_inv (s\<lparr>bw_consumers := cs\<rparr>) = cancel_inv s" "cancel_inv (s\<lparr>bw_loops := ls\<rparr>) = cancel_inv s"
  "cancel_inv (s\<lparr>bw_drains := ds\<rparr>) = cancel_inv s" "cancel_inv (s\<lparr>bw_deliveries := f\<rparr>) = cancel_inv s"
  "cancel_inv (s\<lparr>bw_handlers := f\<rparr>) = cancel_inv s" "cancel_inv (on_worker c g s) = cancel_inv s"
  "cancel_inv (on_loop l h s) = cancel_inv s"
  by (simp_all add: cancel_inv_def on_worker_def on_loop_def)

lemma cancel_invD:
  assumes "cancel_inv s" "k < length (bw_dels s)"
  shows "life_ok (bw_dels s ! k)" "cause_ok (bw_notices s) (bw_dels s ! k)"
  using registry_okD(5) [of "bw_registry s" "bw_dels s" k] assms by (simp_all add: cancel_inv_def)

lemma cancel_inv_move:
  assumes "cancel_inv s" "\<And>d ns. k < length (bw_dels s) \<Longrightarrow> d = bw_dels s ! k \<Longrightarrow> life_ok d \<Longrightarrow> cause_ok ns d \<Longrightarrow>
      keeps_life d (f d) \<and> dl_id (f d) = dl_id d \<and> cause_ok ns (f d)"
  shows "cancel_inv (on_del k f s)"
  using assms cancel_invD [OF assms(1)] by (intro cancel_inv_on_del) blast+

lemmas life_defs = keeps_life_def life_ok_def listens_def goto_def cause_ok_def asked_def handler_moves

lemma cancel_inv_receive:
  assumes "cancel_inv s"
  shows "cancel_inv (loop_receive l cid s)"
proof -
  let ?d = "new_delivery (lo_cons (bw_loops s ! l)) cid (if has_sem (bw_consumers s ! lo_cons (bw_loops s ! l)) then PWait l else PStart)"
  have no: "\<not> listens ?d rm" for rm by (simp add: listens_def new_delivery_def)
  have l: "listens ((bw_dels s @ [?d]) ! i) rm \<longleftrightarrow> i < length (bw_dels s) \<and> listens (bw_dels s ! i) rm"
    if "i < Suc (length (bw_dels s))" for i rm
    using no that by (auto simp: nth_append less_Suc_eq)
  have ok: "registry_ok (bw_registry s) (bw_dels s)" using assms by (simp add: cancel_inv_def)
  have "registry_ok (bw_registry s) (bw_dels s @ [?d])"
  proof (rule registry_okI)
    show "(e, k) \<in> set (entries_of (bw_registry s) c) \<longleftrightarrow> k < length (bw_dels s @ [?d]) \<and> listens ((bw_dels s @ [?d]) ! k) (Remove c e)" for c e k
      using registry_okD(2) [OF ok, of e k c] l [of k] by auto
    show "e < cr_next (bw_registry s)" if "k < length (bw_dels s @ [?d])" "listens ((bw_dels s @ [?d]) ! k) (Remove c e)" for k c e
      using registry_okD(3) [OF ok, of k c e] that l [of k] by simp
    show "i = j" if "i < length (bw_dels s @ [?d])" "j < length (bw_dels s @ [?d])" "listens ((bw_dels s @ [?d]) ! i) (Remove c1 e)"
      "listens ((bw_dels s @ [?d]) ! j) (Remove c2 e)" for i j c1 c2 e
      using registry_okD(4) [OF ok, of i j c1 e c2] that l [of i] l [of j] by simp
    show "life_ok x" if x: "x \<in> set (bw_dels s @ [?d])" for x
    proof (cases "x = ?d")
      case True
      then show ?thesis using no by (simp add: life_ok_def) (simp add: new_delivery_def)
    next
      case False
      then show ?thesis using x ok by (simp add: registry_ok_def)
    qed
  qed (rule registry_okD(1) [OF ok])
  moreover have "cause_ok (bw_notices s) ?d" by (simp add: cause_ok_def new_delivery_def)
  ultimately have "cancel_inv (s\<lparr>bw_dels := bw_dels s @ [?d]\<rparr>)"
    using assms by (auto simp: cancel_inv_def nth_append)
  then show ?thesis
    by (cases "has_sem (bw_consumers s ! lo_cons (bw_loops s ! l))") (simp_all add: loop_receive_def Let_def cancel_inv_def on_loop_def)
qed

lemma cancel_inv_cancels:
  assumes "cancel_inv s" "\<And>k e. (k, e) \<in> set cs \<Longrightarrow> errors_is e ErrCancelled \<Longrightarrow> k < length (bw_dels s) \<and> asked (bw_notices s) (bw_dels s ! k)"
  shows "cancel_inv (s\<lparr>bw_cancels := bw_cancels s @ cs\<rparr>)"
  using assms by (auto simp: cancel_inv_def)

lemma cancel_inv_notice:
  assumes "cancel_inv s"
  shows "cancel_inv (handle_notice cid s)"
proof -
  have "cancel_inv (s\<lparr>bw_notices := cid # bw_notices s\<rparr>)"
    using assms by (fastforce simp: cancel_inv_def cause_ok_def asked_def)
  moreover have "k < length (bw_dels s) \<and> asked (cid # bw_notices s) (bw_dels s ! k)"
    if "(e, k) \<in> set (entries_of (bw_registry s) cid)" "cid \<noteq> []" for e k
  proof -
    have "registry_ok (bw_registry s) (bw_dels s)" using assms by (simp add: cancel_inv_def)
    then have k: "k < length (bw_dels s)" "listens (bw_dels s ! k) (Remove cid e)"
      using registry_okD(2) that(1) by blast+
    then have "cid = dl_id (bw_dels s ! k)" using cancel_invD(1) [OF assms k(1)] unfolding life_ok_def by blast
    with k(1) that(2) show ?thesis by (simp add: asked_def)
  qed
  ultimately show ?thesis
    using cancel_inv_cancels [of "s\<lparr>bw_notices := cid # bw_notices s\<rparr>"
        "map (\<lambda>(e, k). (k, Sentinel ErrCancelled)) (entries_of (bw_registry s) cid)"]
    by (force simp: handle_notice_def Let_def)
qed

lemma cancel_inv_end:
  assumes "cancel_inv s"
  shows "cancel_inv (end_session s)"
proof -
  let ?g = "\<lambda>d. if has_context (dl_phase d) then cancel_ctx (Sentinel ctxCanceled) d else d"
  have "keeps_life d (?g d)" for d by (simp add: keeps_life_def life_ok_def listens_def cancel_ctx_fields)
  then have "list_all2 keeps_life (bw_dels s) (map ?g (bw_dels s))" by (simp add: list_all2_conv_all_nth)
  then have "registry_ok (bw_registry s) (map ?g (bw_dels s))"
    using assms registry_ok_same unfolding cancel_inv_def by blast
  moreover have "cause_ok ns (cancel_ctx (Sentinel ctxCanceled) d)" if "cause_ok ns d" for ns d
    using cause_ok_cancel [OF that, of "Sentinel ctxCanceled"] by simp
  moreover have "asked ns (?g d) = asked ns d" for ns d by (simp add: asked_def cancel_ctx_fields)
  ultimately show ?thesis using assms by (auto simp: cancel_inv_def end_session_def)
qed

lemma cancel_inv_cancellable:
  assumes "cancel_inv s" "handler_at s k HRun"
  shows "cancel_inv (cancellable k s)"
proof (cases "dl_released (bw_dels s ! k) \<or> dl_unlisten (bw_dels s ! k) \<noteq> None")
  case False
  let ?d = "bw_dels s ! k"
  have k: "k < length (bw_dels s)" "dl_handler ?d = HRun" using assms(2) by (simp_all add: handler_at_def)
  obtain rm r where add: "registry_add (dl_id ?d) k (bw_registry s) = (rm, r)" by fastforce
  have "registry_ok r ((bw_dels s)[k := ?d\<lparr>dl_unlisten := Some rm\<rparr>])"
    using assms(1) k False add by (intro registry_ok_add) (simp_all add: cancel_inv_def)
  moreover have "cause_ok (bw_notices s) (?d\<lparr>dl_unlisten := Some rm\<rparr>)"
    using cancel_invD(2) [OF assms(1) k(1)] by (simp add: cause_ok_def asked_def)
  moreover have "asked ns ((bw_dels s)[k := ?d\<lparr>dl_unlisten := Some rm\<rparr>] ! i) = asked ns (bw_dels s ! i)" for ns i
    using k(1) by (cases "i = k") (simp_all add: asked_def)
  ultimately show ?thesis using assms(1) False add set_update_subset_insert [of "bw_dels s" k]
    unfolding cancellable_def cancel_inv_def on_del_def Let_def by (simp; blast)
qed (use assms(1) in \<open>auto simp: cancellable_def\<close>)

lemma cancel_inv_unlisten:
  assumes "cancel_inv s" "k < length (bw_dels s)" "dl_phase (bw_dels s ! k) = PUnlisten rm"
  shows "cancel_inv (unlisten k rm s)"
proof -
  let ?d = "bw_dels s ! k"
  have "registry_ok (registry_remove rm (bw_registry s)) ((bw_dels s)[k := goto PInactive ?d])"
    using assms by (intro registry_ok_remove) (simp_all add: cancel_inv_def)
  moreover have "cause_ok (bw_notices s) (goto PInactive ?d)"
    using cancel_invD(2) [OF assms(1,2)] by (simp add: cause_ok_def asked_def goto_def)
  moreover have "asked ns ((bw_dels s)[k := goto PInactive ?d] ! i) = asked ns (bw_dels s ! i)" for ns i
    using assms(2) by (cases "i = k") (simp_all add: asked_def goto_def)
  ultimately show ?thesis using assms(1) set_update_subset_insert [of "bw_dels s" k]
    unfolding unlisten_def cancel_inv_def on_del_def by (simp; blast)
qed

lemma cancel_inv_cancel:
  assumes "cancel_inv s" "i < length (bw_cancels s)"
  shows "cancel_inv ((on_del (fst (bw_cancels s ! i)) (cancel_ctx (snd (bw_cancels s ! i))) s)
          \<lparr>bw_cancels := take i (bw_cancels s) @ drop (Suc i) (bw_cancels s)\<rparr>)"
proof -
  obtain k e where ke: "bw_cancels s ! i = (k, e)" by fastforce
  then have "(k, e) \<in> set (bw_cancels s)" using assms(2) nth_mem by metis
  then have "asked (bw_notices s) (bw_dels s ! k)" if "errors_is e ErrCancelled"
    using assms(1) that unfolding cancel_inv_def by blast
  then have "keeps_life d (cancel_ctx e d) \<and> dl_id (cancel_ctx e d) = dl_id d \<and> cause_ok (bw_notices s) (cancel_ctx e d)"
    if "k < length (bw_dels s)" "d = bw_dels s ! k" for d
    using that cause_ok_cancel [OF cancel_invD(2) [OF assms(1) that(1)], of e]
    by (simp add: keeps_life_def life_ok_def listens_def cancel_ctx_fields)
  then show ?thesis
    by (intro cancel_inv_upd [OF assms(1), where k = k and d = "cancel_ctx e (bw_dels s ! k)"])
      (auto simp: ke on_del_def dest: in_set_takeD in_set_dropD)
qed

lemma cancel_inv_step:
  assumes "work_inv s" "cancel_inv s" "wstep a s = Some s1"
  shows "cancel_inv s1"
proof (cases a)
  case (AReceive l cid)
  then show ?thesis using assms by (auto simp: guarded_def cancel_inv_receive split: if_splits)
next
  case (AAcquire l)
  then show ?thesis using assms(2,3) held_facts [OF assms(1), of l]
    by (auto simp: guarded_def loop_acquire_def Let_def life_defs split: if_splits lphase.splits intro!: cancel_inv_move)
next
  case (ALetGo l)
  then show ?thesis using assms(2,3) held_facts [OF assms(1), of l]
    by (auto simp: guarded_def loop_let_go_def Let_def life_defs split: if_splits lphase.splits intro!: cancel_inv_move)
next
  case (ANotice cid)
  then show ?thesis using assms by (auto simp: cancel_inv_notice)
next
  case AEndSession
  then show ?thesis using assms by (auto simp: cancel_inv_end)
next
  case (ALost c)
  then show ?thesis using assms
    by (auto simp: guarded_def connectionLost_def cancelActive_def split: if_splits intro!: cancel_inv_cancels)
next
  case (AClose c)
  then show ?thesis using assms
    by (auto simp: guarded_def cancelActive_def split: if_splits intro!: cancel_inv_cancels)
next
  case (ACancellable k)
  then show ?thesis using assms by (auto simp: guarded_def cancel_inv_cancellable split: if_splits)
next
  case (AUnlisten k)
  then show ?thesis using assms by (auto simp: cancel_inv_unlisten split: if_splits dphase.splits)
next
  case (ACancel i)
  then show ?thesis using assms by (auto simp: guarded_def cancel_inv_cancel split: if_splits)
next
  case (ABegin k)
  then show ?thesis using assms(2,3)
    by (auto simp: guarded_def at_def begin_process_def life_defs split: if_splits intro!: cancel_inv_move)
next
  case (ARelease k)
  then show ?thesis using assms(2,3)
    by (auto simp: guarded_def at_def release_def life_defs split: if_splits option.splits intro!: cancel_inv_move)
next
  case (ATimeout k)
  then show ?thesis using assms(2,3)
    by (auto simp: guarded_def at_def time_out_def goto_def keeps_life_def life_ok_def listens_def cancel_ctx_fields
        split: if_splits intro!: cancel_inv_move) (auto dest: cause_ok_cancel simp: cause_ok_def asked_def cancel_ctx_def split: option.splits)
next
  case (AContext k)
  then show ?thesis using assms(2,3)
    by (auto simp: guarded_def at_def goto_def keeps_life_def life_ok_def listens_def cancel_ctx_fields
        split: if_splits intro!: cancel_inv_move) (auto simp: cause_ok_def asked_def cancel_ctx_def split: option.splits)
next
  case (ASettle k)
  then show ?thesis using assms(2,3)
    by (auto simp: guarded_def at_def life_defs ending_of_def split: if_splits option.splits intro!: cancel_inv_move)
qed (use assms in \<open>auto simp: guarded_def at_def handler_at_def launch_def leave_active_def free_slot_def life_defs
      split: if_splits intro!: cancel_inv_move\<close>)

lemma work_cancel_inv_steps: "wsteps as bus_start = Some s \<Longrightarrow> work_inv s \<and> cancel_inv s"
proof (rule wsteps_invariant [where P = "\<lambda>s. work_inv s \<and> cancel_inv s"])
  show "work_inv bus_start \<and> cancel_inv bus_start"
    using work_inv_start by (simp add: cancel_inv_def registry_ok_def) (simp add: bus_start_def newCancelRegistry_def entries_of_def)
qed (auto intro: work_inv_step cancel_inv_step)

text \<open>Deliveries that have left \<open>process\<close> have left the registry.\<close>

lemma registry_empties:
  assumes "cancel_inv s" "\<forall>d \<in> set (bw_dels s). dl_phase d \<in> {PSlot, PDone, PDropped}"
  shows "registry_size (bw_registry s) = 0"
proof -
  have ok: "registry_ok (bw_registry s) (bw_dels s)" using assms(1) by (simp add: cancel_inv_def)
  have "\<not> listens (bw_dels s ! k) (Remove cid e)" if k: "k < length (bw_dels s)" for k cid e
  proof -
    have "dl_phase (bw_dels s ! k) \<in> {PSlot, PDone, PDropped}" using assms(2) k by simp
    then show ?thesis using cancel_invD(1) [OF assms(1) k] by (auto simp: life_ok_def listens_def)
  qed
  then have "entries_of (bw_registry s) cid = []" for cid
    using registry_okD(2) [OF ok] by (cases "entries_of (bw_registry s) cid") (auto, metis list.set_intros(1) surj_pair)
  from this registry_okD(1) [OF ok] have "cr_m (bw_registry s) cid = None" for cid
    unfolding entries_of_def by (metis option.exhaust option.simps(5))
  then have "dom (cr_m (bw_registry s)) = {}" by auto
  then show ?thesis by (simp add: registry_size_def)
qed

section \<open>Properties\<close>

text \<open>
  C16. In every interleaving of any number of consumers, a consumer never runs more handlers
  at once than its concurrency, counting those the processing timeout abandoned; the two
  in-flight counts are exactly the deliveries received and not yet finished and the
  handlers not yet returned; and counting never closes a channel twice.
\<close>

theorem handlers_bounded:
  assumes "wsteps as bus_start = Some s"
  shows "fl_n (bw_deliveries s) = int (num counted (bw_dels s)) \<and> fl_n (bw_handlers s) = int (num running (bw_dels s)) \<and>
    \<not> fl_panic (bw_deliveries s) \<and> \<not> fl_panic (bw_handlers s) \<and>
    (c < length (bw_consumers s) \<and> 0 < cs_concurrency (wk_spec (bw_consumers s ! c)) \<longrightarrow>
       int (num (\<lambda>d. dl_cons d = c \<and> dl_handler d = HRun) (bw_dels s)) \<le> cs_concurrency (wk_spec (bw_consumers s ! c)))"
proof -
  have inv: "work_inv s" by (rule work_inv_steps [OF assms])
  have "num (\<lambda>d. dl_cons d = c \<and> dl_handler d = HRun) (bw_dels s) \<le> num (slotted c) (bw_dels s)"
  proof (rule num_mono)
    fix d assume "d \<in> set (bw_dels s)" "dl_cons d = c \<and> dl_handler d = HRun"
    then show "slotted c d" using inv by (cases "dl_phase d") (auto simp: work_inv_def del_ok_def slotted_def)
  qed
  moreover have "sem_ok s c" if "c < length (bw_consumers s)" by (rule work_invD(3) [OF inv that])
  ultimately show ?thesis using work_invD(1,2) [OF inv] by (auto simp: inflight_ok_def sem_ok_def has_sem_def)
qed

text \<open>
  C15. A drain that succeeds is complete. If every loop has ended and none is started, then
  when a \<open>Drain\<close> that began since returns without an error, no handler is running and every
  delivery ever received is finished.
\<close>

theorem drain_complete:
  assumes "wsteps as bus_start = Some s0" "intake_over s0" "wsteps bs s0 = Some s" "\<forall>a \<in> set bs. \<not> starts_loop a"
    and "length (bw_drains s0) \<le> i" "i < length (bw_drains s)" "bw_drains s ! i = DrOk"
  shows "InFlight s = 0 \<and> (\<forall>d \<in> set (bw_dels s). dl_phase d \<in> {PSlot, PDone, PDropped} \<and> dl_handler d \<notin> {HRun, HSent})"
proof -
  have start: "drains_ok (length (bw_drains s0)) s0" using assms(2) work_inv_steps [OF assms(1)] by (simp add: drains_ok_def)
  have ok: "drains_ok (length (bw_drains s0)) s"
    by (rule wsteps_invariant [where P = "drains_ok (length (bw_drains s0))", OF _ start assms(3)])
      (use assms(4) in \<open>auto intro: drains_ok_step\<close>)
  then have zero: "num counted (bw_dels s) = 0" "num running (bw_dels s) = 0"
    using assms(5-7) by (auto simp: drains_ok_def)
  moreover have "InFlight s = 0"
    using ok zero work_invD(1,2) [of s] by (simp add: drains_ok_def inflight_ok_def InFlight_def)
  ultimately show ?thesis by (simp add: num_zero counted_def running_def)
qed

text \<open>
  C17. A cancel notice reaches its own handlers. In every interleaving, a notice queues a
  cancellation for exactly the deliveries with its correlation id that registered and have
  not been released; a delivery ends as cancelled by its caller only if a notice with its
  (non-empty) correlation id was received; and when every delivery is finished nothing is
  left in the registry.
\<close>

theorem cancel_exact:
  assumes "wsteps as bus_start = Some s"
  shows "set (bw_cancels (handle_notice cid s)) = set (bw_cancels s) \<union>
      (\<lambda>k. (k, Sentinel ErrCancelled)) ` {k. k < length (bw_dels s) \<and> dl_id (bw_dels s ! k) = cid \<and> (\<exists>e. listens (bw_dels s ! k) (Remove cid e))} \<and>
    (d \<in> set (bw_dels s) \<and> dl_ending d = ByCaller \<longrightarrow> dl_id d \<in> set (bw_notices s) \<and> dl_id d \<noteq> []) \<and>
    ((\<forall>d \<in> set (bw_dels s). dl_phase d \<in> {PSlot, PDone, PDropped}) \<longrightarrow> registry_size (bw_registry s) = 0)"
proof -
  have inv: "cancel_inv s" using work_cancel_inv_steps [OF assms] ..
  have ok: "registry_ok (bw_registry s) (bw_dels s)" using inv by (simp add: cancel_inv_def)
  have own: "dl_id (bw_dels s ! k) = c \<and> c \<noteq> []" if "k < length (bw_dels s)" "listens (bw_dels s ! k) (Remove c e)" for k c e
    using cancel_invD(1) [OF inv that(1)] that(2) unfolding life_ok_def by blast
  have "snd ` set (entries_of (bw_registry s) cid) =
      {k. k < length (bw_dels s) \<and> dl_id (bw_dels s ! k) = cid \<and> (\<exists>e. listens (bw_dels s ! k) (Remove cid e))}"
    (is "?l = ?r")
  proof (rule set_eqI)
    fix k
    have "k \<in> ?l \<longleftrightarrow> (\<exists>e. (e, k) \<in> set (entries_of (bw_registry s) cid))" by force
    also have "\<dots> \<longleftrightarrow> k < length (bw_dels s) \<and> (\<exists>e. listens (bw_dels s ! k) (Remove cid e))"
      unfolding registry_okD(2) [OF ok] by blast
    also have "\<dots> \<longleftrightarrow> k \<in> ?r" using own by blast
    finally show "k \<in> ?l \<longleftrightarrow> k \<in> ?r" .
  qed
  moreover have "(\<lambda>(e, k). (k, Sentinel ErrCancelled)) ` A = (\<lambda>k. (k, Sentinel ErrCancelled)) ` snd ` A" for A :: "(nat \<times> nat) set"
    by (force simp: image_iff)
  moreover have "{k. k < length (bw_dels s) \<and> dl_id (bw_dels s ! k) = [] \<and> (\<exists>e. listens (bw_dels s ! k) (Remove [] e))} = {}"
    using own by blast
  ultimately have "set (bw_cancels (handle_notice cid s)) = set (bw_cancels s) \<union>
      (\<lambda>k. (k, Sentinel ErrCancelled)) ` {k. k < length (bw_dels s) \<and> dl_id (bw_dels s ! k) = cid \<and> (\<exists>e. listens (bw_dels s ! k) (Remove cid e))}"
    by (cases "cid = []") (auto simp: handle_notice_def Let_def)
  moreover have "dl_id d \<in> set (bw_notices s) \<and> dl_id d \<noteq> []" if "d \<in> set (bw_dels s)" "dl_ending d = ByCaller"
    using inv that unfolding cancel_inv_def cause_ok_def asked_def by blast
  ultimately show ?thesis using registry_empties [OF inv] by blast
qed

text \<open>A delivery served, cancelled by its caller and finished, then drained.\<close>

definition demo_spec :: consumerSpec where
  "demo_spec = spec_late\<lparr>cs_concurrency := 1\<rparr>"

definition demo_serve :: "act list" where
  "demo_serve = [ANewConsumer demo_spec, ALoop 0, AReceive 0 ''c1'', AAcquire 0, ABegin 0, ALaunch 0, ACancellable 0]"

definition demo_finish :: "act list" where
  "demo_finish = [AEnd 0, ANotice ''c1'', ACancel 0, AReturn 0, AUncount 0, AResult 0, ASettle 0, ARelease 0, AUnlisten 0,
     AInactive 0, AContext 0, ADone 0, AExit 0, AFree 0]"

definition demo_drain :: "act list" where
  "demo_drain = [ADrain, ADrainStep 0 False, ADrainStep 0 False]"

definition demo_serving_state :: bus_work where
  "demo_serving_state = the (wsteps demo_serve bus_start)"

definition demo_finished :: bus_work where
  "demo_finished = the (wsteps (demo_serve @ demo_finish) bus_start)"

lemma is_some_the: "\<not> Option.is_none x \<Longrightarrow> x = Some (the x)"
  by (cases x) simp_all

lemma demo_serve_run: "wsteps demo_serve bus_start = Some demo_serving_state"
  unfolding demo_serving_state_def by (rule is_some_the) code_simp

lemma demo_finish_run: "wsteps (demo_serve @ demo_finish) bus_start = Some demo_finished"
  unfolding demo_finished_def by (rule is_some_the) code_simp

theorem handlers_bounded_witness:
  "InFlight demo_serving_state = 1 \<and> num (\<lambda>d. dl_cons d = 0 \<and> dl_handler d = HRun) (bw_dels demo_serving_state) \<le> 1"
proof -
  have "fl_n (bw_deliveries demo_serving_state) = 1" "fl_n (bw_handlers demo_serving_state) = 1"
      "length (bw_consumers demo_serving_state) = 1" "cs_concurrency (wk_spec (bw_consumers demo_serving_state ! 0)) = 1"
    by code_simp+
  then show ?thesis using handlers_bounded [OF demo_serve_run, of 0] by (simp add: InFlight_def)
qed

theorem drain_complete_witness:
  "\<exists>s. wsteps demo_drain demo_finished = Some s \<and> InFlight s = 0 \<and> bw_dels s \<noteq> []"
proof -
  define s where "s = the (wsteps demo_drain demo_finished)"
  have run: "wsteps demo_drain demo_finished = Some s" unfolding s_def by (rule is_some_the) code_simp
  have over: "intake_over demo_finished" and none: "bw_drains demo_finished = []"
    and ok: "bw_drains s = [DrOk]" and "bw_dels s \<noteq> []"
    unfolding s_def by code_simp+
  moreover have "\<forall>a \<in> set demo_drain. \<not> starts_loop a" by code_simp
  ultimately show ?thesis using drain_complete [OF demo_finish_run over run, of 0] run by simp
qed

theorem cancel_exact_witness:
  "map dl_ending (bw_dels demo_finished) = [ByCaller] \<and> bw_notices demo_finished = [''c1''] \<and> registry_size (bw_registry demo_finished) = 0"
proof -
  have "map dl_ending (bw_dels demo_finished) = [ByCaller]" "bw_notices demo_finished = [''c1'']"
      "map dl_phase (bw_dels demo_finished) = [PDone]"
    by code_simp+
  then show ?thesis using cancel_exact [OF demo_finish_run] by (auto simp: map_eq_Cons_conv)
qed

end
