(* ===== verification/Spec2Isabelle.thy ===== *)
theory Spec2Isabelle imports Topic Wire Streams PubChan Session BrokerRoute Pump DispatcherInv Config CustomTypes Client Service Listener Topology Routes Generated Workers begin

text \<open>
  Verification of protobus-go, a message bus over AMQP: request/response calls, server
  streams and events between processes that share a RabbitMQ broker.

  \<^bold>\<open>The program.\<close> A \<open>Bus\<close> (\<open>bus.go\<close>) owns a session (\<open>session.go\<close>) that keeps one connection to
  the broker alive and restores every component on each new one. The components are the
  dispatcher (\<open>dispatcher.go\<close>), which publishes requests and routes replies to waiting calls
  and streams, the event publisher (\<open>events.go\<close>), the cancel listener (\<open>cancel.go\<close>) and one
  consumer (\<open>consumer.go\<close>) for each service (\<open>service.go\<close>) and event listener
  (\<open>eventlistener.go\<close>). All of them publish through publishing channels (\<open>pubchan.go\<close>) that
  wait for the broker's confirms. Clients (\<open>client.go\<close>) wrap calls in envelopes
  (\<open>internal/wire/envelope.go\<close>). The tests run against a broker in memory
  (\<open>internal/fakebroker\<close>).

  \<^bold>\<open>Style.\<close> Data are records and datatypes with the source's fields and constructors. What
  runs under one mutex is one function of an explicit state; goroutines that interleave are
  step relations over such functions, and their invariants hold in every reachable state.
  The broker behind a component appears in three ways: as an environment that decides the
  outcome of each call from the history of all earlier ones (theory \<open>Amqp\<close>), so a statement
  for all environments covers every pattern of failures; as a record of operations on an
  arbitrary state (theory \<open>Topology\<close>); and as the in-memory broker itself (\<open>Broker\<close>). Errors
  are values of one datatype with Go's wrapping tree. Integers keep their width where the
  code can overflow; counters that cannot overflow in practice are unbounded. Code outside
  the repository (the protobuf and protowire libraries, \<open>strconv.Quote\<close>, application
  handlers) is an argument of the definitions that use it.

  \<^bold>\<open>Theories.\<close>

  \<^item> \<open>Prelude\<close>: types, fact collections and lemmas on lists, maps and words the others share.
  \<^item> \<open>GoStrings\<close>: the functions of Go's standard library the sources call on strings.
  \<^item> \<open>Topic\<close>: \<open>internal/topic/trie.go\<close>, refined against the AMQP topic rule of
    \<open>topicMatch\<close>; locale \<open>topic_router\<close> is its contract with the event listener.
  \<^item> \<open>Wire\<close>: \<open>internal/wire/envelope.go\<close> over a protowire parameter whose laws are a locale,
    interpreted by a LEB128 codec: round trips, sizes, unknown fields, totality.
  \<^item> \<open>Headers\<close>: \<open>headers.go\<close>, numbers in AMQP headers at their widths; what a float header is
    read as, against its exact value.
  \<^item> \<open>Errors\<close>: \<open>errors.go\<close>, codes, summaries and what may be told to a caller.
  \<^item> \<open>Amqp\<close>: the broker as an environment; histories of calls.
  \<^item> \<open>Consumer\<close>: the handling and settlement of one delivery, \<open>consumer.go\<close> from \<open>process\<close> on:
    settled once, last, and only after what replaces it was confirmed; bounded retries;
    nothing is published but to the caller, the retry exchange and the dead-letter queue.
  \<^item> \<open>Workers\<close>: the goroutines around it: receive loops, handlers, the semaphore, in-flight
    counts and draining (\<open>bus.go\<close>), the cancel registry (\<open>cancel.go\<close>), as labelled steps:
    handlers are bounded, a drain is complete, a cancel notice reaches its own handlers.
  \<^item> \<open>Streams\<close>: both ends of a server stream, \<open>stream.go\<close> and \<open>clientStream\<close> of
    \<open>dispatcher.go\<close>: the caller reads a prefix, and everything on a normal end.
  \<^item> \<open>PubChan\<close>: \<open>pubchan.go\<close> as steps of callers, writer, loop and broker: what \<open>publish\<close>
    reports is true, slots are exact.
  \<^item> \<open>Session\<close>: \<open>session.go\<close> and the attaching and closing half of \<open>bus.go\<close>: ready means
    restored, reconnection ends, closing releases everything. Giving up
    and reconnecting each change the session in one step and tell the observers in the next.
  \<^item> \<open>Broker\<close>, \<open>BrokerChannel\<close>, \<open>BrokerInv\<close>, \<open>BrokerRoute\<close>, \<open>Pump\<close>: \<open>internal/fakebroker\<close>:
    prefetch, dispatch, settlement, delivery pumps; a publication reaches exactly the queues
    it is for, once, and is confirmed.
  \<^item> \<open>Dispatcher\<close>, \<open>DispatcherInv\<close>: calls, streams and replies of \<open>dispatcher.go\<close> as steps:
    a call returns its own reply, tables and byte counts are exact.
  \<^item> \<open>Config\<close>: \<open>config.go\<close>: what the environment can and cannot make of a configuration.
  \<^item> \<open>CustomTypes\<close>: \<open>pbtypes/pbtypes.go\<close> and \<open>customtypes.go\<close>: bigint round trips, the pruned
    check against a full traversal.
  \<^item> \<open>Client\<close>: options, envelopes, method names and reply decoding, \<open>options.go\<close> and \<open>client.go\<close>.
  \<^item> \<open>Service\<close>: \<open>service.go\<close> and \<open>desc.go\<close>: registration, interceptors, handling a request.
  \<^item> \<open>Generated\<close>: the bindings \<open>internal/gen/gen.go\<close> emits, as the functions they are, and the
    generator's checks: what it accepts, \<open>Register\<close> accepts.
  \<^item> \<open>Listener\<close>: \<open>events.go\<close> and \<open>eventlistener.go\<close>: which handlers an event runs.
  \<^item> \<open>Topology\<close>: what every component declares on a fresh connection, over an interface to
    the transport; locale \<open>channel_api\<close> states what it relies on, and no channel leaks.
  \<^item> \<open>Routes\<close>: those declarations against the in-memory broker: locale \<open>topology_api\<close> refines
    each declaration to an update of an abstract topology, interpreted on \<open>BrokerChannel\<close>; a
    message that expires in a retry queue returns to the queue it came from and no other.

  \<^bold>\<open>Fuel and termination.\<close> Loops are total functions with a termination proof, except the
  envelope decoders, which are partial functions proved to return on every input, and
  \<open>reachesBigintWalk\<close>, whose fuel is one more than the number of message types in the schema:
  the walk never descends twice into the same type. The property \<open>reconnect_terminates\<close> bounds the
  one loop that waits for the broker.

  \<^bold>\<open>End to end.\<close> The properties of this theory compose a generated client, the dispatcher's
  message, the consumer and a generated service: a call returns what the implementation
  returned, and an error arrives as the service tells it.

  \<^bold>\<open>Not modelled.\<close> \<open>log.go\<close> only writes; \<open>dynamic.go\<close> and \<open>protoload\<close> are protobuf reflection and
  a third-party compiler around the modelled calls; \<open>Dial\<close>, \<open>Shutdown\<close>, \<open>Run\<close> and the
  recovery loop of a consumer sequence modelled operations with timers and signals;
  \<open>internal/transport\<close> adapts the AMQP client; \<open>internal/uuid\<close> is random; \<open>cmd\<close>, \<open>examples\<close>,
  \<open>crosslang\<close>, test support and generated files are not part of the library's run time. Of the
  generator, the emitted behaviour is modelled and the emitted text is not. Timers may fire
  at any time, and wall-clock bounds are not stated.
\<close>

section \<open>A call from end to end\<close>

text \<open>
  A request on its way through the whole system: the message \<open>dispatcher.call\<close> publishes as
  the service's consumer receives it, the replies among the calls the consumer makes, and
  what the dispatcher returns to the caller: the first reply to its call, or the timeout.
\<close>

definition request_delivery :: "string \<Rightarrow> string \<Rightarrow> string \<Rightarrow> nat \<Rightarrow> string \<Rightarrow> bytes \<Rightarrow> callOptions \<Rightarrow> Delivery" where
  "request_delivery bus correlationID replyTo tag key body o1 =
     (let p = request_message correlationID replyTo body o1
      in \<lparr>d_Headers = p_Headers p, d_ContentType = p_ContentType p, d_ContentEncoding = p_ContentEncoding p,
          d_DeliveryMode = p_DeliveryMode p, d_Priority = p_Priority p, d_CorrelationId = p_CorrelationId p,
          d_ReplyTo = p_ReplyTo p, d_Expiration = p_Expiration p, d_MessageId = p_MessageId p,
          d_Timestamp = p_Timestamp p, d_Type = p_Type p, d_UserId = p_UserId p, d_AppId = p_AppId p,
          d_DeliveryTag = tag, d_Redelivered = False, d_Exchange = bus, d_RoutingKey = key, d_Body = p_Body p\<rparr>)"

fun reply_body :: "consumer_ctx \<Rightarrow> Delivery \<Rightarrow> amqp_op \<times> err option \<Rightarrow> bytes option" where
  "reply_body cc d (PublishMsg ch exchange key mandatory p, None) =
     (if exchange = cc_callbacks cc \<and> key = d_ReplyTo d \<and> p_CorrelationId p = d_CorrelationId d
      then Some (p_Body p) else None)"
| "reply_body cc d _ = None"

record ('m, 'w) serving =
  sg_codec :: "'m codec"
  sg_env :: env
  sg_ctx :: consumer_ctx
  sg_pub :: nat
  sg_service :: "('m, 'w) Service"

definition bus_call ::
  "('m, 'w) serving \<Rightarrow> (string \<Rightarrow> bytes \<Rightarrow> callOptions \<Rightarrow> Delivery) \<Rightarrow> 'w \<Rightarrow> history \<Rightarrow>
   string \<Rightarrow> bytes \<Rightarrow> callOptions \<Rightarrow> (err, bytes) result" where
  "bus_call S carry w h key body o1 =
     (let d = carry key body o1 in
      case handle (sg_env S) (sg_codec S) (sg_ctx S) (sg_pub S) (sg_service S) d w h of
        None \<Rightarrow> Inl (Sentinel ErrRPCTimeout)
      | Some (res, w1, h1) \<Rightarrow>
          (case first_some (reply_body (sg_ctx S) d)
                  (new_calls h1 (process (sg_env S) (sg_ctx S) (sg_pub S) d (Inr res) False None h1)) of
             None \<Rightarrow> Inl (Sentinel ErrRPCTimeout)
           | Some b \<Rightarrow> Inr b))"

lemma request_delivery_simps [simp]:
  "d_RoutingKey (request_delivery bus i r tag key body o1) = key"
  "d_Body (request_delivery bus i r tag key body o1) = body"
  "d_ReplyTo (request_delivery bus i r tag key body o1) = (if co_noReply o1 then [] else r)"
  by (simp_all add: request_delivery_def request_message_def)

text \<open>
  What a consumer answers when nothing fails on the way: a reply is published, and so is
  the error reply of a failed request that is not retried.
\<close>

definition works :: "env \<Rightarrow> bool" where
  "works E \<longleftrightarrow> (\<forall>h op. env_err E h op = None)"

lemma new_calls_longer: "new_calls h (h @ t @ u) = t @ u"
  by (simp add: new_calls_def)

lemma process_replies:
  assumes "works E" "d_ReplyTo d \<noteq> []"
  shows "first_some (reply_body cc d) (new_calls h (process E cc pub d (Inr (replies b)) False None h)) = Some b"
  using assms
  by (simp add: Consumer.process_def Consumer.run_def replies_def Consumer.settle_def publishReply_def perform_def works_def Consumer.ack_def Let_def new_calls_def)

lemma process_error_replies:
  assumes "works E" "d_ReplyTo d \<noteq> []" "\<not> cs_lateAck (cc_spec cc) \<or> cs_retry (cc_spec cc) = None"
    and "hr_err res \<noteq> None" "hr_errReply res = Some b"
  shows "first_some (reply_body cc d) (new_calls h (process E cc pub d (Inr res) False None h)) = Some b"
  using assms
  by (auto simp: Consumer.process_def Consumer.run_def Consumer.settle_def replyError_def publishReply_def perform_def works_def Let_def new_calls_def)

text \<open>
  A generated client and a generated service that belong together: the service was
  registered from the generated descriptor, the client addresses its instance, and every
  call to the broker succeeds. \<open>callable\<close> are the unary methods, with names protobuf allows.
\<close>

definition connected :: "('m, 'w) serving \<Rightarrow> gen_service \<Rightarrow> ('m, 'w) server \<Rightarrow> client \<Rightarrow> bool" where
  "connected S svc srv c \<longleftrightarrow>
     protowire_laws (lb_pw (cd_lib (sg_codec S))) \<and> works (sg_env S) \<and>
     check_service svc = None \<and> distinct (map gm_Name (gs_Methods svc)) \<and> gs_FullName svc \<noteq> [] \<and>
     (\<exists>cfg files nm cx pimpl sopts.
        files (gs_FullName svc) = Some (Svc (contract_of svc)) \<and>
        Register (cd_lib (sg_codec S)) cfg files (Some (generated_desc nm cx svc srv)) pimpl sopts = Inr (sg_service S)) \<and>
     (\<exists>copts. c = NewClient (cd_lib (sg_codec S)) (gs_FullName svc) copts \<and>
        fold applyClient copts '''' = sp_instance (sv_opts (sg_service S)))"

definition callable :: "gen_service \<Rightarrow> gen_method \<Rightarrow> bool" where
  "callable svc m \<longleftrightarrow>
     m \<in> set (gs_Methods svc) \<and> \<not> gm_StreamingServer m \<and> gm_Name m \<noteq> [] \<and> dot \<notin> set (gm_Name m) \<and>
     utf8_valid (full_name svc m)"

lemma connected_names:
  assumes "connected S svc srv c"
  shows "cn_err c = None \<and> cn_contract c = gs_FullName svc \<and> cn_runtime c = sv_name (sg_service S)"
proof -
  from assms obtain cfg files nm cx pimpl sopts copts where
    reg: "Register (cd_lib (sg_codec S)) cfg files (Some (generated_desc nm cx svc srv)) pimpl sopts = Inr (sg_service S)"
    and c: "c = NewClient (cd_lib (sg_codec S)) (gs_FullName svc) copts"
      "fold applyClient copts '''' = sp_instance (sv_opts (sg_service S))"
    unfolding connected_def by blast
  from Register_ok [OF reg] c show ?thesis by (auto simp: NewClient_def Let_def generated_desc_def)
qed

lemma generated_call_reply:
  fixes srv :: "('m, 'w) server"
  assumes "connected S svc srv c" "callable svc m" "\<not> co_noReply (call_options opts)" "utf8_valid (co_actor (call_options opts))"
    and C: "C = sg_codec S" and "cd_marshal C x = Inr xb" "cd_unmarshal C (gm_Input m) xb = Inr x"
    and rq: "rq = \<lparr>req_Method = full_name svc m, req_Actor = co_actor (call_options opts), req_Data = xb\<rparr>"
      "length (AppendRequest (lb_pw (cd_lib C)) [] rq) < 2 ^ 63"
    and d: "d = carry (routingKey c (gm_Name m)) (AppendRequest (lb_pw (cd_lib C)) [] rq) (call_options opts)"
      "d_RoutingKey d = routingKey c (gm_Name m)" "d_Body d = AppendRequest (lb_pw (cd_lib C)) [] rq"
    and run: "nest_unary (sp_unaryInterceptors (sv_opts (sg_service S))) (full_name svc m) (srv_unary srv (gm_GoName m)) (call_info C rq d) x w =
      (result, w1)"
    and reply: "first_some (reply_body (sg_ctx S) d) (new_calls h (process (sg_env S) (sg_ctx S) (sg_pub S) d
      (Inr (unary_reply C (sg_service S) (full_name svc m) result)) False None h)) = Some b"
  shows "generated_call C (bus_call S carry w h) c m x opts =
    map_option (map_sum id Some) (decodeReply (cd_lib C) (cd_unmarshal C (gm_Output m)) b (full_name svc m))"
proof -
  note names = connected_names [OF assms(1)]
  have full: "cn_contract c @ ''.'' @ gm_Name m = full_name svc m" using names by (simp add: full_name_def)
  obtain cfg files nm cx pimpl sopts where
    reg: "Register (cd_lib C) cfg files (Some (generated_desc nm cx svc srv)) pimpl sopts = Inr (sg_service S)"
      "files (gs_FullName svc) = Some (Svc (contract_of svc))"
    and laws: "protowire_laws (lb_pw (cd_lib C))" "check_service svc = None" "distinct (map gm_Name (gs_Methods svc))"
      "gs_FullName svc \<noteq> []"
    using assms(1) unfolding connected_def C by blast
  have m: "m \<in> set (gs_Methods svc)" "\<not> gm_StreamingServer m" "gm_Name m \<noteq> []" "dot \<notin> set (gm_Name m)"
      "utf8_valid (full_name svc m)"
    using assms(2) by (simp_all add: callable_def)
  have "d_RoutingKey d = ''REQUEST.'' @ sv_name (sg_service S) @ ''.'' @ gm_Name m"
    using d(2) names by (simp add: routingKey_def)
  from generated_reply [OF laws(1-3) m(1-4) laws(4) reg rq(1) m(5) assms(4) rq(2) this d(3) assms(7) run]
  have "handle (sg_env S) C (sg_ctx S) (sg_pub S) (sg_service S) d w h =
      Some (unary_reply C (sg_service S) (full_name svc m) result, w1, h)" .
  with reply d(1) have "bus_call S carry w h (routingKey c (gm_Name m)) (AppendRequest (lb_pw (cd_lib C)) [] rq) (call_options opts) = Inr b"
    by (simp add: bus_call_def Let_def C)
  moreover have "envelope (cd_lib C) (cd_marshal C) c (gm_Name m) x (co_actor (call_options opts)) =
      Inr (AppendRequest (lb_pw (cd_lib C)) [] rq)"
    using names full assms(6) by (simp add: envelope_def rq(1))
  ultimately show ?thesis using assms(3) full by (simp add: generated_call_def Invoke_def Let_def)
qed

text \<open>What a caller is told about the error of a handler, after \<open>failure\<close> of \<open>service.go\<close>.\<close>

definition told :: "('m, 'w) Service \<Rightarrow> string \<Rightarrow> err \<Rightarrow> callerError" where
  "told s meth e =
     (if first_some is_payload (preorder e) \<noteq> None
      then \<lparr>ce_Code = CodeProtocol, ce_Message = ''payload did not decode as the request type of '' @ meth\<rparr>
      else if errors_is e ErrUnimplemented
      then \<lparr>ce_Code = CodeProtocol, ce_Message = ''invalid service method '' @ lastSegment meth\<rparr>
      else sanitizeForCaller e (cf_ExposeInternalErrors (sv_cfg s)))"

lemma sanitize_protocol: "sanitizeForCaller (newProtocolError t) expose = \<lparr>ce_Code = CodeProtocol, ce_Message = t\<rparr>"
  by (simp add: sanitizeForCaller_def asAnswerable_def AsHandled_def newProtocolError_def)

text \<open>The answer to a failed request carries what \<open>told\<close> says, whichever way it is sent.\<close>

lemma process_failure:
  assumes "works E" "d_ReplyTo d \<noteq> []"
    and "asAnswerable e \<noteq> None \<or> \<not> cs_lateAck (cc_spec cc) \<or> cs_retry (cc_spec cc) = None"
  shows "first_some (reply_body cc d) (new_calls h (process E cc pub d (Inr (failure L s meth e)) False None h)) =
    Some (fst (AppendResponse (lb_pw L) [] \<lparr>resp_Result = None, resp_Error =
      Some \<lparr>err_Method = meth, err_Message = ce_Message (told s meth e), err_Code = ce_Code (told s meth e)\<rparr>\<rparr>))"
  using assms
  by (auto simp: failure_def rejection_def process_replies process_error_replies encodeError_def told_def
      sanitize_protocol Let_def)

section \<open>Properties\<close>

text \<open>
  C1. A call over the bus is a call of the function. A generated client sends a message to
  a generated service that implements its method, behind any chain of interceptors; the
  dispatcher publishes it, the consumer of the service hands it to the service, settles it
  and replies; and the client returns exactly the response the implementation returned for
  exactly the message that was sent, provided the codec can carry both.
\<close>

theorem rpc_end_to_end:
  fixes srv :: "('m, 'w) server"
  assumes "connected S svc srv c" "callable svc m" "\<not> co_noReply (call_options opts)" "utf8_valid (co_actor (call_options opts))"
    and C: "C = sg_codec S" and "cd_marshal C x = Inr xb" "cd_unmarshal C (gm_Input m) xb = Inr x"
    and rq: "rq = \<lparr>req_Method = full_name svc m, req_Actor = co_actor (call_options opts), req_Data = xb\<rparr>"
      "length (AppendRequest (lb_pw (cd_lib C)) [] rq) < 2 ^ 63"
    and carry: "carry = request_delivery bus correlationID replyTo tag" "replyTo \<noteq> []"
    and d: "d = carry (routingKey c (gm_Name m)) (AppendRequest (lb_pw (cd_lib C)) [] rq) (call_options opts)"
    and run: "nest_unary (sp_unaryInterceptors (sv_opts (sg_service S))) (full_name svc m) (srv_unary srv (gm_GoName m)) (call_info C rq d) x w =
      (Inr (Some y), w1)"
    and y: "cd_marshal C y = Inr yb" "cd_unmarshal C (gm_Output m) yb = Inr y"
      "length (AppendResult (lb_pw (cd_lib C)) [] \<lparr>res_Method = full_name svc m, res_Data = yb\<rparr>) < 2 ^ 63"
  shows "generated_call C (bus_call S carry w h) c m x opts = Some (Inr (Some y))"
proof -
  have w: "works (sg_env S)" and laws: "protowire_laws (lb_pw (cd_lib C))" and utf8: "utf8_valid (full_name svc m)"
    using assms(1,2) unfolding connected_def callable_def C by blast+
  have key: "d_RoutingKey d = routingKey c (gm_Name m)" "d_Body d = AppendRequest (lb_pw (cd_lib C)) [] rq"
    using d carry(1) by simp_all
  have "d_ReplyTo d \<noteq> []" using d carry assms(3) by simp
  note reply = process_replies [OF w this]
  have "generated_call C (bus_call S carry w h) c m x opts = map_option (map_sum id Some)
      (decodeReply (cd_lib C) (cd_unmarshal C (gm_Output m))
        (fst (AppendResponse (lb_pw (cd_lib C)) [] \<lparr>resp_Result = Some \<lparr>res_Method = full_name svc m, res_Data = yb\<rparr>, resp_Error = None\<rparr>))
        (full_name svc m))"
    by (rule generated_call_reply [where carry = carry, OF assms(1-7) rq d key run]) (simp_all add: unary_reply_def y(1) reply)
  then show ?thesis using decodeReply_result [OF laws utf8 y(3), of "cd_unmarshal C (gm_Output m)"] y(2) by simp
qed

text \<open>
  C2. What a caller learns of an error. If the implementation fails, the same call returns
  a \<open>RemoteError\<close> with the code and message \<open>told\<close> gives, provided the error is answerable or
  the service does not retry. The exception is a message that is not valid UTF-8: the
  service encodes it all the same, and the client refuses the whole reply as invalid, so
  the code is lost.
\<close>

theorem rpc_error_end_to_end:
  fixes srv :: "('m, 'w) server"
  assumes "connected S svc srv c" "callable svc m" "\<not> co_noReply (call_options opts)" "utf8_valid (co_actor (call_options opts))"
    and C: "C = sg_codec S" and "cd_marshal C x = Inr xb" "cd_unmarshal C (gm_Input m) xb = Inr x"
    and rq: "rq = \<lparr>req_Method = full_name svc m, req_Actor = co_actor (call_options opts), req_Data = xb\<rparr>"
      "length (AppendRequest (lb_pw (cd_lib C)) [] rq) < 2 ^ 63"
    and carry: "carry = request_delivery bus correlationID replyTo tag" "replyTo \<noteq> []"
    and d: "d = carry (routingKey c (gm_Name m)) (AppendRequest (lb_pw (cd_lib C)) [] rq) (call_options opts)"
    and run: "nest_unary (sp_unaryInterceptors (sv_opts (sg_service S))) (full_name svc m) (srv_unary srv (gm_GoName m)) (call_info C rq d) x w =
      (Inl e, w1)"
    and final: "asAnswerable e \<noteq> None \<or> \<not> cs_lateAck (cc_spec (sg_ctx S)) \<or> cs_retry (cc_spec (sg_ctx S)) = None"
    and ce: "ce = told (sg_service S) (full_name svc m) e" "utf8_valid (ce_Code ce)"
      "length (appendError (lb_pw (cd_lib C)) [] \<lparr>err_Method = full_name svc m, err_Message = ce_Message ce, err_Code = ce_Code ce\<rparr>) < 2 ^ 63"
  shows "generated_call C (bus_call S carry w h) c m x opts =
    Some (Inl (if utf8_valid (ce_Message ce) then RemoteError (full_name svc m) (ce_Code ce) (ce_Message ce)
               else invalid_response (full_name svc m) (wire_err (cd_lib C) (MalformedUTF8 2))))"
proof -
  let ?er = "\<lparr>err_Method = full_name svc m, err_Message = ce_Message ce, err_Code = ce_Code ce\<rparr>"
  have w: "works (sg_env S)" and laws: "protowire_laws (lb_pw (cd_lib C))" and utf8: "utf8_valid (full_name svc m)"
    using assms(1,2) unfolding connected_def callable_def C by blast+
  have key: "d_RoutingKey d = routingKey c (gm_Name m)" "d_Body d = AppendRequest (lb_pw (cd_lib C)) [] rq"
    using d carry(1) by simp_all
  have "d_ReplyTo d \<noteq> []" using d carry assms(3) by simp
  note reply = process_failure [OF w this final]
  have "generated_call C (bus_call S carry w h) c m x opts = map_option (map_sum id Some)
      (decodeReply (cd_lib C) (cd_unmarshal C (gm_Output m))
        (fst (AppendResponse (lb_pw (cd_lib C)) [] \<lparr>resp_Result = None, resp_Error = Some ?er\<rparr>)) (full_name svc m))"
    by (rule generated_call_reply [where carry = carry, OF assms(1-7) rq d key run]) (simp_all add: unary_reply_def reply ce(1))
  then show ?thesis
    using decodeReply_error [OF laws, of ?er "cd_unmarshal C (gm_Output m)"] decodeReply_bad_text [OF laws, of ?er "cd_unmarshal C (gm_Output m)"]
      utf8 ce(2,3) by simp
qed

text \<open>The service of theory \<open>Generated\<close>, registered and served over a broker that works.\<close>

definition demo_bound :: "(bytes, nat) Service" where
  "demo_bound =
     projr (Register (cd_lib demo_codec) DefaultConfig demo_files
       (Some (generated_desc '''' None demo_gen demo_server)) (Some demo_impl) [ServiceWithInstance ''a''])"

definition demo_serving :: "(bytes, nat) serving" where
  "demo_serving =
     \<lparr>sg_codec = demo_codec, sg_env = reliable,
      sg_ctx = \<lparr>cc_spec = requestSpec (cd_lib demo_codec) demo_bound, cc_queue = ''demo.Text.a'',
                cc_callbacks = ''proto.bus.callback'', cc_conv = \<lambda>_. 0\<rparr>,
      sg_pub = 0, sg_service = demo_bound\<rparr>"

definition demo_client :: client where
  "demo_client = NewClient (cd_lib demo_codec) ''demo.Text'' [WithInstance ''a'']"

definition demo_carry :: "string \<Rightarrow> bytes \<Rightarrow> callOptions \<Rightarrow> Delivery" where
  "demo_carry = request_delivery ''proto.bus'' ''c1'' ''r'' 1"

lemma demo_bound_registered:
  "Register (cd_lib demo_codec) DefaultConfig demo_files
     (Some (generated_desc '''' None demo_gen demo_server)) (Some demo_impl) [ServiceWithInstance ''a''] = Inr demo_bound"
  "sv_opts demo_bound = (default_service_options DefaultConfig)\<lparr>sp_instance := ''a''\<rparr>" "sv_cfg demo_bound = DefaultConfig"
  by (simp_all add: demo_bound_def Register_def build_service_def demo_gen_def demo_method_def demo_stream_def
      demo_files_def demo_impl_def validate_service_def default_service_options_def DefaultConfig_def
      DefaultRetryPolicy_def Second_def validInstance_def contains_any_def routing_specials_def Let_def check_impl_def
      generated_desc_def generated_unary_def generated_stream_def contract_of_def)

lemma demo_connected: "connected demo_serving demo_gen demo_server demo_client" and demo_callable: "callable demo_gen demo_method"
proof -
  have "demo_files (gs_FullName demo_gen) = Some (Svc (contract_of demo_gen))"
    by (simp add: demo_files_def demo_gen_def)
  moreover have "check_service demo_gen = None" "distinct (map gm_Name (gs_Methods demo_gen))" "gs_FullName demo_gen = ''demo.Text''"
    by (simp_all add: check_service_def checkNameClashes_def demo_gen_def demo_method_def demo_stream_def)
  moreover have "protowire_laws (lb_pw (cd_lib demo_codec))" by (simp add: demo_codec_def leb.protowire_laws_axioms)
  moreover have "fold applyClient [WithInstance ''a''] '''' = sp_instance (sv_opts demo_bound)"
    by (simp add: demo_bound_registered)
  ultimately show "connected demo_serving demo_gen demo_server demo_client"
    using demo_bound_registered(1) unfolding connected_def demo_serving_def demo_client_def works_def reliable_def by fastforce
  show "callable demo_gen demo_method"
    by (simp add: callable_def demo_gen_def demo_method_def full_name_def leb_witness)
qed

definition demo_rq :: "bytes \<Rightarrow> Request" where
  "demo_rq b = \<lparr>req_Method = full_name demo_gen demo_method, req_Actor = [], req_Data = b\<rparr>"

lemmas demo_e2e_defs = demo_serving_def demo_bound_registered(2,3) demo_codec_def call_options_def demo_rq_def leb_witness
  leb.AppendRequest_fields leb.AppendResult_fields full_name_def demo_gen_def demo_method_def demo_server_def
  default_service_options_def nest_unary_def demo_carry_def

theorem rpc_end_to_end_witness:
  "generated_call demo_codec (bus_call demo_serving demo_carry 0 []) demo_client demo_method ''ab'' [] = Some (Inr (Some ''ba''))"
  by (rule rpc_end_to_end [OF demo_connected demo_callable, where xb = "''ab''" and yb = "''ba''" and rq = "demo_rq ''ab''"
      and bus = "''proto.bus''" and correlationID = "''c1''" and replyTo = "''r''" and tag = 1 and ?w1.0 = 1, OF _ _ _ _ _ _ _ _ _ refl])
    (simp_all add: demo_e2e_defs)

theorem rpc_error_end_to_end_witness:
  "generated_call demo_codec (bus_call demo_serving demo_carry 0 []) demo_client demo_method [] [] =
     Some (Inl (RemoteError ''demo.Text.reverse'' ''EMPTY'' ''nothing to reverse''))"
proof -
  let ?ce = "\<lparr>ce_Code = ''EMPTY'', ce_Message = ''nothing to reverse''\<rparr>"
  have e: "asAnswerable (NewHandledError ''EMPTY'' ''nothing to reverse'') = Some (''EMPTY'', ''nothing to reverse'')"
    by (simp add: asAnswerable_def AsHandled_def NewHandledError_def)
  then have "?ce = told (sg_service demo_serving) (full_name demo_gen demo_method) (NewHandledError ''EMPTY'' ''nothing to reverse'')"
    by (simp add: told_def sanitizeForCaller_def NewHandledError_def errors_is_def)
  note rpc_error_end_to_end [OF demo_connected demo_callable, of "[]" demo_codec "[]" "[]" "demo_rq []" demo_carry "''proto.bus''" "''c1''" "''r''" 1
      _ 0 "NewHandledError ''EMPTY'' ''nothing to reverse''" 1 ?ce "[]", OF _ _ _ _ _ _ _ _ _ refl _ _ this]
  then show ?thesis using e by (simp add: demo_e2e_defs leb.appendError_fields)
qed

end
